(* ===== verification/Log_Prelude.thy ===== *)
theory Log_Prelude
  imports Main "HOL-Library.Word" "HOL-Library.Monad_Syntax"
begin

text \<open>
  Shared vocabulary of the development: the machine integer types, panics as
  \<open>None\<close>, the checked operations of Rust's integers and vectors that the
  sources use, and the arithmetic of the RFC 6962 split point.

  Panics. A function whose Rust source can panic (index out of bounds, integer
  overflow, a failed \<open>debug_assert!\<close>) returns \<open>'a checked\<close>, where
  \<open>None\<close> is the panic. The model is the build with overflow checks and debug
  assertions on: where it is proved that no panic occurs, the release build computes
  the same values.

  \<open>usize\<close> is modelled by \<open>nat\<close> (all its values here are lengths of vectors and
  indices, compared and cast on a 64-bit target), \<open>u64\<close> by 64-bit words.
\<close>

unbundle bit_operations_syntax

type_synonym u8 = "8 word"
type_synonym u16 = "16 word"
type_synonym u32 = "32 word"
type_synonym u64 = "64 word"

type_synonym 'a checked = "'a option"

named_theorems checked_simps
  \<open>evaluation of the checked operations when they do not panic\<close>
named_theorems split_simps
  \<open>facts on the RFC 6962 split point\<close>

section \<open>Vectors\<close>

text \<open>\<open>v[i]\<close> on a vector or slice: panics out of bounds.\<close>

definition vec_get :: "'a list \<Rightarrow> nat \<Rightarrow> 'a checked" where
  "vec_get xs i = (if i < length xs then Some (xs ! i) else None)"

text \<open>\<open>v[i].push(x)\<close> on a vector of vectors.\<close>

definition vec_push_at :: "'a list list \<Rightarrow> nat \<Rightarrow> 'a \<Rightarrow> 'a list list checked" where
  "vec_push_at xss i x = (if i < length xss then Some (xss[i := xss ! i @ [x]]) else None)"

text \<open>\<open>v.get(i)\<close>: the checked read that returns an option instead of panicking.\<close>

definition get_opt :: "'a list \<Rightarrow> nat \<Rightarrow> 'a option" where
  "get_opt xs i = (if i < length xs then Some (xs ! i) else None)"

lemma vec_get_Some [checked_simps]: "i < length xs \<Longrightarrow> vec_get xs i = Some (xs ! i)"
  by (simp add: vec_get_def)

lemma vec_get_eq_Some_iff: "vec_get xs i = Some x \<longleftrightarrow> i < length xs \<and> xs ! i = x"
  by (auto simp: vec_get_def)

lemma vec_push_at_Some [checked_simps]:
  "i < length xss \<Longrightarrow> vec_push_at xss i x = Some (xss[i := xss ! i @ [x]])"
  by (simp add: vec_push_at_def)

lemma get_opt_eq_Some_iff: "get_opt xs i = Some x \<longleftrightarrow> i < length xs \<and> xs ! i = x"
  by (auto simp: get_opt_def)

section \<open>Checked integer arithmetic\<close>

text \<open>\<open>a - b\<close> on \<open>usize\<close>: panics below zero.\<close>

definition usize_sub :: "nat \<Rightarrow> nat \<Rightarrow> nat checked" where
  "usize_sub a b = (if b \<le> a then Some (a - b) else None)"

definition u64_add :: "u64 \<Rightarrow> u64 \<Rightarrow> u64 checked" where
  "u64_add a b = (if unat a + unat b < 2 ^ 64 then Some (a + b) else None)"

definition u64_sub :: "u64 \<Rightarrow> u64 \<Rightarrow> u64 checked" where
  "u64_sub a b = (if b \<le> a then Some (a - b) else None)"

text \<open>\<open>x as u64\<close> of a \<open>usize\<close> value.\<close>

definition as_u64 :: "nat \<Rightarrow> u64" where
  "as_u64 n = word_of_nat n"

lemma usize_sub_Some [checked_simps]: "b \<le> a \<Longrightarrow> usize_sub a b = Some (a - b)"
  by (simp add: usize_sub_def)

lemma unat_u64_less [simp]: "unat (w :: u64) < 18446744073709551616"
  using unsigned_less [of w, where ?'a = nat] by simp

lemma unat_as_u64 [simp]: "n < 2 ^ 64 \<Longrightarrow> unat (as_u64 n) = n"
  by (simp add: as_u64_def unat_of_nat)

lemma u64_add_Some [checked_simps]:
  "unat a + unat b < 2 ^ 64 \<Longrightarrow> u64_add a b = Some (a + b)"
  by (simp add: u64_add_def)

lemma unat_u64_add:
  "u64_add a b = Some c \<Longrightarrow> unat c = unat a + unat b"
  by (auto simp: u64_add_def unat_word_ariths split: if_splits)

lemma u64_sub_Some [checked_simps]: "b \<le> a \<Longrightarrow> u64_sub a b = Some (a - b)"
  by (simp add: u64_sub_def)

lemma unat_u64_sub: "u64_sub a b = Some c \<Longrightarrow> unat c = unat a - unat b"
  by (auto simp: u64_sub_def unat_sub split: if_splits)

lemma unat_add_u64:
  "unat (a :: u64) + unat b < 2 ^ 64 \<Longrightarrow> unat (a + b) = unat a + unat b"
  by (simp add: unat_word_ariths)

lemma u64_eq_iff: "(a :: u64) = b \<longleftrightarrow> unat a = unat b"
  by (simp add: word_unat_eq_iff)

section \<open>Bit counting and the split point\<close>

text \<open>
  \<open>ilog2\<close>, \<open>trailing_zeros\<close> and \<open>is_power_of_two\<close> of \<open>u64\<close>: \<open>ilog2\<close>
  panics on 0, \<open>trailing_zeros\<close> of 0 is 64.
\<close>

fun log2_floor :: "nat \<Rightarrow> nat" where
  "log2_floor n = (if n < 2 then 0 else Suc (log2_floor (n div 2)))"

declare log2_floor.simps [simp del]

fun count_trailing_zeros :: "nat \<Rightarrow> nat" where
  "count_trailing_zeros n =
     (if n = 0 \<or> odd n then 0 else Suc (count_trailing_zeros (n div 2)))"

declare count_trailing_zeros.simps [simp del]

definition ilog2 :: "u64 \<Rightarrow> nat checked" where
  "ilog2 w = (if w = 0 then None else Some (log2_floor (unat w)))"

definition trailing_zeros :: "u64 \<Rightarrow> nat" where
  "trailing_zeros w = (if w = 0 then 64 else count_trailing_zeros (unat w))"

definition is_power_of_two :: "u64 \<Rightarrow> bool" where
  "is_power_of_two w = list_ex (\<lambda>k. w = push_bit k 1) [0..<64]"

lemma log2_floor_bounds: "0 < n \<Longrightarrow> 2 ^ log2_floor n \<le> n \<and> n < 2 ^ Suc (log2_floor n)"
proof (induction n rule: log2_floor.induct)
  case (1 n)
  show ?case
  proof (cases "n < 2")
    case True
    with "1.prems" show ?thesis by (simp add: log2_floor.simps [of n])
  next
    case False
    with "1.IH" have "2 ^ log2_floor (n div 2) \<le> n div 2 \<and> n div 2 < 2 ^ Suc (log2_floor (n div 2))"
      by simp
    with False show ?thesis by (simp add: log2_floor.simps [of n]) linarith
  qed
qed

lemma log2_floor_unique:
  assumes "2 ^ k \<le> n" and "n < 2 ^ Suc k"
  shows "log2_floor n = k"
proof -
  have "0 < n" using assms(1) by (rule less_le_trans [rotated]) simp
  then have b: "2 ^ log2_floor n \<le> n" "n < 2 ^ Suc (log2_floor n)"
    using log2_floor_bounds by blast+
  have "(2 :: nat) ^ k < 2 ^ Suc (log2_floor n)" using assms(1) b(2) by (rule le_less_trans)
  then have "k < Suc (log2_floor n)" by (rule power_less_imp_less_exp [rotated]) simp
  moreover have "(2 :: nat) ^ log2_floor n < 2 ^ Suc k" using b(1) assms(2) by (rule le_less_trans)
  then have "log2_floor n < Suc k" by (rule power_less_imp_less_exp [rotated]) simp
  ultimately show ?thesis by simp
qed

lemma unat_pow2:
  assumes "k < 64"
  shows "unat (push_bit k (1 :: u64)) = 2 ^ k"
proof -
  have "(2 :: nat) ^ k < 2 ^ 64" using assms by (intro power_strict_increasing) simp_all
  moreover have "push_bit k (1 :: u64) = word_of_nat (2 ^ k)" by (simp add: push_bit_eq_mult)
  ultimately show ?thesis by (simp only: unat_of_nat) simp
qed

lemma unat_power_u64 [simp]: "k < 64 \<Longrightarrow> unat ((2 :: u64) ^ k) = 2 ^ k"
  using unat_pow2 [of k] by simp

lemma is_power_of_two_iff: "is_power_of_two w \<longleftrightarrow> (\<exists>k<64. unat w = 2 ^ k)"
proof -
  have "w = push_bit k 1 \<longleftrightarrow> unat w = 2 ^ k" if "k < 64" for k
    using that by (simp only: u64_eq_iff unat_pow2)
  then show ?thesis by (auto simp: is_power_of_two_def list_ex_iff)
qed

lemma count_trailing_zeros_pow2 [simp]: "count_trailing_zeros (2 ^ k) = k"
  by (induction k) (simp_all add: count_trailing_zeros.simps)

lemma count_trailing_zeros_dvd:
  "0 < n \<Longrightarrow> 2 ^ k dvd n \<longleftrightarrow> k \<le> count_trailing_zeros n"
proof (induction n arbitrary: k rule: count_trailing_zeros.induct)
  case (1 n)
  show ?case
  proof (cases "odd n")
    case True
    then show ?thesis
      by (cases k) (auto simp: count_trailing_zeros.simps [of n] elim: dvd_mult_left)
  next
    case False
    then obtain m where m: "n = 2 * m" by (auto elim: evenE)
    with "1.prems" have "0 < m" by simp
    have "count_trailing_zeros n = Suc (count_trailing_zeros m)"
      using False m "1.prems" by (subst count_trailing_zeros.simps) simp
    with "1.IH" [of "k - 1"] False m "1.prems" \<open>0 < m\<close> show ?thesis
      by (cases k) simp_all
  qed
qed

lemma unat_trailing_zeros_pow2:
  "unat w = 2 ^ k \<Longrightarrow> trailing_zeros w = k"
  by (auto simp: trailing_zeros_def)

lemma trailing_zeros_less: "w \<noteq> 0 \<Longrightarrow> trailing_zeros w < 64"
proof -
  assume "w \<noteq> 0"
  then have pos: "0 < unat w" by (simp add: unat_gt_0)
  then have "2 ^ count_trailing_zeros (unat w) dvd unat w"
    by (simp add: count_trailing_zeros_dvd)
  then have "2 ^ count_trailing_zeros (unat w) \<le> unat w"
    using pos by (rule dvd_imp_le)
  also have "\<dots> < 2 ^ 64" by simp
  finally have "count_trailing_zeros (unat w) < 64"
    by (rule power_less_imp_less_exp [rotated]) simp
  then show ?thesis using \<open>w \<noteq> 0\<close> by (simp add: trailing_zeros_def)
qed

text \<open>The RFC 6962 split point on \<open>nat\<close>: the largest power of two below \<open>n\<close>.\<close>

definition split_nat :: "nat \<Rightarrow> nat" where
  "split_nat n = 2 ^ log2_floor (n - 1)"

lemma split_nat_bounds [split_simps]:
  assumes "2 \<le> n"
  shows "0 < split_nat n" and "split_nat n < n" and "n \<le> 2 * split_nat n"
  using log2_floor_bounds [of "n - 1"] assms by (auto simp: split_nat_def)

lemma split_nat_less [split_simps]: "\<not> n \<le> Suc 0 \<Longrightarrow> split_nat n < n"
  using split_nat_bounds(2) [of n] by simp

lemma split_nat_pos [split_simps]: "0 < split_nat n"
  by (simp add: split_nat_def)

lemma split_nat_rest [split_simps]: "\<not> n \<le> m \<Longrightarrow> n - split_nat n < n"
  using split_nat_pos [of n] by (intro diff_less) simp_all

lemma split_nat_not_ge [split_simps]: "\<not> n \<le> Suc 0 \<Longrightarrow> \<not> n \<le> split_nat n"
  using split_nat_bounds(2) [of n] by simp

lemma split_nat_eq: "0 < r \<Longrightarrow> r \<le> 2 ^ k \<Longrightarrow> split_nat (2 ^ k + r) = 2 ^ k"
  by (simp add: split_nat_def log2_floor_unique)

lemma split_nat_pow2 [simp]: "split_nat (2 ^ Suc k) = 2 ^ k"
  using split_nat_eq [of "2 ^ k" k] by (simp add: mult_2)

lemma split_nat_dvd: "n \<le> 2 ^ c \<Longrightarrow> 2 \<le> n \<Longrightarrow> 2 * split_nat n dvd 2 ^ c"
proof -
  assume n: "n \<le> 2 ^ c" "2 \<le> n"
  have "2 ^ log2_floor (n - 1) \<le> n - 1"
    using log2_floor_bounds [of "n - 1"] n by auto
  also have "\<dots> < 2 ^ c" using n by auto
  finally have "log2_floor (n - 1) < c" by (simp add: power_less_imp_less_exp)
  then have "Suc (log2_floor (n - 1)) \<le> c" by simp
  then have "2 ^ Suc (log2_floor (n - 1)) dvd (2 :: nat) ^ c" by (rule le_imp_power_dvd)
  then show ?thesis by (simp add: split_nat_def)
qed

end
