(* ===== verification/Merkle_Spec.thy ===== *)
theory Merkle_Spec
  imports Log_Prelude
begin

text \<open>
  The abstract specification: the RFC 6962 Merkle tree over a list of entry
  commitments, its audit paths and consistency proofs, and what a verifier
  recomputes from them. Nothing here is code of the service; the tree of
  \<open>src/tree.rs\<close> is proved to refine it (theory \<open>Tree\<close>).

  The leaf and node hash of the signatif crate are the parameters \<open>lh\<close> and \<open>nh\<close>.
  No injectivity is assumed of them, since 32-byte hashes collide: soundness
  is stated by exhibiting a collision among the inputs that the honest tree and the
  verifier actually hashed.
\<close>

section \<open>Tree hash, audit path, consistency proof\<close>

text \<open>The proof nodes of the signatif crate, with the two sides.\<close>

datatype side = Left | Right

record 'h proof_node =
  sibling :: 'h
  side :: side

text \<open>\<open>MTH(D[n])\<close> for a non-empty list; the tree hash of no entry is not used.\<close>

function mth :: "('h \<Rightarrow> 'h) \<Rightarrow> ('h \<Rightarrow> 'h \<Rightarrow> 'h) \<Rightarrow> 'h list \<Rightarrow> 'h" where
  "mth lh nh es =
     (if length es \<le> 1 then lh (hd es)
      else nh (mth lh nh (take (split_nat (length es)) es))
              (mth lh nh (drop (split_nat (length es)) es)))"
  by pat_completeness auto
termination
  by (relation "measure (\<lambda>(lh, nh, es). length es)") (auto simp: split_simps min_def)

declare mth.simps [simp del]

definition mth_root :: "('h \<Rightarrow> 'h) \<Rightarrow> ('h \<Rightarrow> 'h \<Rightarrow> 'h) \<Rightarrow> 'h list \<Rightarrow> 'h option" where
  "mth_root lh nh es = (if es = [] then None else Some (mth lh nh es))"

text \<open>\<open>PATH(m, D[n])\<close>, siblings from the leaf up.\<close>

function audit_path ::
  "('h \<Rightarrow> 'h) \<Rightarrow> ('h \<Rightarrow> 'h \<Rightarrow> 'h) \<Rightarrow> nat \<Rightarrow> 'h list \<Rightarrow> 'h proof_node list" where
  "audit_path lh nh m es =
     (if length es \<le> 1 then []
      else let k = split_nat (length es) in
        if m < k
        then audit_path lh nh m (take k es) @ [\<lparr>sibling = mth lh nh (drop k es), side = Right\<rparr>]
        else audit_path lh nh (m - k) (drop k es)
               @ [\<lparr>sibling = mth lh nh (take k es), side = Left\<rparr>])"
  by pat_completeness auto
termination
  by (relation "measure (\<lambda>(lh, nh, m, es). length es)") (auto simp: split_simps min_def)

declare audit_path.simps [simp del]

text \<open>\<open>SUBPROOF(m, D[n], b)\<close>, deepest node first, and \<open>PROOF(m, D[n])\<close>.\<close>

function subproof ::
  "('h \<Rightarrow> 'h) \<Rightarrow> ('h \<Rightarrow> 'h \<Rightarrow> 'h) \<Rightarrow> nat \<Rightarrow> 'h list \<Rightarrow> bool \<Rightarrow> 'h list" where
  "subproof lh nh m es b =
     (if length es \<le> m then (if b then [] else [mth lh nh es])
      else if length es \<le> 1 then []
      else let k = split_nat (length es) in
        if m \<le> k then subproof lh nh m (take k es) b @ [mth lh nh (drop k es)]
        else subproof lh nh (m - k) (drop k es) False @ [mth lh nh (take k es)])"
  by pat_completeness auto
termination
  by (relation "measure (\<lambda>(lh, nh, m, es, b). length es)") (auto simp: split_simps min_def)

declare subproof.simps [simp del]

definition consistency_proof ::
  "('h \<Rightarrow> 'h) \<Rightarrow> ('h \<Rightarrow> 'h \<Rightarrow> 'h) \<Rightarrow> nat \<Rightarrow> 'h list \<Rightarrow> 'h list" where
  "consistency_proof lh nh m es = (if m = 0 then [] else subproof lh nh m es True)"

lemma mth_single [simp]: "mth lh nh [e] = lh e"
  by (simp add: mth.simps)

lemma mth_split:
  "2 \<le> length es \<Longrightarrow>
     mth lh nh es = nh (mth lh nh (take (split_nat (length es)) es))
                       (mth lh nh (drop (split_nat (length es)) es))"
  by (subst mth.simps) simp

lemma mth_append:
  assumes "length es = 2 ^ k" and "es' \<noteq> []" and "length es' \<le> 2 ^ k"
  shows "mth lh nh (es @ es') = nh (mth lh nh es) (mth lh nh es')"
proof -
  have "split_nat (length (es @ es')) = 2 ^ k"
    using assms by (simp add: split_nat_eq)
  moreover have "2 \<le> length (es @ es')"
    using assms by (cases es'; cases es) auto
  ultimately show ?thesis
    using assms(1) by (subst mth_split) simp_all
qed

section \<open>What a verifier recomputes\<close>

text \<open>
  From a leaf hash and its siblings, the root: the fold that the inclusion check
  of the README performs (\<open>the inclusion proof must reconstruct the head's root\<close>).
\<close>

definition combine :: "('h \<Rightarrow> 'h \<Rightarrow> 'h) \<Rightarrow> 'h \<Rightarrow> 'h proof_node \<Rightarrow> 'h" where
  "combine nh acc n =
     (case side n of Left \<Rightarrow> nh (sibling n) acc | Right \<Rightarrow> nh acc (sibling n))"

definition root_from_path :: "('h \<Rightarrow> 'h \<Rightarrow> 'h) \<Rightarrow> 'h \<Rightarrow> 'h proof_node list \<Rightarrow> 'h" where
  "root_from_path nh = foldl (combine nh)"

text \<open>The sides that a path for leaf \<open>m\<close> of a tree of size \<open>n\<close> must have.\<close>

function path_sides :: "nat \<Rightarrow> nat \<Rightarrow> side list" where
  "path_sides m n =
     (if n \<le> 1 then []
      else let k = split_nat n in
        if m < k then path_sides m k @ [Right] else path_sides (m - k) (n - k) @ [Left])"
  by pat_completeness auto
termination
  by (relation "measure (\<lambda>(m, n). n)") (auto simp: split_simps)

declare path_sides.simps [simp del]

definition accepts_inclusion ::
  "('h \<Rightarrow> 'h) \<Rightarrow> ('h \<Rightarrow> 'h \<Rightarrow> 'h) \<Rightarrow> 'h \<Rightarrow> nat \<Rightarrow> nat \<Rightarrow> 'h proof_node list \<Rightarrow> 'h \<Rightarrow> bool" where
  "accepts_inclusion lh nh c m n path root \<longleftrightarrow>
     m < n \<and> map side path = path_sides m n \<and> root_from_path nh (lh c) path = root"

text \<open>
  From a consistency proof, the old and the new root. The pinned old root seeds the
  left spine (\<open>b\<close>), as in RFC 6962 where the old tree is itself a complete subtree.
\<close>

function proof_roots ::
  "('h \<Rightarrow> 'h \<Rightarrow> 'h) \<Rightarrow> nat \<Rightarrow> nat \<Rightarrow> bool \<Rightarrow> 'h \<Rightarrow> 'h list \<Rightarrow> ('h \<times> 'h) option" where
  "proof_roots nh m n b old path =
     (if n \<le> m then
        (if b then (if path = [] then Some (old, old) else None)
         else (case path of [h] \<Rightarrow> Some (h, h) | _ \<Rightarrow> None))
      else if n \<le> 1 \<or> path = [] then None
      else let k = split_nat n; h = last path in
        if m \<le> k
        then map_option (\<lambda>(o', n'). (o', nh n' h)) (proof_roots nh m k b old (butlast path))
        else map_option (\<lambda>(o', n'). (nh h o', nh h n'))
               (proof_roots nh (m - k) (n - k) False old (butlast path)))"
  by pat_completeness auto
termination
  by (relation "measure (\<lambda>(nh, m, n, b, old, path). n)") (auto simp: split_simps)

declare proof_roots.simps [simp del]

definition accepts_consistency ::
  "('h \<Rightarrow> 'h \<Rightarrow> 'h) \<Rightarrow> nat \<Rightarrow> 'h \<Rightarrow> nat \<Rightarrow> 'h \<Rightarrow> 'h list \<Rightarrow> bool" where
  "accepts_consistency nh m old n new path \<longleftrightarrow>
     (if m = 0 then path = []
      else m \<le> n \<and> proof_roots nh m n True old path = Some (old, new))"

section \<open>Completeness: honest proofs are accepted\<close>

lemma root_from_path_snoc [simp]:
  "root_from_path nh h (path @ [n]) = combine nh (root_from_path nh h path) n"
  by (simp add: root_from_path_def)

lemma root_from_path_Nil [simp]: "root_from_path nh h [] = h"
  by (simp add: root_from_path_def)

lemma root_from_audit_path:
  "m < length es \<Longrightarrow> root_from_path nh (lh (es ! m)) (audit_path lh nh m es) = mth lh nh es"
proof (induction lh nh m es rule: audit_path.induct)
  case (1 lh nh m es)
  show ?case
  proof (cases "length es \<le> 1")
    case True
    with "1.prems" show ?thesis by (cases es) (auto simp: audit_path.simps)
  next
    case False
    then show ?thesis
      using "1.IH" "1.prems" split_nat_bounds [of "length es"]
      by (subst audit_path.simps, subst mth_split) (auto simp: combine_def Let_def)
  qed
qed

lemma audit_path_sides: "m < length es \<Longrightarrow> map side (audit_path lh nh m es) = path_sides m (length es)"
proof (induction lh nh m es rule: audit_path.induct)
  case (1 lh nh m es)
  show ?case
  proof (cases "length es \<le> 1")
    case True
    then show ?thesis by (simp add: audit_path.simps path_sides.simps)
  next
    case False
    then show ?thesis
      using "1.IH" "1.prems" split_nat_bounds [of "length es"]
      by (subst audit_path.simps, subst path_sides.simps) (auto simp: Let_def min_def)
  qed
qed

lemma audit_path_accepted:
  "m < length es \<Longrightarrow>
     accepts_inclusion lh nh (es ! m) m (length es) (audit_path lh nh m es) (mth lh nh es)"
  by (simp add: accepts_inclusion_def root_from_audit_path audit_path_sides)

lemma split_nat_between:
  assumes "2 \<le> n" and "split_nat n < m" and "m \<le> n"
  shows "split_nat m = split_nat n"
proof -
  define j where "j = log2_floor (n - 1)"
  have s: "split_nat n = 2 ^ j" by (simp add: split_nat_def j_def)
  have "split_nat (2 ^ j + (m - 2 ^ j)) = 2 ^ j"
    using assms split_nat_bounds(3) [OF assms(1)] s by (intro split_nat_eq) auto
  with assms s show ?thesis by simp
qed

lemma subproof_roots:
  assumes "0 < m" and "m \<le> length es" and "b \<longrightarrow> old = mth lh nh (take m es)"
  shows "proof_roots nh m (length es) b old (subproof lh nh m es b)
           = Some (mth lh nh (take m es), mth lh nh es)"
  using assms
proof (induction lh nh m es b rule: subproof.induct)
  case (1 lh nh m es b)
  show ?case
  proof (cases "m = length es")
    case True
    with "1.prems" show ?thesis by (simp add: subproof.simps proof_roots.simps)
  next
    case False
    with "1.prems" have len: "m < length es" "2 \<le> length es" by auto
    note k = split_nat_bounds [OF len(2)]
    define j where "j = split_nat (length es)"
    show ?thesis
    proof (cases "m \<le> j")
      case True
      with "1.IH"(1) "1.prems" len k have
        "proof_roots nh m j b old (subproof lh nh m (take j es) b)
           = Some (mth lh nh (take m es), mth lh nh (take j es))"
        by (simp add: j_def min_def)
      with True len show ?thesis
        by (subst subproof.simps, subst proof_roots.simps)
          (simp add: Let_def j_def [symmetric] mth_split)
    next
      case False
      with "1.IH"(2) "1.prems" len k have IH:
        "proof_roots nh (m - j) (length es - j) False old (subproof lh nh (m - j) (drop j es) False)
           = Some (mth lh nh (take (m - j) (drop j es)), mth lh nh (drop j es))"
        by (simp add: j_def)
      have "split_nat m = j"
        using split_nat_between [OF len(2), of m] False len by (simp add: j_def)
      moreover have "2 \<le> m" using False k(1) unfolding j_def by linarith
      ultimately have "mth lh nh (take m es) = nh (mth lh nh (take j es)) (mth lh nh (take (m - j) (drop j es)))"
        using mth_split [of "take m es"] len False by (simp add: min_def take_drop)
      with IH False len show ?thesis
        by (subst subproof.simps, subst proof_roots.simps)
          (simp add: Let_def j_def [symmetric] mth_split)
    qed
  qed
qed

lemma consistency_proof_accepted:
  "m \<le> length es \<Longrightarrow>
     accepts_consistency nh m (mth lh nh (take m es)) (length es) (mth lh nh es)
       (consistency_proof lh nh m es)"
  by (simp add: accepts_consistency_def consistency_proof_def subproof_roots)

section \<open>Soundness: an accepted lie is a hash collision\<close>

text \<open>
  The inputs that computing a tree hash, an inclusion check and a consistency check
  feed to the two hash functions, and a collision among a list of inputs.
\<close>

datatype 'h hash_input = Leaf_In 'h | Node_In 'h 'h

primrec hash_of :: "('h \<Rightarrow> 'h) \<Rightarrow> ('h \<Rightarrow> 'h \<Rightarrow> 'h) \<Rightarrow> 'h hash_input \<Rightarrow> 'h" where
  "hash_of lh nh (Leaf_In e) = lh e"
| "hash_of lh nh (Node_In a b) = nh a b"

definition collides :: "('h \<Rightarrow> 'h) \<Rightarrow> ('h \<Rightarrow> 'h \<Rightarrow> 'h) \<Rightarrow> 'h hash_input list \<Rightarrow> bool" where
  "collides lh nh ps = list_ex (\<lambda>p. list_ex (\<lambda>q. p \<noteq> q \<and> hash_of lh nh p = hash_of lh nh q) ps) ps"

function mth_inputs :: "('h \<Rightarrow> 'h) \<Rightarrow> ('h \<Rightarrow> 'h \<Rightarrow> 'h) \<Rightarrow> 'h list \<Rightarrow> 'h hash_input list" where
  "mth_inputs lh nh es =
     (if length es \<le> 1 then [Leaf_In (hd es)]
      else let l = take (split_nat (length es)) es; r = drop (split_nat (length es)) es in
        mth_inputs lh nh l @ mth_inputs lh nh r @ [Node_In (mth lh nh l) (mth lh nh r)])"
  by pat_completeness auto
termination
  by (relation "measure (\<lambda>(lh, nh, es). length es)") (auto simp: split_simps min_def)

declare mth_inputs.simps [simp del]

definition node_input :: "'h \<Rightarrow> 'h proof_node \<Rightarrow> 'h hash_input" where
  "node_input acc n =
     (case side n of Left \<Rightarrow> Node_In (sibling n) acc | Right \<Rightarrow> Node_In acc (sibling n))"

primrec path_inputs :: "('h \<Rightarrow> 'h \<Rightarrow> 'h) \<Rightarrow> 'h \<Rightarrow> 'h proof_node list \<Rightarrow> 'h hash_input list" where
  "path_inputs nh acc [] = []"
| "path_inputs nh acc (n # ns) = node_input acc n # path_inputs nh (combine nh acc n) ns"

definition inclusion_inputs ::
  "('h \<Rightarrow> 'h) \<Rightarrow> ('h \<Rightarrow> 'h \<Rightarrow> 'h) \<Rightarrow> 'h \<Rightarrow> 'h proof_node list \<Rightarrow> 'h hash_input list" where
  "inclusion_inputs lh nh c path = Leaf_In c # path_inputs nh (lh c) path"

lemma collides_iff:
  "collides lh nh ps \<longleftrightarrow>
     (\<exists>p\<in>set ps. \<exists>q\<in>set ps. p \<noteq> q \<and> hash_of lh nh p = hash_of lh nh q)"
  by (simp add: collides_def list_ex_iff)

lemma collidesI:
  "p \<in> set ps \<Longrightarrow> q \<in> set ps \<Longrightarrow> p \<noteq> q \<Longrightarrow> hash_of lh nh p = hash_of lh nh q \<Longrightarrow> collides lh nh ps"
  by (auto simp: collides_iff)

lemma collides_mono: "collides lh nh ps \<Longrightarrow> set ps \<subseteq> set qs \<Longrightarrow> collides lh nh qs"
  unfolding collides_iff by blast

lemma hash_of_node_input [simp]: "hash_of lh nh (node_input acc n) = combine nh acc n"
  by (simp add: node_input_def combine_def split: side.split)

lemma path_inputs_snoc [simp]:
  "path_inputs nh acc (p @ [n]) = path_inputs nh acc p @ [node_input (root_from_path nh acc p) n]"
  by (induction p arbitrary: acc) (simp_all add: root_from_path_def)

lemma leaf_input_mem: "length es \<le> 1 \<Longrightarrow> Leaf_In (hd es) \<in> set (mth_inputs lh nh es)"
  by (simp add: mth_inputs.simps)

lemma mth_inputs_parts:
  assumes "2 \<le> length es"
  shows "set (mth_inputs lh nh (take (split_nat (length es)) es)) \<subseteq> set (mth_inputs lh nh es)"
    and "set (mth_inputs lh nh (drop (split_nat (length es)) es)) \<subseteq> set (mth_inputs lh nh es)"
    and "Node_In (mth lh nh (take (split_nat (length es)) es))
           (mth lh nh (drop (split_nat (length es)) es)) \<in> set (mth_inputs lh nh es)"
  using assms by (auto simp: mth_inputs.simps [of lh nh es] Let_def)

lemma mth_inj:
  "es \<noteq> [] \<Longrightarrow> length es = length fs \<Longrightarrow> mth lh nh es = mth lh nh fs \<Longrightarrow>
     es = fs \<or> collides lh nh (mth_inputs lh nh es @ mth_inputs lh nh fs)"
proof (induction lh nh es arbitrary: fs rule: mth.induct)
  case (1 lh nh es)
  let ?ps = "mth_inputs lh nh es @ mth_inputs lh nh fs"
  show ?case
  proof (cases "length es \<le> 1")
    case True
    then obtain e f where "es = [e]" "fs = [f]"
      using "1.prems" by (cases es; cases fs) auto
    with "1.prems"(3) show ?thesis
      using collidesI [of "Leaf_In e" ?ps "Leaf_In f" lh nh] by (auto simp: mth_inputs.simps)
  next
    case False
    then have len: "2 \<le> length es" "2 \<le> length fs" using "1.prems"(2) by auto
    let ?k = "split_nat (length es)"
    let ?x = "Node_In (mth lh nh (take ?k es)) (mth lh nh (drop ?k es))"
    let ?y = "Node_In (mth lh nh (take ?k fs)) (mth lh nh (drop ?k fs))"
    note k = split_nat_bounds [OF len(1)]
    note px = mth_inputs_parts [OF len(1), of lh nh]
    note py = mth_inputs_parts [OF len(2), of lh nh, folded "1.prems"(2)]
    show ?thesis
    proof (cases "?x = ?y")
      case False
      have "hash_of lh nh ?x = hash_of lh nh ?y"
        using "1.prems"(2,3) mth_split [OF len(1), of lh nh] mth_split [OF len(2), of lh nh] by simp
      then have "collides lh nh ?ps"
        using False px(3) py(3) by (intro collidesI [of ?x _ ?y]) auto
      then show ?thesis ..
    next
      case True
      have "take ?k es = take ?k fs \<or>
          collides lh nh (mth_inputs lh nh (take ?k es) @ mth_inputs lh nh (take ?k fs))"
        using "1.IH"(1) [of "take ?k fs"] False True k "1.prems"(1,2) by auto
      moreover have "drop ?k es = drop ?k fs \<or>
          collides lh nh (mth_inputs lh nh (drop ?k es) @ mth_inputs lh nh (drop ?k fs))"
        using "1.IH"(2) [of "drop ?k fs"] False True k "1.prems"(1,2) by auto
      moreover have "set (mth_inputs lh nh (take ?k es) @ mth_inputs lh nh (take ?k fs)) \<subseteq> set ?ps"
        and "set (mth_inputs lh nh (drop ?k es) @ mth_inputs lh nh (drop ?k fs)) \<subseteq> set ?ps"
        using px(1,2) py(1,2) by auto
      ultimately show ?thesis
        by (metis append_take_drop_id collides_mono)
    qed
  qed
qed

lemma inclusion_top:
  assumes len: "2 \<le> length es" and root: "root_from_path nh (lh c) (p @ [n]) = mth lh nh es"
    and ps: "ps = mth_inputs lh nh es @ inclusion_inputs lh nh c (p @ [n])"
  shows "Node_In (mth lh nh (take (split_nat (length es)) es)) (mth lh nh (drop (split_nat (length es)) es))
      = node_input (root_from_path nh (lh c) p) n \<or> collides lh nh ps"
proof -
  let ?x = "Node_In (mth lh nh (take (split_nat (length es)) es)) (mth lh nh (drop (split_nat (length es)) es))"
  let ?y = "node_input (root_from_path nh (lh c) p) n"
  have "hash_of lh nh ?x = hash_of lh nh ?y"
    using root mth_split [OF len, of lh nh] by simp
  moreover have "?x \<in> set ps" "?y \<in> set ps"
    using mth_inputs_parts(3) [OF len, of lh nh] by (auto simp: ps inclusion_inputs_def)
  ultimately show ?thesis using collidesI [of ?x ps ?y lh nh] by blast
qed

lemma inclusion_sound:
  "m < length es \<Longrightarrow> map side path = path_sides m (length es) \<Longrightarrow>
   root_from_path nh (lh c) path = mth lh nh es \<Longrightarrow>
     c = es ! m \<or> collides lh nh (mth_inputs lh nh es @ inclusion_inputs lh nh c path)"
proof (induction lh nh es arbitrary: m path rule: mth.induct)
  case (1 lh nh es)
  let ?ps = "mth_inputs lh nh es @ inclusion_inputs lh nh c path"
  show ?case
  proof (cases "length es \<le> 1")
    case True
    then obtain e where e: "es = [e]" "m = 0" using "1.prems"(1) by (cases es) auto
    then have "path = []" using "1.prems"(2) by (simp add: path_sides.simps)
    with e "1.prems"(3) show ?thesis
      using collidesI [of "Leaf_In e" ?ps "Leaf_In c" lh nh]
      by (auto simp: mth_inputs.simps inclusion_inputs_def)
  next
    case False
    then have len: "2 \<le> length es" by simp
    let ?k = "split_nat (length es)"
    note k = split_nat_bounds [OF len]
    note px = mth_inputs_parts [OF len, of lh nh]
    from "1.prems"(2) len obtain p n where p: "path = p @ [n]"
      by (cases path rule: rev_cases) (auto simp: path_sides.simps [of m] Let_def split: if_splits)
    have sub: "set (inclusion_inputs lh nh c p) \<subseteq> set ?ps" by (auto simp: p inclusion_inputs_def)
    from inclusion_top [OF len "1.prems"(3) [unfolded p] refl] consider "collides lh nh ?ps"
      | (eq) "Node_In (mth lh nh (take ?k es)) (mth lh nh (drop ?k es)) = node_input (root_from_path nh (lh c) p) n"
      unfolding p by blast
    then show ?thesis
    proof cases
      case eq
      show ?thesis
      proof (cases "m < ?k")
        case True
        then have "side n = Right" "map side p = path_sides m ?k"
          using "1.prems"(2) len by (auto simp: p path_sides.simps [of m "length es"] Let_def)
        with eq "1.IH"(1) [of m p] False True k have
          "c = take ?k es ! m \<or> collides lh nh (mth_inputs lh nh (take ?k es) @ inclusion_inputs lh nh c p)"
          by (auto simp: node_input_def)
        moreover have "set (mth_inputs lh nh (take ?k es) @ inclusion_inputs lh nh c p) \<subseteq> set ?ps"
          using sub px(1) by auto
        ultimately show ?thesis using True collides_mono by fastforce
      next
        case mk: False
        then have "side n = Left" "map side p = path_sides (m - ?k) (length es - ?k)"
          using "1.prems"(2) len by (auto simp: p path_sides.simps [of m "length es"] Let_def)
        with eq "1.IH"(2) [of "m - ?k" p] False mk k "1.prems"(1) have
          "c = drop ?k es ! (m - ?k) \<or>
           collides lh nh (mth_inputs lh nh (drop ?k es) @ inclusion_inputs lh nh c p)"
          by (auto simp: node_input_def)
        moreover have "set (mth_inputs lh nh (drop ?k es) @ inclusion_inputs lh nh c p) \<subseteq> set ?ps"
          using sub px(2) by auto
        ultimately show ?thesis using mk "1.prems"(1) collides_mono by fastforce
      qed
    qed blast
  qed
qed

text \<open>The node inputs that a consistency check hashes.\<close>

function proof_inputs ::
  "('h \<Rightarrow> 'h \<Rightarrow> 'h) \<Rightarrow> nat \<Rightarrow> nat \<Rightarrow> bool \<Rightarrow> 'h \<Rightarrow> 'h list \<Rightarrow> 'h hash_input list" where
  "proof_inputs nh m n b old path =
     (if n \<le> m \<or> n \<le> 1 \<or> path = [] then []
      else let k = split_nat n; h = last path in
        if m \<le> k
        then (case proof_roots nh m k b old (butlast path) of
                None \<Rightarrow> []
              | Some (o', n') \<Rightarrow> proof_inputs nh m k b old (butlast path) @ [Node_In n' h])
        else (case proof_roots nh (m - k) (n - k) False old (butlast path) of
                None \<Rightarrow> []
              | Some (o', n') \<Rightarrow> proof_inputs nh (m - k) (n - k) False old (butlast path)
                                   @ [Node_In h o', Node_In h n']))"
  by pat_completeness auto
termination
  by (relation "measure (\<lambda>(nh, m, n, b, old, path). n)") (auto simp: split_simps)

declare proof_inputs.simps [simp del]

lemma split_node_eq:
  assumes "2 \<le> length es" and "nh a b = mth lh nh es"
    and "Node_In a b \<in> set ps" and "set (mth_inputs lh nh es) \<subseteq> set ps"
  shows "collides lh nh ps \<or>
    a = mth lh nh (take (split_nat (length es)) es) \<and> b = mth lh nh (drop (split_nat (length es)) es)"
proof -
  let ?x = "Node_In (mth lh nh (take (split_nat (length es)) es))
              (mth lh nh (drop (split_nat (length es)) es))"
  have "hash_of lh nh ?x = hash_of lh nh (Node_In a b)"
    using assms(2) mth_split [OF assms(1), of lh nh] by simp
  moreover have "?x \<in> set ps" using mth_inputs_parts(3) [OF assms(1)] assms(4) by blast
  ultimately show ?thesis
    using assms(3) collidesI [of ?x ps "Node_In a b" lh nh] by auto
qed

text \<open>One step down: into the left half of the newer log, or into the right halves of both.\<close>

lemma proof_roots_left:
  assumes len: "2 \<le> length es" and lt: "length ds < length es" and mk: "length ds \<le> split_nat (length es)"
    and ps: "ps = mth_inputs lh nh ds @ mth_inputs lh nh es @ proof_inputs nh (length ds) (length es) b old path"
    and l: "l = take (split_nat (length es)) es"
    and eq: "proof_roots nh (length ds) (length es) b old path = Some (mth lh nh ds, mth lh nh es)"
    and IH: "\<And>p. proof_roots nh (length ds) (length l) b old p = Some (mth lh nh ds, mth lh nh l) \<Longrightarrow>
      ds = take (length ds) l \<or>
      collides lh nh (mth_inputs lh nh ds @ mth_inputs lh nh l @ proof_inputs nh (length ds) (length l) b old p)"
  shows "ds = take (length ds) es \<or> collides lh nh ps"
proof -
  let ?m = "length ds" and ?n = "length es" and ?k = "split_nat (length es)"
  note k = split_nat_bounds [OF len]
  have ne: "path \<noteq> []" using eq lt len by (auto simp: proof_roots.simps)
  let ?h = "last path" and ?p = "butlast path"
  from eq lt len ne mk obtain n' where
    rec: "proof_roots nh ?m ?k b old ?p = Some (mth lh nh ds, n')" and top: "nh n' ?h = mth lh nh es"
    by (subst (asm) proof_roots.simps) (auto simp: Let_def)
  have inp: "set (proof_inputs nh ?m ?k b old ?p) \<subseteq> set ps" "Node_In n' ?h \<in> set ps"
    using lt len ne mk rec by (auto simp: ps proof_inputs.simps [of nh ?m ?n] Let_def)
  have sub: "set (mth_inputs lh nh es) \<subseteq> set ps" "set (mth_inputs lh nh ds) \<subseteq> set ps" by (auto simp: ps)
  from split_node_eq [OF len top inp(2) sub(1)] l consider "collides lh nh ps" | "n' = mth lh nh l" by blast
  then show ?thesis
  proof cases
    case 2
    have ll: "length l = ?k" using k by (simp add: l)
    have "set (mth_inputs lh nh ds @ mth_inputs lh nh l @ proof_inputs nh ?m (length l) b old ?p) \<subseteq> set ps"
      using sub mth_inputs_parts(1) [OF len, of lh nh] inp(1) ll by (auto simp: l)
    moreover have "take ?m l = take ?m es" using mk by (simp add: l min_def)
    ultimately show ?thesis using IH [of ?p] rec 2 ll collides_mono by metis
  qed blast
qed

lemma proof_roots_right:
  assumes len: "2 \<le> length es" and lt: "length ds < length es" and mk: "split_nat (length es) < length ds"
    and ps: "ps = mth_inputs lh nh ds @ mth_inputs lh nh es @ proof_inputs nh (length ds) (length es) b old path"
    and r: "r = drop (split_nat (length es)) es" "dr = drop (split_nat (length es)) ds"
    and eq: "proof_roots nh (length ds) (length es) b old path = Some (mth lh nh ds, mth lh nh es)"
    and IH: "\<And>p. proof_roots nh (length dr) (length r) False old p = Some (mth lh nh dr, mth lh nh r) \<Longrightarrow>
      dr = take (length dr) r \<or>
      collides lh nh (mth_inputs lh nh dr @ mth_inputs lh nh r @ proof_inputs nh (length dr) (length r) False old p)"
  shows "ds = take (length ds) es \<or> collides lh nh ps"
proof -
  let ?m = "length ds" and ?n = "length es" and ?k = "split_nat (length es)"
  let ?l = "take ?k es" and ?dl = "take ?k ds"
  note k = split_nat_bounds [OF len]
  have ne: "path \<noteq> []" using eq lt len by (auto simp: proof_roots.simps)
  let ?h = "last path" and ?p = "butlast path"
  have sm: "split_nat ?m = ?k" using mk lt by (intro split_nat_between [OF len]) linarith+
  have m2: "2 \<le> ?m" using mk k(1) by linarith
  have lr: "length dr = ?m - ?k" "length r = ?n - ?k" by (simp_all add: r)
  from eq lt len ne mk obtain o' n' where
    rec: "proof_roots nh (?m - ?k) (?n - ?k) False old ?p = Some (o', n')"
    and top: "nh ?h n' = mth lh nh es" "nh ?h o' = mth lh nh ds"
    by (subst (asm) proof_roots.simps) (auto simp: Let_def)
  have inp: "set (proof_inputs nh (?m - ?k) (?n - ?k) False old ?p) \<subseteq> set ps"
      "Node_In ?h n' \<in> set ps" "Node_In ?h o' \<in> set ps"
    using lt len ne mk rec by (auto simp: ps proof_inputs.simps [of nh ?m ?n] Let_def)
  have sub: "set (mth_inputs lh nh es) \<subseteq> set ps" "set (mth_inputs lh nh ds) \<subseteq> set ps" by (auto simp: ps)
  from split_node_eq [OF len top(1) inp(2) sub(1)] split_node_eq [OF m2 top(2) inp(3) sub(2)]
  consider "collides lh nh ps" | "n' = mth lh nh r" "o' = mth lh nh dr" "mth lh nh ?dl = mth lh nh ?l"
    unfolding sm r by auto
  then show ?thesis
  proof cases
    case 2
    note parts = mth_inputs_parts [OF len, of lh nh] mth_inputs_parts [OF m2, of lh nh, unfolded sm]
    have "?dl = ?l \<or> collides lh nh (mth_inputs lh nh ?dl @ mth_inputs lh nh ?l)"
      using mth_inj [OF _ _ 2(3)] mk lt k(1) by (cases ds) auto
    moreover have "set (mth_inputs lh nh ?dl @ mth_inputs lh nh ?l) \<subseteq> set ps" using sub parts by auto
    ultimately have left: "?dl = ?l \<or> collides lh nh ps" using collides_mono by blast
    have "set (mth_inputs lh nh dr @ mth_inputs lh nh r @ proof_inputs nh (length dr) (length r) False old ?p)
        \<subseteq> set ps"
      using sub parts inp(1) unfolding lr by (auto simp: r)
    with IH [of ?p] rec 2 lr have "dr = take (?m - ?k) r \<or> collides lh nh ps" using collides_mono by metis
    moreover have "ds = take ?m es" if "?dl = ?l" "dr = take (?m - ?k) r"
    proof -
      have "ds = ?dl @ dr" by (simp add: r)
      also have "\<dots> = ?l @ take (?m - ?k) r" using that by (simp only:)
      also have "\<dots> = take ?m es" using mk take_add [of ?k "?m - ?k" es] by (simp add: r)
      finally show ?thesis .
    qed
    ultimately show ?thesis using left by blast
  qed blast
qed

lemma proof_roots_sound:
  "ds \<noteq> [] \<Longrightarrow> length ds \<le> length es \<Longrightarrow> b \<longrightarrow> old = mth lh nh ds \<Longrightarrow>
   proof_roots nh (length ds) (length es) b old path = Some (mth lh nh ds, mth lh nh es) \<Longrightarrow>
     ds = take (length ds) es \<or>
     collides lh nh (mth_inputs lh nh ds @ mth_inputs lh nh es
                       @ proof_inputs nh (length ds) (length es) b old path)"
proof (induction lh nh es arbitrary: ds b path rule: mth.induct)
  case (1 lh nh es)
  let ?m = "length ds" and ?n = "length es" and ?k = "split_nat (length es)"
  note prems = "1.prems"
  show ?case
  proof (cases "?m = ?n")
    case True
    then have "mth lh nh ds = mth lh nh es"
      using prems(3,4) by (auto simp: proof_roots.simps split: if_splits list.splits)
    then have "ds = es \<or> collides lh nh (mth_inputs lh nh ds @ mth_inputs lh nh es)"
      using mth_inj [OF prems(1) True] by blast
    then show ?thesis
      using True collides_mono [of lh nh _ "mth_inputs lh nh ds @ mth_inputs lh nh es
        @ proof_inputs nh ?m ?n b old path"] by force
  next
    case False
    then have lt: "?m < ?n" and len: "2 \<le> ?n" using prems(1,2) by (cases ds; auto)+
    note k = split_nat_bounds [OF len]
    show ?thesis
    proof (cases "?m \<le> ?k")
      case True
      show ?thesis
        by (rule proof_roots_left [OF len lt True refl refl prems(4)], rule "1.IH"(1))
          (use len True k prems(1,3) in auto)
    next
      case mk: False
      show ?thesis
        by (rule proof_roots_right [OF len lt _ refl refl refl prems(4)], use mk in simp, rule "1.IH"(2))
          (use len mk lt in auto)
    qed
  qed
qed

theorem consistency_sound:
  assumes "ds \<noteq> []"
    and "accepts_consistency nh (length ds) (mth lh nh ds) (length es) (mth lh nh es) path"
  shows "ds = take (length ds) es \<or>
     collides lh nh (mth_inputs lh nh ds @ mth_inputs lh nh es
       @ proof_inputs nh (length ds) (length es) True (mth lh nh ds) path)"
  using assms by (intro proof_roots_sound) (auto simp: accepts_consistency_def split: if_splits)

end
