(* ===== verification/Tree.thy ===== *)
theory Tree
  imports Merkle_Spec
begin

text \<open>
  \<open>src/tree.rs\<close>: the append-only Merkle tree with cached complete-subtree levels.
  The definitions follow the source function by function, on 64-bit sizes and with
  every index, subtraction and \<open>debug_assert!\<close> as a possible panic (\<open>None\<close>). The
  invariant \<open>tree_inv\<close> says that level \<open>k\<close> holds the hashes of the complete
  subtrees of size \<open>2 ^ k\<close>; under it no operation panics and each one computes what
  theory \<open>Merkle_Spec\<close> specifies, for every historical prefix.
\<close>

section \<open>The structure and its operations\<close>

record 'h merkle_tree =
  levels :: "'h list list"
  tsize :: u64

definition split :: "u64 \<Rightarrow> u64 checked" where
  "split n = (if n < 2 then None
     else do { k \<leftarrow> ilog2 (n - 1); Some (push_bit k 1) })"

definition new_tree :: "'h merkle_tree" where
  "new_tree = \<lparr>levels = [[]], tsize = 0\<rparr>"

text \<open>\<open>#[derive(Default)]\<close>: no level at all, unlike \<open>new\<close>.\<close>

definition default_tree :: "'h merkle_tree" where
  "default_tree = \<lparr>levels = [], tsize = 0\<rparr>"

text \<open>The \<open>for k in 0..completed\<close> loop of \<open>append\<close>.\<close>

primrec fold_completed ::
  "('h \<Rightarrow> 'h \<Rightarrow> 'h) \<Rightarrow> nat list \<Rightarrow> 'h list list \<Rightarrow> 'h list list checked" where
  "fold_completed nh [] lv = Some lv"
| "fold_completed nh (k # ks) lv = do {
     lvl \<leftarrow> vec_get lv k;
     i \<leftarrow> usize_sub (length lvl) 2;
     j \<leftarrow> usize_sub (length lvl) 1;
     a \<leftarrow> vec_get lvl i;
     b \<leftarrow> vec_get lvl j;
     lv' \<leftarrow> vec_push_at lv (k + 1) (nh a b);
     fold_completed nh ks lv' }"

text \<open>\<open>resize_with(n, Vec::new)\<close>, called only to grow.\<close>

definition resize_levels :: "nat \<Rightarrow> 'h list list \<Rightarrow> 'h list list" where
  "resize_levels n lv = (if length lv < n then lv @ replicate (n - length lv) [] else take n lv)"

definition append_tree ::
  "('h \<Rightarrow> 'h) \<Rightarrow> ('h \<Rightarrow> 'h \<Rightarrow> 'h) \<Rightarrow> 'h merkle_tree \<Rightarrow> 'h \<Rightarrow> 'h merkle_tree checked" where
  "append_tree lh nh t entry = do {
     lv0 \<leftarrow> vec_push_at (levels t) 0 (lh entry);
     sz \<leftarrow> u64_add (tsize t) 1;
     let completed = trailing_zeros sz;
     let lv1 = (if length lv0 \<le> completed then resize_levels (completed + 1) lv0 else lv0);
     lv2 \<leftarrow> fold_completed nh [0..<completed] lv1;
     Some \<lparr>levels = lv2, tsize = sz\<rparr> }"

definition leaf_hash_at :: "'h merkle_tree \<Rightarrow> u64 \<Rightarrow> 'h option checked" where
  "leaf_hash_at t seq =
     (if seq < tsize t
      then do { l0 \<leftarrow> vec_get (levels t) 0; h \<leftarrow> vec_get l0 (unat seq); Some (Some h) }
      else Some None)"

text \<open>The loop of \<open>root_at_size\<close> over the bits of \<open>s\<close>, low to high.\<close>

primrec fold_peaks ::
  "('h \<Rightarrow> 'h \<Rightarrow> 'h) \<Rightarrow> 'h list list \<Rightarrow> u64 \<Rightarrow> nat list \<Rightarrow> 'h option \<Rightarrow> 'h option checked" where
  "fold_peaks nh lv s [] acc = Some acc"
| "fold_peaks nh lv s (k # ks) acc =
     (if drop_bit k s AND 1 = 0 then fold_peaks nh lv s ks acc
      else do {
        lvl \<leftarrow> vec_get lv k;
        i \<leftarrow> usize_sub (unat (drop_bit k s)) 1;
        h \<leftarrow> vec_get lvl i;
        fold_peaks nh lv s ks
          (Some (case acc of None \<Rightarrow> h | Some a \<Rightarrow> nh h a)) })"

definition root_at_size ::
  "('h \<Rightarrow> 'h \<Rightarrow> 'h) \<Rightarrow> 'h merkle_tree \<Rightarrow> u64 \<Rightarrow> 'h option checked" where
  "root_at_size nh t s =
     (if tsize t < s then None
      else if s = 0 then Some None
      else fold_peaks nh (levels t) s [0..<64] None)"

definition root :: "('h \<Rightarrow> 'h \<Rightarrow> 'h) \<Rightarrow> 'h merkle_tree \<Rightarrow> 'h option checked" where
  "root nh t = root_at_size nh t (tsize t)"

definition subtree_hash :: "'h merkle_tree \<Rightarrow> nat \<Rightarrow> u64 \<Rightarrow> 'h checked" where
  "subtree_hash t k j = do { lvl \<leftarrow> vec_get (levels t) k; vec_get lvl (unat j) }"

text \<open>A default tree cannot be appended to: level 0 does not exist.\<close>

lemma append_default_tree: "append_tree lh nh default_tree e = None"
  by (simp add: append_tree_def default_tree_def vec_push_at_def)

lemma split_eq_Some:
  assumes "split n = Some k"
  shows "2 \<le> unat n" and "unat k = split_nat (unat n)"
proof -
  from assms have n: "\<not> n < 2" by (auto simp: split_def split: if_splits)
  then show n2: "2 \<le> unat n" by (simp add: word_less_nat_alt)
  have pos: "0 < unat n - 1" using n2 by simp
  have u: "unat (n - 1) = unat n - 1"
    using n2 by (subst unat_sub) (simp_all add: word_le_nat_alt)
  have "log2_floor (unat n - 1) < 64"
  proof -
    have "2 ^ log2_floor (unat n - 1) \<le> unat n - 1" using log2_floor_bounds [OF pos] by blast
    also have "\<dots> < 2 ^ 64" using unat_u64_less [of n] by (simp add: less_imp_diff_less)
    finally show ?thesis by (rule power_less_imp_less_exp [rotated]) simp
  qed
  with assms n u show "unat k = split_nat (unat n)"
    by (auto simp: split_def ilog2_def split_nat_def unat_pow2 split: if_splits)
qed

lemma split_Some:
  assumes "2 \<le> unat n"
  obtains k where "split n = Some k" and "unat k = split_nat (unat n)"
proof -
  have "\<not> n < 2" using assms by (simp add: word_less_nat_alt)
  moreover have "n - 1 \<noteq> 0" using assms by auto
  ultimately have "\<exists>k. split n = Some k" by (auto simp: split_def ilog2_def)
  then show ?thesis using split_eq_Some(2) that by blast
qed

text \<open>\<open>range_hash\<close>, with the recursion of the source; it ends because the split
  point of a length that is not a power of two lies strictly inside it.\<close>

function range_hash ::
  "('h \<Rightarrow> 'h \<Rightarrow> 'h) \<Rightarrow> 'h merkle_tree \<Rightarrow> u64 \<Rightarrow> u64 \<Rightarrow> 'h checked" where
  "range_hash nh t lo len =
     (if is_power_of_two len then subtree_hash t (trailing_zeros len) (lo div len)
      else do {
        k \<leftarrow> split len;
        left \<leftarrow> range_hash nh t lo k;
        lo' \<leftarrow> u64_add lo k;
        len' \<leftarrow> u64_sub len k;
        right \<leftarrow> range_hash nh t lo' len';
        Some (nh left right) })"
  by pat_completeness auto
termination
proof (relation "measure (\<lambda>(nh, t, lo, len). unat len)", goal_cases)
  case (2 nh t lo len k)
  then show ?case using split_eq_Some [of len k] split_nat_bounds by auto
next
  case (3 nh t lo len k left lo' len')
  then show ?case
    using split_eq_Some [of len k] unat_u64_sub [of len k len'] split_nat_bounds [of "unat len"]
    by auto
qed simp

declare range_hash.simps [simp del]

text \<open>\<open>path_into\<close>: the recursion pushes onto \<open>path\<close>, siblings from the leaf up.\<close>

function path_into ::
  "('h \<Rightarrow> 'h \<Rightarrow> 'h) \<Rightarrow> 'h merkle_tree \<Rightarrow> u64 \<Rightarrow> u64 \<Rightarrow> u64 \<Rightarrow> 'h proof_node list
     \<Rightarrow> 'h proof_node list checked" where
  "path_into nh t m lo len path =
     (if len = 1 then Some path
      else do {
        k \<leftarrow> split len;
        d \<leftarrow> u64_sub m lo;
        if d < k then do {
          path' \<leftarrow> path_into nh t m lo k path;
          lo' \<leftarrow> u64_add lo k;
          len' \<leftarrow> u64_sub len k;
          s \<leftarrow> range_hash nh t lo' len';
          Some (path' @ [\<lparr>sibling = s, side = Right\<rparr>]) }
        else do {
          lo' \<leftarrow> u64_add lo k;
          len' \<leftarrow> u64_sub len k;
          path' \<leftarrow> path_into nh t m lo' len' path;
          s \<leftarrow> subtree_hash t (trailing_zeros k) (lo div k);
          Some (path' @ [\<lparr>sibling = s, side = Left\<rparr>]) } })"
  by pat_completeness auto
termination
proof (relation "measure (\<lambda>(nh, t, m, lo, len, path). unat len)", goal_cases)
  case (2 nh t m lo len path k d)
  then show ?case using split_eq_Some [of len k] split_nat_bounds by auto
next
  case (3 nh t m lo len path k d lo' len')
  then show ?case
    using split_eq_Some [of len k] unat_u64_sub [of len k len'] split_nat_bounds [of "unat len"]
    by auto
qed simp

declare path_into.simps [simp del]

definition inclusion_path ::
  "('h \<Rightarrow> 'h \<Rightarrow> 'h) \<Rightarrow> 'h merkle_tree \<Rightarrow> u64 \<Rightarrow> u64 \<Rightarrow> 'h proof_node list checked" where
  "inclusion_path nh t m s =
     (if m < s \<and> s \<le> tsize t then path_into nh t m 0 s [] else None)"

function sub_proof ::
  "('h \<Rightarrow> 'h \<Rightarrow> 'h) \<Rightarrow> 'h merkle_tree \<Rightarrow> u64 \<Rightarrow> u64 \<Rightarrow> u64 \<Rightarrow> bool \<Rightarrow> 'h list \<Rightarrow> 'h list checked" where
  "sub_proof nh t m lo len anchored path =
     (if m = len then
        (if \<not> anchored then do { h \<leftarrow> range_hash nh t lo len; Some (path @ [h]) } else Some path)
      else do {
        k \<leftarrow> split len;
        if m \<le> k then do {
          path' \<leftarrow> sub_proof nh t m lo k anchored path;
          lo' \<leftarrow> u64_add lo k;
          len' \<leftarrow> u64_sub len k;
          h \<leftarrow> range_hash nh t lo' len';
          Some (path' @ [h]) }
        else do {
          m' \<leftarrow> u64_sub m k;
          lo' \<leftarrow> u64_add lo k;
          len' \<leftarrow> u64_sub len k;
          path' \<leftarrow> sub_proof nh t m' lo' len' False path;
          h \<leftarrow> range_hash nh t lo k;
          Some (path' @ [h]) } })"
  by pat_completeness auto
termination
proof (relation "measure (\<lambda>(nh, t, m, lo, len, anchored, path). unat len)", goal_cases)
  case (2 nh t m lo len anchored path k)
  then show ?case using split_eq_Some [of len k] split_nat_bounds by auto
next
  case (3 nh t m lo len anchored path k m' lo' len')
  then show ?case
    using split_eq_Some [of len k] unat_u64_sub [of len k len'] split_nat_bounds [of "unat len"]
    by auto
qed simp

declare sub_proof.simps [simp del]

definition consistency_path ::
  "('h \<Rightarrow> 'h \<Rightarrow> 'h) \<Rightarrow> 'h merkle_tree \<Rightarrow> u64 \<Rightarrow> 'h list checked" where
  "consistency_path nh t old_size =
     (if tsize t < old_size then None
      else if 0 < old_size then sub_proof nh t old_size 0 (tsize t) True []
      else Some [])"

section \<open>The level invariant\<close>

definition complete_level ::
  "('h \<Rightarrow> 'h) \<Rightarrow> ('h \<Rightarrow> 'h \<Rightarrow> 'h) \<Rightarrow> 'h list \<Rightarrow> nat \<Rightarrow> 'h list" where
  "complete_level lh nh es k =
     map (\<lambda>j. mth lh nh (take (2 ^ k) (drop (j * 2 ^ k) es))) [0..<length es div 2 ^ k]"

definition tree_inv ::
  "('h \<Rightarrow> 'h) \<Rightarrow> ('h \<Rightarrow> 'h \<Rightarrow> 'h) \<Rightarrow> 'h list \<Rightarrow> 'h merkle_tree \<Rightarrow> bool" where
  "tree_inv lh nh es t \<longleftrightarrow>
     length es < 2 ^ 64 \<and> tsize t = as_u64 (length es) \<and>
     0 < length (levels t) \<and> length es < 2 ^ length (levels t) \<and>
     2 ^ (length (levels t) - 1) \<le> max 1 (length es) \<and>
     levels t = map (complete_level lh nh es) [0..<length (levels t)]"

lemma length_complete_level [simp]:
  "length (complete_level lh nh es k) = length es div 2 ^ k"
  by (simp add: complete_level_def)

lemma nth_complete_level:
  "j < length es div 2 ^ k \<Longrightarrow>
     complete_level lh nh es k ! j = mth lh nh (take (2 ^ k) (drop (j * 2 ^ k) es))"
  by (simp add: complete_level_def)

lemma complete_level_empty: "length es < 2 ^ k \<Longrightarrow> complete_level lh nh es k = []"
  by (simp add: complete_level_def)

lemma tree_inv_size: "tree_inv lh nh es t \<Longrightarrow> unat (tsize t) = length es"
  by (simp add: tree_inv_def)

lemma tree_inv_bound: "tree_inv lh nh es t \<Longrightarrow> length es < 2 ^ 64"
  by (simp add: tree_inv_def)

lemma tree_inv_nth_level:
  assumes "tree_inv lh nh es t" and "k < length (levels t)"
  shows "levels t ! k = complete_level lh nh es k"
proof -
  have "levels t = map (complete_level lh nh es) [0..<length (levels t)]"
    using assms(1) by (simp add: tree_inv_def)
  then have "levels t ! k = map (complete_level lh nh es) [0..<length (levels t)] ! k"
    by (rule arg_cong)
  then show ?thesis using assms(2) by simp
qed

lemma tree_inv_level_exists:
  assumes "tree_inv lh nh es t" and "2 ^ k \<le> length es"
  shows "k < length (levels t)"
proof -
  have "length es < 2 ^ length (levels t)" using assms(1) by (simp add: tree_inv_def)
  with assms(2) have "(2 :: nat) ^ k < 2 ^ length (levels t)" by (rule le_less_trans)
  then show ?thesis by (rule power_less_imp_less_exp [rotated]) simp
qed

text \<open>Every cached hash of a complete subtree within the log is found and right.\<close>

lemma vec_get_level:
  assumes "tree_inv lh nh es t" and "(j + 1) * 2 ^ k \<le> length es"
  shows "Option.bind (vec_get (levels t) k) (\<lambda>lvl. vec_get lvl j)
           = Some (mth lh nh (take (2 ^ k) (drop (j * 2 ^ k) es)))"
proof -
  have "2 ^ k \<le> length es" using assms(2) by simp
  with assms(1) have k: "k < length (levels t)" by (rule tree_inv_level_exists)
  have "j + 1 \<le> length es div 2 ^ k" using assms(2) by (simp add: less_eq_div_iff_mult_less_eq)
  then show ?thesis
    using k tree_inv_nth_level [OF assms(1) k]
    by (simp add: vec_get_def nth_complete_level)
qed

text \<open>The invariant determines the tree: it is a function of the entry list.\<close>

lemma tree_inv_levels_length:
  assumes "tree_inv lh nh es t"
  shows "length (levels t) = Suc (log2_floor (max 1 (length es)))"
proof -
  obtain j where j: "length (levels t) = Suc j"
    using assms by (cases "length (levels t)") (auto simp: tree_inv_def)
  moreover have "(1 :: nat) < 2 ^ Suc j" by (rule one_less_power) simp_all
  ultimately have "2 ^ j \<le> max 1 (length es)" and "max 1 (length es) < 2 ^ Suc j"
    using assms by (auto simp: tree_inv_def)
  then have "log2_floor (max 1 (length es)) = j" by (rule log2_floor_unique)
  then show ?thesis using j by simp
qed

lemma tree_inv_unique:
  assumes "tree_inv lh nh es t" and "tree_inv lh nh es t'"
  shows "t = t'"
proof -
  have "length (levels t) = length (levels t')"
    using assms by (simp add: tree_inv_levels_length)
  then have "levels t = levels t'"
    using assms by (intro nth_equalityI) (simp_all add: tree_inv_nth_level)
  moreover have "tsize t = tsize t'" using assms by (simp add: tree_inv_def)
  ultimately show ?thesis by simp
qed

lemma tree_inv_new: "tree_inv lh nh [] new_tree"
  by (simp add: tree_inv_def new_tree_def complete_level_def as_u64_def)

section \<open>Append\<close>

lemma complete_level_snoc:
  "complete_level lh nh (es @ [e]) k =
     complete_level lh nh es k
       @ (if 2 ^ k dvd Suc (length es)
          then [mth lh nh (drop (Suc (length es) - 2 ^ k) (es @ [e]))] else [])"
proof -
  let ?n = "length es" and ?p = "2 ^ k :: nat"
  have old: "take ?p (drop (j * ?p) (es @ [e])) = take ?p (drop (j * ?p) es)"
    if "j < ?n div ?p" for j
  proof -
    have "Suc j \<le> ?n div ?p" using that by simp
    then have "Suc j * ?p \<le> ?n" by (simp only: less_eq_div_iff_mult_less_eq zero_less_power zero_less_numeral)
    then show ?thesis by simp
  qed
  have prefix: "map (\<lambda>j. mth lh nh (take ?p (drop (j * ?p) (es @ [e])))) [0..<?n div ?p]
      = complete_level lh nh es k"
    unfolding complete_level_def
    by (rule map_cong [OF refl]) (simp only: old atLeastLessThan_iff set_upt)
  show ?thesis
  proof (cases "?p dvd Suc ?n")
    case True
    then have d: "Suc ?n div ?p = Suc (?n div ?p)" and r: "Suc (?n mod ?p) = ?p"
      by (auto simp: div_Suc dvd_eq_mod_eq_0 mod_Suc split: if_splits)
    have m: "?n div ?p * ?p = Suc ?n - ?p"
      using div_mult_mod_eq [of ?n ?p] r by linarith
    have "?p \<le> Suc ?n" using True by (rule dvd_imp_le) simp
    then have "take ?p (drop (?n div ?p * ?p) (es @ [e])) = drop (Suc ?n - ?p) (es @ [e])"
      unfolding m by (intro take_all) simp
    with True d prefix show ?thesis
      by (simp add: complete_level_def del: take_append drop_append)
  next
    case False
    then have "Suc ?n div ?p = ?n div ?p" by (simp add: div_Suc dvd_eq_mod_eq_0)
    with False prefix show ?thesis
      by (simp add: complete_level_def del: take_append drop_append)
  qed
qed

text \<open>
  The state of the levels while the loop has completed levels \<open>0\<close> to \<open>k\<close>: those are
  the levels of the extended log, the others still those of the old one.
\<close>

definition mixed_levels ::
  "('h \<Rightarrow> 'h) \<Rightarrow> ('h \<Rightarrow> 'h \<Rightarrow> 'h) \<Rightarrow> 'h list \<Rightarrow> 'h \<Rightarrow> nat \<Rightarrow> nat \<Rightarrow> 'h list list" where
  "mixed_levels lh nh es e k n =
     map (\<lambda>i. complete_level lh nh (if i \<le> k then es @ [e] else es) i) [0..<n]"

lemma last_two_complete:
  assumes "2 ^ Suc k dvd length es" and "es \<noteq> []"
  shows "2 \<le> length es div 2 ^ k"
    and "complete_level lh nh es k ! (length es div 2 ^ k - 2)
           = mth lh nh (take (2 ^ k) (drop (length es - 2 ^ Suc k) es))"
    and "complete_level lh nh es k ! (length es div 2 ^ k - 1)
           = mth lh nh (drop (length es - 2 ^ k) es)"
    and "nh (mth lh nh (take (2 ^ k) (drop (length es - 2 ^ Suc k) es)))
            (mth lh nh (drop (length es - 2 ^ k) es)) = mth lh nh (drop (length es - 2 ^ Suc k) es)"
proof -
  let ?p = "2 ^ k :: nat"
  obtain q where q: "length es = 2 ^ Suc k * q" using assms(1) by (rule dvdE)
  have q0: "0 < q" using assms(2) q by (cases q) auto
  then obtain r where r: "q = Suc r" by (cases q) auto
  have d: "length es div ?p = 2 * q" using q by simp
  then show "2 \<le> length es div ?p" using q0 by simp
  have a: "(2 * q - 2) * ?p = length es - 2 ^ Suc k" and b: "(2 * q - 1) * ?p = length es - ?p"
    using q r by (simp_all add: algebra_simps)
  show "complete_level lh nh es k ! (length es div ?p - 2)
      = mth lh nh (take ?p (drop (length es - 2 ^ Suc k) es))"
    using d q0 a by (simp add: nth_complete_level)
  show "complete_level lh nh es k ! (length es div ?p - 1) = mth lh nh (drop (length es - ?p) es)"
    using d q0 b q by (simp add: nth_complete_level)
  let ?xs = "drop (length es - 2 ^ Suc k) es"
  have len: "length ?xs = 2 ^ Suc k" using q r by simp
  then have "mth lh nh (take ?p ?xs @ drop ?p ?xs) = nh (mth lh nh (take ?p ?xs)) (mth lh nh (drop ?p ?xs))"
    by (intro mth_append) auto
  then have "mth lh nh ?xs = nh (mth lh nh (take ?p ?xs)) (mth lh nh (drop ?p ?xs))"
    by (simp only: append_take_drop_id)
  moreover have "drop ?p ?xs = drop (length es - ?p) es" using q r by simp
  ultimately show "nh (mth lh nh (take ?p ?xs)) (mth lh nh (drop (length es - ?p) es)) = mth lh nh ?xs"
    by simp
qed

lemma fold_completed_mixed:
  assumes "k \<le> c" and "c < n" and "2 ^ c dvd Suc (length es)"
  shows "fold_completed nh [k..<c] (mixed_levels lh nh es e k n) = Some (mixed_levels lh nh es e c n)"
  using assms(1)
proof (induction k rule: inc_induct)
  case base
  then show ?case by simp
next
  case (step k)
  let ?es = "es @ [e]"
  have dv: "2 ^ Suc k dvd length ?es"
    using dvd_trans [OF le_imp_power_dvd [of "Suc k" c "2 :: nat"] assms(3)] step.hyps(2) by simp
  note two = last_two_complete(1) [OF dv] last_two_complete(2-4) [OF dv, where lh = lh and nh = nh]
  have lvl: "mixed_levels lh nh es e k n ! k = complete_level lh nh ?es k"
    and lvl': "mixed_levels lh nh es e k n ! Suc k = complete_level lh nh es (Suc k)"
    and len: "length (mixed_levels lh nh es e k n) = n"
    using step.hyps assms(2) by (simp_all add: mixed_levels_def)
  let ?h = "mth lh nh (drop (Suc (length es) - 2 ^ Suc k) ?es)"
  have "(mixed_levels lh nh es e k n)[Suc k := complete_level lh nh es (Suc k) @ [?h]]
      = mixed_levels lh nh es e (Suc k) n"
    using dv complete_level_snoc [of lh nh es e "Suc k"] step.hyps assms(2)
    by (intro nth_equalityI [where xs = "list_update _ _ _"])
      (auto simp: mixed_levels_def nth_list_update le_Suc_eq)
  with step.IH two lvl lvl' len step.hyps assms(2) show ?case
    by (simp add: upt_conv_Cons vec_get_def usize_sub_def vec_push_at_def)
qed

text \<open>The steps of an append: the new leaf, the growth of the levels, and the bounds on
  their number afterwards.\<close>

lemma push_leaf_mixed:
  assumes "levels t = map (complete_level lh nh es) [0..<n]" and "0 < n"
  shows "vec_push_at (levels t) 0 (lh e) = Some (mixed_levels lh nh es e 0 n)"
proof -
  have "(levels t)[0 := levels t ! 0 @ [lh e]] = mixed_levels lh nh es e 0 n"
    using assms(2) complete_level_snoc [of lh nh es e 0]
    by (intro nth_equalityI [where xs = "list_update _ _ _"])
      (auto simp: assms(1) mixed_levels_def nth_list_update)
  with assms show ?thesis by (simp add: vec_push_at_def)
qed

lemma grow_levels_mixed:
  assumes "0 < n" and "length es < 2 ^ n"
  shows "(if n \<le> c then resize_levels (c + 1) (mixed_levels lh nh es e 0 n) else mixed_levels lh nh es e 0 n)
    = mixed_levels lh nh es e 0 (max n (Suc c))"
proof (cases "n \<le> c")
  case True
  have "complete_level lh nh es i = []" if "n \<le> i" for i
    by (intro complete_level_empty less_le_trans [OF assms(2)] power_increasing that) simp
  then have "mixed_levels lh nh es e 0 (Suc c) = mixed_levels lh nh es e 0 n @ replicate (Suc c - n) []"
    using True assms(1)
    by (intro nth_equalityI [where xs = "mixed_levels _ _ _ _ _ _"])
      (auto simp: mixed_levels_def nth_append)
  with True show ?thesis by (simp add: resize_levels_def mixed_levels_def max_def)
next
  case False
  then have "max n (Suc c) = n" by simp
  then show ?thesis using False by simp
qed

lemma grown_levels_bounds:
  assumes "2 ^ (n - 1) \<le> max 1 k" and "k < 2 ^ n" and "c = count_trailing_zeros (Suc k)"
  shows "Suc k < 2 ^ max n (Suc c)" and "2 ^ (max n (Suc c) - 1) \<le> Suc k"
proof -
  show "Suc k < 2 ^ max n (Suc c)"
  proof (cases "Suc k = 2 ^ n")
    case True
    then have "c = n" using assms(3) by simp
    with True show ?thesis by simp
  next
    case False
    with assms(2) have "Suc k < 2 ^ n" by simp
    also have "\<dots> \<le> 2 ^ max n (Suc c)" by simp
    finally show ?thesis .
  qed
  have "2 ^ c dvd Suc k" using assms(3) by (simp add: count_trailing_zeros_dvd)
  then have "2 ^ c \<le> Suc k" by (rule dvd_imp_le) simp
  with assms(1) show "2 ^ (max n (Suc c) - 1) \<le> Suc k"
    by (cases "n \<le> c") (auto simp: max_def split: if_splits)
qed

lemma append_tree_inv:
  assumes inv: "tree_inv lh nh es t" and room: "Suc (length es) < 2 ^ 64"
  shows "\<exists>t'. append_tree lh nh t e = Some t' \<and> tree_inv lh nh (es @ [e]) t'"
proof -
  let ?es = "es @ [e]" and ?n = "Suc (length es)" and ?L = "length (levels t)"
  define sz where "sz = tsize t + 1"
  define c where "c = trailing_zeros sz"
  let ?L' = "max ?L (Suc c)"
  from inv have L: "0 < ?L" "length es < 2 ^ ?L" "2 ^ (?L - 1) \<le> max 1 (length es)"
    and lv: "levels t = map (complete_level lh nh es) [0..<?L]"
    by (simp_all add: tree_inv_def)
  have sz: "u64_add (tsize t) 1 = Some sz" "unat sz = ?n"
    using tree_inv_size [OF inv] room by (simp_all add: sz_def u64_add_def unat_word_ariths)
  then have c: "c = count_trailing_zeros ?n" by (auto simp: c_def trailing_zeros_def)
  have "fold_completed nh [0..<c] (mixed_levels lh nh es e 0 ?L') = Some (mixed_levels lh nh es e c ?L')"
    by (intro fold_completed_mixed) (auto simp: c count_trailing_zeros_dvd)
  moreover have "length (mixed_levels lh nh es e 0 ?L) = ?L" by (simp add: mixed_levels_def)
  ultimately have "append_tree lh nh t e = Some \<lparr>levels = mixed_levels lh nh es e c ?L', tsize = sz\<rparr>"
    using push_leaf_mixed [OF lv L(1), of e] sz(1)
    by (simp add: append_tree_def c_def [symmetric] grow_levels_mixed [OF L(1,2)] split del: if_split)
  moreover have "complete_level lh nh es i = complete_level lh nh ?es i" if "c < i" for i
    using that c by (simp add: complete_level_snoc count_trailing_zeros_dvd)
  then have "mixed_levels lh nh es e c ?L' = map (complete_level lh nh ?es) [0..<?L']"
    by (auto simp: mixed_levels_def)
  moreover have "sz = as_u64 ?n" using sz(2) room by (simp add: u64_eq_iff)
  ultimately show ?thesis
    using room L(1) grown_levels_bounds [OF L(3,2) c] by (simp add: tree_inv_def)
qed

text \<open>At the last size the addition overflows, so a successful append had room.\<close>

lemma append_tree_Some_inv:
  assumes "tree_inv lh nh es t" and "append_tree lh nh t e = Some t'"
  shows "tree_inv lh nh (es @ [e]) t'"
proof -
  obtain sz where "u64_add (tsize t) 1 = Some sz"
    using assms(2) by (auto simp: append_tree_def bind_eq_Some_conv)
  then have "Suc (length es) < 2 ^ 64"
    using tree_inv_size [OF assms(1)] by (simp add: u64_add_def split: if_splits)
  from append_tree_inv [OF assms(1) this, of e] assms(2) show ?thesis by auto
qed

section \<open>Roots of every prefix\<close>

lemma unat_drop_bit_u64: "unat (drop_bit k (s :: u64)) = unat s div 2 ^ k"
  by (rule trans [OF unat_drop_bit_eq drop_bit_eq_div])

lemma and_1_eq_0_iff: "(w :: u64) AND 1 = 0 \<longleftrightarrow> even (unat w)"
  by (simp only: u64_eq_iff and_one_eq unat_mod_distrib) (simp add: even_iff_mod_2_eq_zero)

text \<open>The remainder below bit \<open>k\<close>: the leaves that the peaks folded so far cover.\<close>

definition low_peaks ::
  "('h \<Rightarrow> 'h) \<Rightarrow> ('h \<Rightarrow> 'h \<Rightarrow> 'h) \<Rightarrow> 'h list \<Rightarrow> nat \<Rightarrow> nat \<Rightarrow> 'h option" where
  "low_peaks lh nh es n k = mth_root lh nh (take (n mod 2 ^ k) (drop (n - n mod 2 ^ k) es))"

lemma low_peaks_step:
  assumes "n \<le> length es"
  shows "low_peaks lh nh es n (Suc k) =
    (if even (n div 2 ^ k) then low_peaks lh nh es n k
     else let h = mth lh nh (take (2 ^ k) (drop ((n div 2 ^ k - 1) * 2 ^ k) es)) in
       Some (case low_peaks lh nh es n k of None \<Rightarrow> h | Some a \<Rightarrow> nh h a))"
proof -
  let ?p = "2 ^ k :: nat" and ?r = "n mod 2 ^ k"
  have "n mod (?p * 2) = ?p * (n div ?p mod 2) + ?r" by (rule mod_mult2_eq)
  then have r': "n mod 2 ^ Suc k = (if even (n div ?p) then ?r else ?p + ?r)"
    by (auto simp: mult.commute even_iff_mod_2_eq_zero odd_iff_mod_2_eq_one)
  show ?thesis
  proof (cases "even (n div ?p)")
    case True
    then show ?thesis using r' by (simp add: low_peaks_def)
  next
    case False
    define st where "st = n - n mod 2 ^ Suc k"
    have n: "n = n div ?p * ?p + ?r" by (rule div_mult_mod_eq [symmetric])
    from False obtain q where q: "n div ?p = Suc q" by (cases "n div ?p") auto
    have st: "(n div ?p - 1) * ?p = st"
      using n q r' False by (simp add: st_def)
    have rest: "n - ?r = ?p + st"
      using n q st by simp
    have lt: "?r < ?p" by simp
    have len: "length (take ?p (drop st es)) = ?p"
      using assms rest by simp
    have tk: "take (?p + ?r) (drop st es) = take ?p (drop st es) @ take ?r (drop (?p + st) es)"
      by (simp add: take_add add.commute)
    have "low_peaks lh nh es n (Suc k) = mth_root lh nh (take ?p (drop st es) @ take ?r (drop (?p + st) es))"
      using r' False tk by (simp add: low_peaks_def st_def)
    also have "\<dots> = Some (case low_peaks lh nh es n k of None \<Rightarrow> mth lh nh (take ?p (drop st es))
         | Some a \<Rightarrow> nh (mth lh nh (take ?p (drop st es))) a)"
    proof (cases "?r = 0")
      case True
      then show ?thesis using len by (auto simp: low_peaks_def mth_root_def)
    next
      case False
      have "length (take ?r (drop (?p + st) es)) = ?r"
        using assms n rest by simp
      then have "take ?r (drop (?p + st) es) \<noteq> []" using False by force
      then show ?thesis
        using mth_append [OF len, of "take ?r (drop (?p + st) es)" lh nh] \<open>length _ = ?r\<close> lt rest
        by (simp add: low_peaks_def mth_root_def)
    qed
    finally show ?thesis using False st by (simp add: Let_def)
  qed
qed

lemma fold_peaks_correct:
  assumes inv: "tree_inv lh nh es t" and s: "unat s \<le> length es" and k: "k \<le> 64"
  shows "fold_peaks nh (levels t) s [k..<64] (low_peaks lh nh es (unat s) k)
           = Some (mth_root lh nh (take (unat s) es))"
  using k
proof (induction k rule: inc_induct)
  case base
  have "unat s mod 2 ^ 64 = unat s" by simp
  then show ?case by (simp add: low_peaks_def)
next
  case (step k)
  let ?q = "unat s div 2 ^ k"
  note st = low_peaks_step [OF s, of lh nh k]
  show ?case
  proof (cases "even ?q")
    case True
    then show ?thesis using step st by (simp add: upt_conv_Cons and_1_eq_0_iff unat_drop_bit_u64)
  next
    case False
    then have q: "1 \<le> ?q" by (cases ?q) auto
    have "?q * 2 ^ k \<le> length es" using div_times_less_eq_dividend s by (rule order_trans)
    then have "(?q - 1 + 1) * 2 ^ k \<le> length es" using q by simp
    note lvl = vec_get_level [OF inv this]
    then obtain l where "vec_get (levels t) k = Some l"
      "vec_get l (?q - 1) = Some (mth lh nh (take (2 ^ k) (drop ((?q - 1) * 2 ^ k) es)))"
      by (auto simp: bind_eq_Some_conv)
    then show ?thesis
      using False q step st
      by (simp add: upt_conv_Cons and_1_eq_0_iff unat_drop_bit_u64 usize_sub_def Let_def)
  qed
qed

lemma root_at_size_correct:
  assumes "tree_inv lh nh es t" and "unat s \<le> length es"
  shows "root_at_size nh t s = Some (mth_root lh nh (take (unat s) es))"
proof -
  have "\<not> tsize t < s" using assms tree_inv_size [OF assms(1)] by (simp add: word_less_nat_alt)
  moreover have "fold_peaks nh (levels t) s [0..<64] None = Some (mth_root lh nh (take (unat s) es))"
    using fold_peaks_correct [OF assms, of 0] by (simp add: low_peaks_def mth_root_def)
  ultimately show ?thesis by (auto simp: root_at_size_def mth_root_def)
qed

lemma root_correct:
  "tree_inv lh nh es t \<Longrightarrow> root nh t = Some (mth_root lh nh es)"
  using root_at_size_correct [of lh nh es t "tsize t"] tree_inv_size [of lh nh es t]
  by (simp add: root_def)

section \<open>Ranges, inclusion paths and consistency proofs\<close>

text \<open>
  The ranges \<open>[lo, lo + len)\<close> that the RFC recursion visits: \<open>lo\<close> is a multiple of
  a power of two that is at least \<open>len\<close>. This is what makes every power-of-two range
  a cached complete subtree (the doc comment of \<open>range_hash\<close>).
\<close>

definition aligned :: "nat \<Rightarrow> nat \<Rightarrow> bool" where
  "aligned lo len \<longleftrightarrow> (\<exists>c. 2 ^ c dvd lo \<and> len \<le> 2 ^ c)"

lemma aligned_0 [simp]: "aligned 0 len"
  unfolding aligned_def by (rule exI [of _ len]) simp

lemma aligned_pow2: "aligned lo (2 ^ k) \<Longrightarrow> 2 ^ k dvd lo"
  unfolding aligned_def by (metis dvd_trans le_imp_power_dvd one_less_numeral_iff
    power_le_imp_le_exp semiring_norm(76))

lemma aligned_split_dvd:
  assumes "aligned lo len" and "2 \<le> len"
  shows "split_nat len dvd lo"
proof -
  obtain c where c: "2 ^ c dvd lo" "len \<le> 2 ^ c" using assms(1) by (auto simp: aligned_def)
  have "2 * split_nat len dvd lo" using split_nat_dvd [OF c(2) assms(2)] c(1) by (rule dvd_trans)
  then show ?thesis by (rule dvd_mult_right)
qed

lemma aligned_halves:
  assumes "aligned lo len" and "2 \<le> len"
  shows "aligned lo (split_nat len)" and "aligned (lo + split_nat len) (len - split_nat len)"
proof -
  obtain j where j: "split_nat len = 2 ^ j" by (auto simp: split_nat_def)
  have d: "2 ^ j dvd lo" using aligned_split_dvd [OF assms] j by simp
  then show "aligned lo (split_nat len)" unfolding aligned_def j by blast
  have "len - split_nat len \<le> 2 ^ j" using split_nat_bounds(3) [OF assms(2)] j by simp
  moreover have "2 ^ j dvd lo + split_nat len" using d j by simp
  ultimately show "aligned (lo + split_nat len) (len - split_nat len)"
    unfolding aligned_def by blast
qed

definition range_mth ::
  "('h \<Rightarrow> 'h) \<Rightarrow> ('h \<Rightarrow> 'h \<Rightarrow> 'h) \<Rightarrow> 'h list \<Rightarrow> nat \<Rightarrow> nat \<Rightarrow> 'h" where
  "range_mth lh nh es lo len = mth lh nh (take len (drop lo es))"

lemma range_mth_split:
  assumes "2 \<le> len" and "lo + len \<le> length es"
  shows "range_mth lh nh es lo len =
     nh (range_mth lh nh es lo (split_nat len))
        (range_mth lh nh es (lo + split_nat len) (len - split_nat len))"
proof -
  have "length (take len (drop lo es)) = len" using assms(2) by simp
  then show ?thesis
    using assms(1) split_nat_bounds(2) [OF assms(1)] mth_split [of "take len (drop lo es)" lh nh]
    by (simp add: range_mth_def min_absorb1 drop_take add.commute)
qed

text \<open>The word arithmetic of one recursion step never panics within the log.\<close>

lemma halves_no_panic:
  assumes "2 \<le> unat len" and "unat lo + unat len < 2 ^ 64"
  obtains k lo' len' where "split len = Some k" and "u64_add lo k = Some lo'"
    and "u64_sub len k = Some len'" and "unat k = split_nat (unat len)"
    and "unat lo' = unat lo + split_nat (unat len)"
    and "unat len' = unat len - split_nat (unat len)"
proof -
  obtain k where k: "split len = Some k" "unat k = split_nat (unat len)"
    using split_Some [OF assms(1)] by blast
  have "unat k < unat len" using split_nat_bounds [OF assms(1)] k by simp
  then have "u64_add lo k = Some (lo + k)" and "u64_sub len k = Some (len - k)"
    using assms(2) by (simp_all add: u64_add_def u64_sub_def word_le_nat_alt)
  with k that show ?thesis
    using unat_u64_add [of lo k] unat_u64_sub [of len k] by auto
qed

lemma subtree_hash_correct:
  assumes "tree_inv lh nh es t" and "unat len = 2 ^ k" and "2 ^ k dvd unat lo"
    and "unat lo + unat len \<le> length es"
  shows "subtree_hash t (trailing_zeros len) (lo div len)
           = Some (range_mth lh nh es (unat lo) (unat len))"
proof -
  have "unat (lo div len) * 2 ^ k = unat lo"
    using assms(2,3) by (simp add: unat_div_distrib)
  moreover from this have "(unat (lo div len) + 1) * 2 ^ k \<le> length es"
    using assms(2,4) by (simp add: algebra_simps)
  ultimately show ?thesis
    using vec_get_level [OF assms(1), of "unat (lo div len)" k] assms(2)
    by (simp add: subtree_hash_def unat_trailing_zeros_pow2 [OF assms(2)] range_mth_def)
qed

lemma range_hash_correct:
  assumes inv: "tree_inv lh nh es t"
  shows "0 < unat len \<Longrightarrow> unat lo + unat len \<le> length es \<Longrightarrow> aligned (unat lo) (unat len) \<Longrightarrow>
     range_hash nh t lo len = Some (range_mth lh nh es (unat lo) (unat len))"
proof (induction "unat len" arbitrary: lo len rule: less_induct)
  case less
  show ?case
  proof (cases "is_power_of_two len")
    case True
    then obtain k where "unat len = 2 ^ k" by (auto simp: is_power_of_two_iff)
    with less.prems have "subtree_hash t (trailing_zeros len) (lo div len)
        = Some (range_mth lh nh es (unat lo) (unat len))"
      by (intro subtree_hash_correct [OF inv]) (auto intro: aligned_pow2)
    with True show ?thesis by (simp add: range_hash.simps [of nh t lo len])
  next
    case False
    have "unat len \<noteq> 2 ^ 0" using False unfolding is_power_of_two_iff by fastforce
    with less.prems(1) have len: "2 \<le> unat len" by simp
    have "unat lo + unat len < 2 ^ 64" using less.prems(2) tree_inv_bound [OF inv] by simp
    from halves_no_panic [OF len this] obtain k lo' len' where
      w: "split len = Some k" "u64_add lo k = Some lo'" "u64_sub len k = Some len'"
      and u: "unat k = split_nat (unat len)" "unat lo' = unat lo + split_nat (unat len)"
        "unat len' = unat len - split_nat (unat len)" by blast
    note b = split_nat_bounds [OF len]
    note al = aligned_halves [OF less.prems(3) len]
    have "range_hash nh t lo k = Some (range_mth lh nh es (unat lo) (unat k))"
      using u b al less.prems by (intro less.hyps) simp_all
    moreover have "range_hash nh t lo' len' = Some (range_mth lh nh es (unat lo') (unat len'))"
      using u b al less.prems by (intro less.hyps) simp_all
    ultimately show ?thesis
      using False w u range_mth_split [OF len less.prems(2), of lh nh]
      by (simp add: range_hash.simps [of nh t lo len])
  qed
qed

text \<open>One step of the two recursions that build proofs: the halves of a range, with
  what each of them hashes to.\<close>

lemma range_halves:
  assumes inv: "tree_inv lh nh es t" and len: "2 \<le> unat len"
    and le: "unat lo + unat len \<le> length es" and al: "aligned (unat lo) (unat len)"
    and ds: "ds = take (unat len) (drop (unat lo) es)"
  obtains k lo' len' where "split len = Some k" "u64_add lo k = Some lo'" "u64_sub len k = Some len'"
    and "unat k = split_nat (unat len)" "unat lo' = unat lo + unat k" "unat len' = unat len - unat k"
    and "0 < unat k" "unat k < unat len" "aligned (unat lo) (unat k)" "aligned (unat lo') (unat len')"
    and "take (unat k) ds = take (unat k) (drop (unat lo) es)"
    and "drop (unat k) ds = take (unat len') (drop (unat lo') es)"
    and "range_hash nh t lo k = Some (mth lh nh (take (unat k) ds))"
    and "range_hash nh t lo' len' = Some (mth lh nh (drop (unat k) ds))"
    and "subtree_hash t (trailing_zeros k) (lo div k) = Some (mth lh nh (take (unat k) ds))"
proof -
  have "unat lo + unat len < 2 ^ 64" using le tree_inv_bound [OF inv] by simp
  from halves_no_panic [OF len this] obtain k lo' len' where
    w: "split len = Some k" "u64_add lo k = Some lo'" "u64_sub len k = Some len'"
    and u: "unat k = split_nat (unat len)" "unat lo' = unat lo + split_nat (unat len)"
      "unat len' = unat len - split_nat (unat len)" by blast
  note b = split_nat_bounds [OF len]
  note ah = aligned_halves [OF al len]
  have parts: "take (unat k) ds = take (unat k) (drop (unat lo) es)"
    "drop (unat k) ds = take (unat len') (drop (unat lo') es)"
    using u b by (simp_all add: ds min_def drop_take add.commute)
  have "range_hash nh t lo k = Some (range_mth lh nh es (unat lo) (unat k))"
    "range_hash nh t lo' len' = Some (range_mth lh nh es (unat lo') (unat len'))"
    using u b ah le by (intro range_hash_correct [OF inv]; simp)+
  moreover obtain j where "unat k = 2 ^ j" using u(1) by (auto simp: split_nat_def)
  then have "subtree_hash t (trailing_zeros k) (lo div k) = Some (range_mth lh nh es (unat lo) (unat k))"
    using u b ah le by (intro subtree_hash_correct [OF inv]) (auto intro: aligned_pow2)
  ultimately show ?thesis
    using that [OF w] u b ah parts by (simp add: range_mth_def)
qed

lemma path_into_correct:
  assumes inv: "tree_inv lh nh es t"
  shows "unat lo \<le> unat m \<Longrightarrow> unat m < unat lo + unat len \<Longrightarrow> unat lo + unat len \<le> length es \<Longrightarrow>
     aligned (unat lo) (unat len) \<Longrightarrow>
     path_into nh t m lo len path =
       Some (path @ audit_path lh nh (unat m - unat lo) (take (unat len) (drop (unat lo) es)))"
proof (induction "unat len" arbitrary: lo len path rule: less_induct)
  case less
  let ?ds = "take (unat len) (drop (unat lo) es)"
  show ?case
  proof (cases "unat len = 1")
    case True
    then have "len = 1" by (simp add: u64_eq_iff)
    then show ?thesis by (simp add: path_into.simps audit_path.simps)
  next
    case False
    with less.prems have len: "2 \<le> unat len" and ne: "len \<noteq> 1" by auto
    from range_halves [OF inv len less.prems(3,4) refl] obtain k lo' len' where
      w: "split len = Some k" "u64_add lo k = Some lo'" "u64_sub len k = Some len'"
      and u: "unat k = split_nat (unat len)" "unat lo' = unat lo + unat k" "unat len' = unat len - unat k"
        "0 < unat k" "unat k < unat len" "aligned (unat lo) (unat k)" "aligned (unat lo') (unat len')"
      and parts: "take (unat k) ?ds = take (unat k) (drop (unat lo) es)"
        "drop (unat k) ?ds = take (unat len') (drop (unat lo') es)"
      and h: "range_hash nh t lo' len' = Some (mth lh nh (drop (unat k) ?ds))"
        "subtree_hash t (trailing_zeros k) (lo div k) = Some (mth lh nh (take (unat k) ?ds))" by metis
    have d: "u64_sub m lo = Some (m - lo)" "unat (m - lo) = unat m - unat lo"
      using less.prems(1) by (simp_all add: u64_sub_def word_le_nat_alt unat_sub)
    have ap: "audit_path lh nh (unat m - unat lo) ?ds =
        (if m - lo < k
         then audit_path lh nh (unat m - unat lo) (take (unat k) ?ds)
                @ [\<lparr>sibling = mth lh nh (drop (unat k) ?ds), side = Right\<rparr>]
         else audit_path lh nh (unat m - unat lo - unat k) (drop (unat k) ?ds)
                @ [\<lparr>sibling = mth lh nh (take (unat k) ?ds), side = Left\<rparr>])"
      using len d(2) u(1) less.prems(3) by (subst audit_path.simps) (simp add: Let_def word_less_nat_alt)
    show ?thesis
    proof (cases "m - lo < k")
      case True
      then have "unat m < unat lo + unat k" using d(2) less.prems(1) by (simp add: word_less_nat_alt)
      with less.hyps [of k lo path] u less.prems True ne w d(1) ap parts(1) h(1) show ?thesis
        by (simp add: path_into.simps [of nh t m lo len])
    next
      case False
      then have "unat lo + unat k \<le> unat m" using d(2) less.prems(1) by (simp add: word_less_nat_alt)
      with less.hyps [of len' lo' path] u less.prems False ne w d(1) ap parts(2) h(2) show ?thesis
        by (simp add: path_into.simps [of nh t m lo len])
    qed
  qed
qed

lemma inclusion_path_correct:
  assumes "tree_inv lh nh es t" and "unat m < unat s" and "unat s \<le> length es"
  shows "inclusion_path nh t m s = Some (audit_path lh nh (unat m) (take (unat s) es))"
  using assms path_into_correct [OF assms(1), of 0 m s "[]"] tree_inv_size [OF assms(1)]
  by (simp add: inclusion_path_def word_less_nat_alt word_le_nat_alt)

lemma sub_proof_correct:
  assumes inv: "tree_inv lh nh es t"
  shows "0 < unat m \<Longrightarrow> unat m \<le> unat len \<Longrightarrow> unat lo + unat len \<le> length es \<Longrightarrow>
     aligned (unat lo) (unat len) \<Longrightarrow>
     sub_proof nh t m lo len anchored path =
       Some (path @ subproof lh nh (unat m) (take (unat len) (drop (unat lo) es)) anchored)"
proof (induction "unat len" arbitrary: m lo len anchored path rule: less_induct)
  case less
  let ?ds = "take (unat len) (drop (unat lo) es)"
  have ds: "length ?ds = unat len" using less.prems by simp
  show ?case
  proof (cases "m = len")
    case True
    have "range_hash nh t lo len = Some (range_mth lh nh es (unat lo) (unat len))"
      using True less.prems by (intro range_hash_correct [OF inv]) simp_all
    moreover have "subproof lh nh (unat m) ?ds anchored = (if anchored then [] else [mth lh nh ?ds])"
      using True ds by (simp add: subproof.simps)
    ultimately show ?thesis
      using True by (simp add: sub_proof.simps [of nh t len lo len] range_mth_def)
  next
    case False
    then have lt: "unat m < unat len" using less.prems(2) by (simp add: u64_eq_iff)
    then have len: "2 \<le> unat len" using less.prems(1) by simp
    from range_halves [OF inv len less.prems(3,4) refl] obtain k lo' len' where
      w: "split len = Some k" "u64_add lo k = Some lo'" "u64_sub len k = Some len'"
      and u: "unat k = split_nat (unat len)" "unat lo' = unat lo + unat k" "unat len' = unat len - unat k"
        "0 < unat k" "unat k < unat len" "aligned (unat lo) (unat k)" "aligned (unat lo') (unat len')"
      and parts: "take (unat k) ?ds = take (unat k) (drop (unat lo) es)"
        "drop (unat k) ?ds = take (unat len') (drop (unat lo') es)"
      and h: "range_hash nh t lo k = Some (mth lh nh (take (unat k) ?ds))"
        "range_hash nh t lo' len' = Some (mth lh nh (drop (unat k) ?ds))" by metis
    have sp: "subproof lh nh (unat m) ?ds anchored =
        (if m \<le> k then subproof lh nh (unat m) (take (unat k) ?ds) anchored @ [mth lh nh (drop (unat k) ?ds)]
         else subproof lh nh (unat m - unat k) (drop (unat k) ?ds) False @ [mth lh nh (take (unat k) ?ds)])"
      using len lt u(1) ds by (subst subproof.simps) (simp add: Let_def word_le_nat_alt)
    show ?thesis
    proof (cases "m \<le> k")
      case True
      with less.hyps [of k m lo anchored path] u less.prems False w sp parts(1) h(2) show ?thesis
        by (simp add: sub_proof.simps [of nh t m lo len] word_le_nat_alt)
    next
      case mk: False
      then have "u64_sub m k = Some (m - k)" "unat (m - k) = unat m - unat k"
        by (simp_all add: u64_sub_def word_le_nat_alt unat_sub)
      with less.hyps [of len' "m - k" lo' False path] u less.prems mk False w sp parts(2) h(1) show ?thesis
        by (simp add: sub_proof.simps [of nh t m lo len] word_le_nat_alt)
    qed
  qed
qed

lemma consistency_path_correct:
  assumes "tree_inv lh nh es t" and "unat m \<le> length es"
  shows "consistency_path nh t m = Some (consistency_proof lh nh (unat m) es)"
proof -
  have "\<not> tsize t < m" using assms tree_inv_size [OF assms(1)] by (simp add: word_less_nat_alt)
  moreover have "0 < m \<longleftrightarrow> unat m \<noteq> 0" by (simp add: word_less_nat_alt)
  moreover have "0 < unat m \<Longrightarrow> sub_proof nh t m 0 (tsize t) True [] = Some (subproof lh nh (unat m) es True)"
    using sub_proof_correct [OF assms(1), of m "tsize t" 0 True "[]"] assms(2) tree_inv_size [OF assms(1)]
    by simp
  ultimately show ?thesis by (auto simp: consistency_path_def consistency_proof_def)
qed

lemma leaf_hash_at_correct:
  assumes "tree_inv lh nh es t"
  shows "leaf_hash_at t seq = Some (if unat seq < length es then Some (lh (es ! unat seq)) else None)"
proof (cases "unat seq < length es")
  case True
  have "Option.bind (vec_get (levels t) 0) (\<lambda>l. vec_get l (unat seq)) = Some (lh (es ! unat seq))"
    using vec_get_level [OF assms, of "unat seq" 0] True by (simp add: hd_drop_conv_nth take_Suc)
  then show ?thesis
    using True tree_inv_size [OF assms] by (auto simp: leaf_hash_at_def word_less_nat_alt bind_eq_Some_conv)
next
  case False
  then show ?thesis using tree_inv_size [OF assms] by (simp add: leaf_hash_at_def word_less_nat_alt)
qed

section \<open>The interface the store relies on\<close>

text \<open>
  What a client of the tree may use: an abstraction relation to the list of entry
  commitments, an append that extends the list, and roots and proofs that are those of
  RFC 6962 at every prefix.
\<close>

locale append_only_log =
  fixes lh :: "'h \<Rightarrow> 'h"
    and nh :: "'h \<Rightarrow> 'h \<Rightarrow> 'h"
    and rep :: "'h list \<Rightarrow> 't \<Rightarrow> bool"
    and add :: "'t \<Rightarrow> 'h \<Rightarrow> 't checked"
    and root_at :: "'t \<Rightarrow> u64 \<Rightarrow> 'h option checked"
    and incl :: "'t \<Rightarrow> u64 \<Rightarrow> u64 \<Rightarrow> 'h proof_node list checked"
    and cons :: "'t \<Rightarrow> u64 \<Rightarrow> 'h list checked"
  assumes rep_bound: "rep es t \<Longrightarrow> length es < 2 ^ 64"
    and add_rep: "rep es t \<Longrightarrow> Suc (length es) < 2 ^ 64 \<Longrightarrow>
      \<exists>t'. add t e = Some t' \<and> rep (es @ [e]) t'"
    and root_at_rep: "rep es t \<Longrightarrow> unat s \<le> length es \<Longrightarrow>
      root_at t s = Some (mth_root lh nh (take (unat s) es))"
    and incl_rep: "rep es t \<Longrightarrow> unat m < unat s \<Longrightarrow> unat s \<le> length es \<Longrightarrow>
      incl t m s = Some (audit_path lh nh (unat m) (take (unat s) es))"
    and cons_rep: "rep es t \<Longrightarrow> unat s \<le> length es \<Longrightarrow>
      cons t s = Some (consistency_proof lh nh (unat s) es)"
begin

lemma incl_accepted:
  assumes "rep es t" and "unat m < unat s" and "unat s \<le> length es"
  shows "\<exists>path r. incl t m s = Some path \<and> root_at t s = Some (Some r) \<and>
    accepts_inclusion lh nh (es ! unat m) (unat m) (unat s) path r"
proof -
  let ?es = "take (unat s) es"
  have "accepts_inclusion lh nh (?es ! unat m) (unat m) (length ?es)
      (audit_path lh nh (unat m) ?es) (mth lh nh ?es)"
    using assms by (intro audit_path_accepted) simp
  moreover have "?es \<noteq> []" using assms by auto
  ultimately show ?thesis
    using assms incl_rep [OF assms] root_at_rep [OF assms(1,3)] by (auto simp: mth_root_def min_absorb2)
qed

lemma cons_accepted:
  assumes "rep es t" and "0 < unat s" and "unat s \<le> length es"
  shows "\<exists>path old new. cons t s = Some path \<and> root_at t s = Some (Some old) \<and>
    root_at t (as_u64 (length es)) = Some (Some new) \<and>
    accepts_consistency nh (unat s) old (length es) new path"
proof -
  have n: "unat (as_u64 (length es)) = length es" using rep_bound [OF assms(1)] by simp
  have "take (unat s) es \<noteq> []" and "es \<noteq> []" using assms by auto
  then show ?thesis
    using cons_rep [OF assms(1,3)] root_at_rep [OF assms(1,3)]
      root_at_rep [OF assms(1), of "as_u64 (length es)"] n consistency_proof_accepted [OF assms(3), of nh lh]
    by (simp add: mth_root_def)
qed

lemma add_keeps_history:
  assumes "rep es t" and "rep (es @ fs) t'"
  shows "unat s \<le> length es \<Longrightarrow> root_at t' s = root_at t s"
    and "unat m < unat s \<Longrightarrow> unat s \<le> length es \<Longrightarrow> incl t' m s = incl t m s"
  using assms by (simp_all add: root_at_rep incl_rep)

end

interpretation merkle: append_only_log lh nh "tree_inv lh nh" "append_tree lh nh"
    "root_at_size nh" "inclusion_path nh" "consistency_path nh" for lh nh
  by unfold_locales
    (auto dest: tree_inv_bound simp: append_tree_inv root_at_size_correct inclusion_path_correct
      consistency_path_correct)

text \<open>A tree built by appending to a new one.\<close>

primrec append_all ::
  "('h \<Rightarrow> 'h) \<Rightarrow> ('h \<Rightarrow> 'h \<Rightarrow> 'h) \<Rightarrow> 'h merkle_tree \<Rightarrow> 'h list \<Rightarrow> 'h merkle_tree checked" where
  "append_all lh nh t [] = Some t"
| "append_all lh nh t (e # es) = do { t' \<leftarrow> append_tree lh nh t e; append_all lh nh t' es }"

definition build_tree ::
  "('h \<Rightarrow> 'h) \<Rightarrow> ('h \<Rightarrow> 'h \<Rightarrow> 'h) \<Rightarrow> 'h list \<Rightarrow> 'h merkle_tree checked" where
  "build_tree lh nh es = append_all lh nh new_tree es"

lemma append_all_inv:
  "tree_inv lh nh es t \<Longrightarrow> length es + length fs < 2 ^ 64 \<Longrightarrow>
     \<exists>t'. append_all lh nh t fs = Some t' \<and> tree_inv lh nh (es @ fs) t'"
proof (induction fs arbitrary: es t)
  case (Cons f fs)
  then obtain t1 where t1: "append_tree lh nh t f = Some t1" "tree_inv lh nh (es @ [f]) t1"
    using merkle.add_rep [OF Cons.prems(1), of f] by auto
  have "length (es @ [f]) + length fs < 2 ^ 64" using Cons.prems(2) by simp
  from Cons.IH [OF t1(2) this] t1(1) show ?case by auto
qed simp

lemma build_tree_inv:
  "length es < 2 ^ 64 \<Longrightarrow> \<exists>t. build_tree lh nh es = Some t \<and> tree_inv lh nh es t"
  using append_all_inv [OF tree_inv_new, of es lh nh] by (simp add: build_tree_def)

lemma build_tree_Some: "build_tree lh nh es = Some t \<Longrightarrow> length es < 2 ^ 64 \<Longrightarrow> tree_inv lh nh es t"
  using build_tree_inv [of es lh nh] by auto

end
