(* ===== verification/Rust_Text.thy ===== *)
theory Rust_Text
  imports Log_Prelude "HOL-Library.Char_ord"
begin

text \<open>
  The parts of Rust's \<open>Result\<close>, \<open>str\<close> and integer formatting and parsing that the
  sources use. A Rust string is the list of its UTF-8 bytes (\<open>string\<close>), so
  \<open>length\<close> is \<open>str::len\<close>; \<open>trim\<close> removes the UTF-8 encodings of the characters
  with Unicode's White_Space property.
\<close>

section \<open>Results\<close>

text \<open>\<open>Result<T, E>\<close> is \<open>'e + 'a\<close>; \<open>rbind\<close> is the \<open>?\<close> operator.\<close>

definition rbind :: "'e + 'a \<Rightarrow> ('a \<Rightarrow> 'e + 'b) \<Rightarrow> 'e + 'b" where
  "rbind r f = (case r of Inl e \<Rightarrow> Inl e | Inr x \<Rightarrow> f x)"

definition ok_or :: "'a option \<Rightarrow> 'e \<Rightarrow> 'e + 'a" where
  "ok_or x e = (case x of None \<Rightarrow> Inl e | Some y \<Rightarrow> Inr y)"

definition map_err :: "('e \<Rightarrow> 'f) \<Rightarrow> 'e + 'a \<Rightarrow> 'f + 'a" where
  "map_err f = map_sum f id"

lemma rbind_simps [simp]: "rbind (Inr x) f = f x" "rbind (Inl e) f = Inl e"
  by (simp_all add: rbind_def)

lemma ok_or_simps [simp]: "ok_or (Some x) e = Inr x" "ok_or None e = Inl e"
  by (simp_all add: ok_or_def)

lemma map_err_simps [simp]: "map_err f (Inr x) = Inr x" "map_err f (Inl e) = Inl (f e)"
  by (simp_all add: map_err_def)

lemma rbind_eq_Inr_iff: "rbind r f = Inr y \<longleftrightarrow> (\<exists>x. r = Inr x \<and> f x = Inr y)"
  by (cases r) auto

lemma ok_or_eq_Inr_iff: "ok_or x e = Inr y \<longleftrightarrow> x = Some y"
  by (cases x) auto

lemma map_err_eq_Inr_iff [simp]: "map_err f r = Inr y \<longleftrightarrow> r = Inr y"
  by (cases r) auto

section \<open>Trimming, prefixes and splitting\<close>

text \<open>The White_Space characters in UTF-8: U+0009 to U+000D, U+0020, U+0085, U+00A0,
  U+1680, U+2000 to U+200A, U+2028, U+2029, U+202F, U+205F and U+3000.\<close>

definition white_space :: "string list" where
  "white_space = map (map char_of)
     ([[9], [10], [11], [12], [13], [32], [0xC2, 0x85], [0xC2, 0xA0], [0xE1, 0x9A, 0x80],
       [0xE2, 0x80, 0x80], [0xE2, 0x80, 0x81], [0xE2, 0x80, 0x82], [0xE2, 0x80, 0x83],
       [0xE2, 0x80, 0x84], [0xE2, 0x80, 0x85], [0xE2, 0x80, 0x86], [0xE2, 0x80, 0x87],
       [0xE2, 0x80, 0x88], [0xE2, 0x80, 0x89], [0xE2, 0x80, 0x8A], [0xE2, 0x80, 0xA8],
       [0xE2, 0x80, 0xA9], [0xE2, 0x80, 0xAF], [0xE2, 0x81, 0x9F], [0xE3, 0x80, 0x80]] :: nat list list)"

lemma white_space_chars [code]:
  "white_space =
    [[CHR 0x09], [CHR 0x0A], [CHR 0x0B], [CHR 0x0C], [CHR 0x0D], [CHR 0x20],
     [CHR 0xC2, CHR 0x85], [CHR 0xC2, CHR 0xA0], [CHR 0xE1, CHR 0x9A, CHR 0x80],
     [CHR 0xE2, CHR 0x80, CHR 0x80], [CHR 0xE2, CHR 0x80, CHR 0x81],
     [CHR 0xE2, CHR 0x80, CHR 0x82], [CHR 0xE2, CHR 0x80, CHR 0x83],
     [CHR 0xE2, CHR 0x80, CHR 0x84], [CHR 0xE2, CHR 0x80, CHR 0x85],
     [CHR 0xE2, CHR 0x80, CHR 0x86], [CHR 0xE2, CHR 0x80, CHR 0x87],
     [CHR 0xE2, CHR 0x80, CHR 0x88], [CHR 0xE2, CHR 0x80, CHR 0x89],
     [CHR 0xE2, CHR 0x80, CHR 0x8A], [CHR 0xE2, CHR 0x80, CHR 0xA8],
     [CHR 0xE2, CHR 0x80, CHR 0xA9], [CHR 0xE2, CHR 0x80, CHR 0xAF],
     [CHR 0xE2, CHR 0x81, CHR 0x9F], [CHR 0xE3, CHR 0x80, CHR 0x80]]"
  by (simp add: white_space_def char_of_def bit_0)

definition strip_prefix :: "'a list \<Rightarrow> 'a list \<Rightarrow> 'a list option" where
  "strip_prefix p s = (if take (length p) s = p then Some (drop (length p) s) else None)"

definition starts_with :: "'a list \<Rightarrow> 'a list \<Rightarrow> bool" where
  "starts_with p s \<longleftrightarrow> take (length p) s = p"

text \<open>Drop from the front while one of the (non-empty) words \<open>ws\<close> is a prefix.\<close>

function drop_words :: "'a list list \<Rightarrow> 'a list \<Rightarrow> 'a list" where
  "drop_words ws s =
     (case find (\<lambda>w. w \<noteq> [] \<and> starts_with w s) ws of
        None \<Rightarrow> s
      | Some w \<Rightarrow> drop_words ws (drop (length w) s))"
  by pat_completeness auto
termination
proof (relation "measure (\<lambda>(ws, s). length s)", goal_cases)
  case (2 ws s w)
  then have "w \<noteq> []" and "take (length w) s = w"
    by (auto simp: find_Some_iff starts_with_def)
  then show ?case by (cases s) auto
qed simp

declare drop_words.simps [simp del]

definition trim_start :: "string \<Rightarrow> string" where
  "trim_start s = drop_words white_space s"

definition trim_end :: "string \<Rightarrow> string" where
  "trim_end s = rev (drop_words (map rev white_space) (rev s))"

definition trim :: "string \<Rightarrow> string" where
  "trim s = trim_end (trim_start s)"

lemma drop_words_Nil [simp]: "drop_words ws [] = []"
  by (subst drop_words.simps) (auto simp: find_Some_iff starts_with_def split: option.split)

lemma trim_Nil [simp]: "trim [] = []"
  by (simp add: trim_def trim_start_def trim_end_def)

lemma strip_prefix_append [simp]: "strip_prefix p (p @ s) = Some s"
  by (simp add: strip_prefix_def)

lemma strip_prefix_eq_Some_iff: "strip_prefix p s = Some r \<longleftrightarrow> s = p @ r"
  by (auto simp: strip_prefix_def) (metis append_take_drop_id)

text \<open>\<open>split_once(c)\<close> and \<open>rsplit_once(c)\<close>.\<close>

definition split_once :: "char \<Rightarrow> string \<Rightarrow> (string \<times> string) option" where
  "split_once c s =
     (if c \<in> set s then Some (takeWhile (\<lambda>x. x \<noteq> c) s, tl (dropWhile (\<lambda>x. x \<noteq> c) s)) else None)"

definition rsplit_once :: "char \<Rightarrow> string \<Rightarrow> (string \<times> string) option" where
  "rsplit_once c s = map_option (\<lambda>(a, b). (rev b, rev a)) (split_once c (rev s))"

lemma split_once_append:
  "c \<notin> set a \<Longrightarrow> split_once c (a @ c # b) = Some (a, b)"
  by (simp add: split_once_def takeWhile_append dropWhile_append)

lemma rsplit_once_append:
  "c \<notin> set b \<Longrightarrow> rsplit_once c (a @ c # b) = Some (a, b)"
  using split_once_append [of c "rev b" "rev a"] by (simp add: rsplit_once_def)

lemma split_once_None: "c \<notin> set s \<Longrightarrow> split_once c s = None"
  by (simp add: split_once_def)

lemma rsplit_once_None: "c \<notin> set s \<Longrightarrow> rsplit_once c s = None"
  by (simp add: rsplit_once_def split_once_def)

section \<open>Lines\<close>

definition newline :: char where
  "newline = CHR 0x0A"

text \<open>\<open>BufRead::lines\<close> and \<open>str::lines\<close>: a line ends at LF, a CR just before it is dropped, a last line
  without LF counts when it is not empty.\<close>

definition strip_cr :: "string \<Rightarrow> string" where
  "strip_cr l = (if l \<noteq> [] \<and> last l = CHR 0x0D then butlast l else l)"

primrec lines_from :: "string \<Rightarrow> string \<Rightarrow> string list" where
  "lines_from acc [] = (if acc = [] then [] else [acc])"
| "lines_from acc (c # cs) =
     (if c = newline then strip_cr acc # lines_from [] cs else lines_from (acc @ [c]) cs)"

definition raw_lines :: "string \<Rightarrow> string list" where
  "raw_lines s = lines_from [] s"

lemma lines_from_no_newline:
  "newline \<notin> set s \<Longrightarrow> lines_from acc (s @ cs) = lines_from (acc @ s) cs"
  by (induction s arbitrary: acc) auto

lemma raw_lines_last: "newline \<notin> set s \<Longrightarrow> raw_lines s = (if s = [] then [] else [s])"
  using lines_from_no_newline [of s "[]" "[]"] by (simp add: raw_lines_def)

lemma raw_lines_line:
  "newline \<notin> set l \<Longrightarrow> raw_lines (l @ newline # cs) = strip_cr l # raw_lines cs"
  using lines_from_no_newline [of l "[]" "newline # cs"] by (simp add: raw_lines_def)

text \<open>\<open>to_ascii_lowercase\<close>, \<open>contains\<close> and \<open>split_whitespace\<close>.\<close>

definition ascii_lower :: "char \<Rightarrow> char" where
  "ascii_lower c = (let n = of_char c :: nat in if 65 \<le> n \<and> n \<le> 90 then char_of (n + 32) else c)"

primrec contains :: "'a list \<Rightarrow> 'a list \<Rightarrow> bool" where
  "contains w [] \<longleftrightarrow> w = []"
| "contains w (c # cs) \<longleftrightarrow> starts_with w (c # cs) \<or> contains w cs"

definition at_white_space :: "string \<Rightarrow> bool" where
  "at_white_space s = list_ex (\<lambda>w. starts_with w s) white_space"

primrec span_word :: "string \<Rightarrow> string \<times> string" where
  "span_word [] = ([], [])"
| "span_word (c # cs) =
     (if at_white_space (c # cs) then ([], c # cs)
      else (case span_word cs of (w, rest) \<Rightarrow> (c # w, rest)))"

text \<open>The first \<open>n\<close> words; \<open>split_whitespace().nth(i)\<close> looks at no more than \<open>i + 1\<close>.\<close>

primrec words_upto :: "nat \<Rightarrow> string \<Rightarrow> string list" where
  "words_upto 0 s = []"
| "words_upto (Suc n) s =
     (let t = trim_start s in
      if t = [] then [] else (case span_word t of (w, rest) \<Rightarrow> w # words_upto n rest))"

definition nth_word :: "nat \<Rightarrow> string \<Rightarrow> string option" where
  "nth_word i s = get_opt (words_upto (Suc i) s) i"

section \<open>Integers as text\<close>

definition digit_char :: "nat \<Rightarrow> char" where
  "digit_char d = char_of (if d < 10 then 48 + d else 87 + d)"

definition digit_val :: "nat \<Rightarrow> char \<Rightarrow> nat option" where
  "digit_val radix c =
     (let n = of_char c;
          v = (if 48 \<le> n \<and> n \<le> 57 then n - 48
               else if 97 \<le> n \<and> n \<le> 122 then n - 87
               else if 65 \<le> n \<and> n \<le> 90 then n - 55 else radix)
      in if v < radix then Some v else None)"

text \<open>Decimal formatting of an unsigned integer.\<close>

fun show_nat :: "nat \<Rightarrow> string" where
  "show_nat n = (if n < 10 then [digit_char n] else show_nat (n div 10) @ [digit_char (n mod 10)])"

declare show_nat.simps [simp del]

text \<open>
  \<open>from_str_radix\<close> of an unsigned type of \<open>bits\<close> bits, and so \<open>parse\<close> with radix
  10: one leading \<open>+\<close> is accepted, an empty string, a lone sign, a character that is
  not a digit and an overflow are errors.
\<close>

definition digits_val :: "nat \<Rightarrow> string \<Rightarrow> nat option" where
  "digits_val radix = foldl (\<lambda>acc c. case (acc, digit_val radix c) of
      (Some a, Some d) \<Rightarrow> Some (a * radix + d) | _ \<Rightarrow> None) (Some 0)"

definition from_str_radix :: "nat \<Rightarrow> nat \<Rightarrow> string \<Rightarrow> nat option" where
  "from_str_radix bits radix s =
     (if s = [] then None
      else let ds = (if hd s = CHR ''+'' \<and> tl s \<noteq> [] then tl s else s) in
        case digits_val radix ds of
          None \<Rightarrow> None
        | Some v \<Rightarrow> if v < 2 ^ bits then Some v else None)"

lemma digit_val_char:
  assumes "d < radix" and "radix \<le> 36"
  shows "digit_val radix (digit_char d) = Some d"
proof (cases "d < 10")
  case True
  then have "of_char (digit_char d) = (48 + d :: nat)" by (simp add: digit_char_def)
  then show ?thesis using assms True by (simp add: digit_val_def)
next
  case False
  then have "of_char (digit_char d) = (87 + d :: nat)" using assms by (simp add: digit_char_def)
  then show ?thesis using assms False by (simp add: digit_val_def)
qed

lemma digit_char_not_plus: "d < 36 \<Longrightarrow> digit_char d \<noteq> CHR ''+''"
proof
  assume "d < 36" and "digit_char d = CHR ''+''"
  then have "digit_val 36 (CHR ''+'') = Some d" using digit_val_char [of d 36] by simp
  then show False by (simp add: digit_val_def)
qed

lemma digits_val_snoc:
  "digits_val radix (s @ [c]) =
     (case (digits_val radix s, digit_val radix c) of (Some a, Some d) \<Rightarrow> Some (a * radix + d) | _ \<Rightarrow> None)"
  by (simp add: digits_val_def)

lemma digits_val_show_nat: "digits_val 10 (show_nat n) = Some n"
proof (induction n rule: show_nat.induct)
  case (1 n)
  show ?case
  proof (cases "n < 10")
    case True
    then show ?thesis
      using digit_val_char [of n 10] by (simp add: show_nat.simps [of n] digits_val_def)
  next
    case False
    then show ?thesis
      using "1.IH" digit_val_char [of "n mod 10" 10]
      by (simp add: show_nat.simps [of n] digits_val_snoc)
  qed
qed

lemma show_nat_first: "\<exists>d ds. show_nat n = digit_char d # ds \<and> d < 10"
proof (induction n rule: show_nat.induct)
  case (1 n)
  then show ?case by (cases "n < 10") (auto simp: show_nat.simps [of n])
qed

text \<open>Parsing a formatted number gives it back, whenever it fits.\<close>

lemma from_str_radix_show_nat:
  assumes "n < 2 ^ bits"
  shows "from_str_radix bits 10 (show_nat n) = Some n"
proof -
  obtain d ds where s: "show_nat n = digit_char d # ds" "d < 10" using show_nat_first by blast
  then have "hd (show_nat n) \<noteq> CHR ''+''" using digit_char_not_plus [of d] by simp
  then show ?thesis using s assms digits_val_show_nat [of n] by (simp add: from_str_radix_def)
qed

lemma show_nat_chars: "c \<in> set (show_nat n) \<Longrightarrow> (48::nat) \<le> of_char c \<and> of_char c \<le> (57::nat)"
proof (induction n rule: show_nat.induct)
  case (1 n)
  have d: "of_char (digit_char k) = (48 + k :: nat)" if "k < 10" for k
    using that by (simp add: digit_char_def)
  show ?case
  proof (cases "n < 10")
    case True
    then show ?thesis using "1.prems" d [of n] by (simp add: show_nat.simps [of n])
  next
    case False
    then show ?thesis
      using "1.prems" "1.IH" d [of "n mod 10"] by (auto simp: show_nat.simps [of n])
  qed
qed

lemma show_nat_not_in: "\<not> (48 \<le> (of_char c :: nat) \<and> of_char c \<le> (57::nat)) \<Longrightarrow> c \<notin> set (show_nat n)"
  using show_nat_chars by blast

lemma from_str_radix_less: "from_str_radix bits radix s = Some v \<Longrightarrow> v < 2 ^ bits"
  by (auto simp: from_str_radix_def Let_def split: if_splits option.splits)

lemma split_once_Some:
  assumes "split_once c s = Some (a, b)"
  shows "s = a @ c # b" and "c \<notin> set a"
proof -
  have c: "c \<in> set s" and a: "a = takeWhile (\<lambda>x. x \<noteq> c) s" and b: "b = tl (dropWhile (\<lambda>x. x \<noteq> c) s)"
    using assms by (auto simp: split_once_def split: if_splits)
  have ne: "dropWhile (\<lambda>x. x \<noteq> c) s \<noteq> []" using c by (simp add: dropWhile_eq_Nil_conv)
  have "hd (dropWhile (\<lambda>x. x \<noteq> c) s) = c" using hd_dropWhile [OF ne] by simp
  then have "dropWhile (\<lambda>x. x \<noteq> c) s = c # b" using ne b by (metis list.collapse)
  then show "s = a @ c # b" using a by (metis takeWhile_dropWhile_id)
  show "c \<notin> set a" using a set_takeWhileD by fastforce
qed

lemma rsplit_once_Some:
  "rsplit_once c s = Some (a, b) \<Longrightarrow> s = a @ c # b \<and> c \<notin> set b"
  using split_once_Some [of c "rev s"] rev_rev_ident [of s] by (auto simp: rsplit_once_def simp del: rev_rev_ident)

text \<open>Text of visible ASCII characters is not changed by \<open>trim\<close>.\<close>

lemma drop_words_none:
  "find (\<lambda>w. w \<noteq> [] \<and> starts_with w s) ws = None \<Longrightarrow> drop_words ws s = s"
  by (subst drop_words.simps) simp

definition visible :: "char \<Rightarrow> bool" where
  "visible c \<longleftrightarrow> 33 \<le> (of_char c :: nat) \<and> (of_char c :: nat) \<le> 126"

lemma white_space_ends: "\<forall>w\<in>set white_space. w \<noteq> [] \<and> \<not> visible (hd w) \<and> \<not> visible (last w)"
  by code_simp

lemma drop_words_visible:
  assumes "\<forall>w\<in>set ws. w \<noteq> [] \<and> \<not> visible (hd w)" and "s \<noteq> [] \<Longrightarrow> visible (hd s)"
  shows "drop_words ws s = s"
proof (rule drop_words_none)
  have "\<not> starts_with w s" if "w \<in> set ws" for w
    using assms that by (cases w; cases s) (auto simp: starts_with_def)
  then show "find (\<lambda>w. w \<noteq> [] \<and> starts_with w s) ws = None" by (auto simp: find_None_iff)
qed

lemma trim_visible: "\<forall>c\<in>set s. visible c \<Longrightarrow> trim s = s"
proof -
  assume v: "\<forall>c\<in>set s. visible c"
  have "trim_start s = s"
    unfolding trim_start_def using white_space_ends v by (intro drop_words_visible) auto
  moreover have "drop_words (map rev white_space) (rev s) = rev s"
    using white_space_ends v by (intro drop_words_visible) (auto simp: hd_rev)
  ultimately show ?thesis by (simp add: trim_def trim_end_def)
qed

lemma trim_space: "trim (CHR '' '' # s) = trim s"
proof -
  have "find (\<lambda>w. w \<noteq> [] \<and> starts_with w (CHR '' '' # s)) white_space = Some [CHR '' '']"
    unfolding white_space_chars by (simp add: starts_with_def)
  then have "drop_words white_space (CHR '' '' # s) = drop_words white_space s"
    using drop_words.simps [of white_space "CHR '' '' # s"] by simp
  then show ?thesis by (simp add: trim_def trim_start_def)
qed

lemma trim_show_nat [simp]: "trim (show_nat n) = show_nat n"
  using show_nat_chars [of _ n] by (intro trim_visible) (force simp: visible_def)

lemma show_nat_not_Nil [simp]: "show_nat n \<noteq> []"
  using show_nat_first [of n] by auto

end
