(* ===== verification/Json.thy ===== *)
theory Json
  imports Rust_Text "HOL-Library.Finite_Map"
begin

text \<open>
  The JSON values of \<open>serde_json\<close> as the sources use them: the constructors of
  \<open>Value\<close> and \<open>Number\<close>, the accessors that return an option, and objects as finite
  maps (the \<open>json!\<close> macro and \<open>Map::insert\<close> build them, equality of two objects
  ignores the order of the keys). Parsing and printing text are third-party code: they
  are fields of the record of external functions of theory \<open>Commit_Record\<close>.
\<close>

datatype json_number = PosInt u64 | NegInt int | Float u64

datatype json =
    JNull
  | JBool bool
  | JNumber json_number
  | JString string
  | JArray "json list"
  | JObject "(string, json) fmap"

definition json_object :: "(string \<times> json) list \<Rightarrow> json" where
  "json_object kvs = JObject (fmap_of_list kvs)"

fun as_object :: "json \<Rightarrow> (string, json) fmap option" where
  "as_object (JObject m) = Some m"
| "as_object _ = None"

fun as_array :: "json \<Rightarrow> json list option" where
  "as_array (JArray xs) = Some xs"
| "as_array _ = None"

fun as_str :: "json \<Rightarrow> string option" where
  "as_str (JString s) = Some s"
| "as_str _ = None"

fun number_as_u64 :: "json_number \<Rightarrow> u64 option" where
  "number_as_u64 (PosInt n) = Some n"
| "number_as_u64 _ = None"

fun as_u64_json :: "json \<Rightarrow> u64 option" where
  "as_u64_json (JNumber n) = number_as_u64 n"
| "as_u64_json _ = None"

text \<open>\<open>Value::get\<close>: the member of an object, nothing on any other value.\<close>

definition get :: "json \<Rightarrow> string \<Rightarrow> json option" where
  "get v k = (case as_object v of None \<Rightarrow> None | Some m \<Rightarrow> fmlookup m k)"

text \<open>The JSON of an \<open>Option<u64>\<close>.\<close>

fun json_opt_u64 :: "u64 option \<Rightarrow> json" where
  "json_opt_u64 None = JNull"
| "json_opt_u64 (Some n) = JNumber (PosInt n)"

lemma get_json_object [simp]: "get (json_object kvs) k = map_of kvs k"
  by (simp add: get_def json_object_def fmlookup_of_list)

lemma as_object_json_object [simp]: "as_object (json_object kvs) = Some (fmap_of_list kvs)"
  by (simp add: json_object_def)

lemma as_str_Some_iff: "as_str v = Some s \<longleftrightarrow> v = JString s"
  by (cases v) auto

lemma as_u64_json_Some_iff: "as_u64_json v = Some n \<longleftrightarrow> v = JNumber (PosInt n)"
  by (cases v rule: as_u64_json.cases) (auto split: json_number.split elim: number_as_u64.elims)

end
