(* ===== verification/Commit_Record.thy ===== *)
theory Commit_Record
  imports Json
begin

text \<open>
  The commit record of \<open>src/model.rs\<close> (lines 24 to 91) with its JSON form, the
  journal's storage unit, and the hex helpers of the same file.

  The record \<open>deps\<close> collects the functions of other crates that the log relies on:
  the two hashes of \<open>unidpp_signatif::anchor\<close>, the text forms of \<open>Hash\<close> and
  \<open>Timestamp\<close> of \<open>unidpp_model\<close> (both types are type parameters), and the parser
  and printer of \<open>serde_json\<close>.
\<close>

record ('h, 't) deps =
  leaf_hash :: "'h \<Rightarrow> 'h"
  node_hash :: "'h \<Rightarrow> 'h \<Rightarrow> 'h"
  hash_hex :: "'h \<Rightarrow> string"
  hash_from_hex :: "string \<Rightarrow> 'h option"
  ts_to_string :: "'t \<Rightarrow> string"
  ts_parse :: "string \<Rightarrow> 't option"
  json_from_str :: "string \<Rightarrow> string + json"
  json_to_string :: "json \<Rightarrow> string + string"

text \<open>The documented round trips of the two text forms.\<close>

definition text_forms_ok :: "('h, 't) deps \<Rightarrow> bool" where
  "text_forms_ok D \<longleftrightarrow>
     (\<forall>h. hash_from_hex D (hash_hex D h) = Some h) \<and>
     (\<forall>t. ts_parse D (ts_to_string D t) = Some t)"

section \<open>The record\<close>

record ('h, 't) commit_record =
  seq :: u64
  logged_at :: 't
  subject :: string
  commitment :: 'h
  salt_ref :: "u64 option"

definition record_to_json :: "('h, 't) deps \<Rightarrow> ('h, 't) commit_record \<Rightarrow> json" where
  "record_to_json D r = json_object
     [(''seq'', JNumber (PosInt (seq r))),
      (''logged_at'', JString (ts_to_string D (logged_at r))),
      (''subject'', JString (subject r)),
      (''commitment'', JString (hash_hex D (commitment r))),
      (''salt_ref'', json_opt_u64 (salt_ref r))]"

definition record_from_json ::
  "('h, 't) deps \<Rightarrow> json \<Rightarrow> string + ('h, 't) commit_record" where
  "record_from_json D v =
     rbind (ok_or (as_object v) ''commit record must be an object'') (\<lambda>obj.
     rbind (ok_or (Option.bind (fmlookup obj ''seq'') as_u64_json) ''missing `seq`'') (\<lambda>sq.
     rbind (ok_or (Option.bind (Option.bind (fmlookup obj ''logged_at'') as_str) (ts_parse D))
              ''missing/invalid `logged_at`'') (\<lambda>at.
     rbind (ok_or (Option.bind (fmlookup obj ''subject'') as_str) ''missing `subject`'') (\<lambda>sub.
     rbind (ok_or (Option.bind (Option.bind (fmlookup obj ''commitment'') as_str) (hash_from_hex D))
              ''missing/invalid `commitment` (64-char hex)'') (\<lambda>com.
     rbind (case fmlookup obj ''salt_ref'' of
              None \<Rightarrow> Inr None
            | Some JNull \<Rightarrow> Inr None
            | Some (JNumber n) \<Rightarrow>
                rbind (ok_or (number_as_u64 n) ''`salt_ref` must be a u64'') (\<lambda>u. Inr (Some u))
            | Some _ \<Rightarrow> Inl ''`salt_ref` must be an unsigned integer'') (\<lambda>salt.
     Inr \<lparr>seq = sq, logged_at = at, subject = sub, commitment = com, salt_ref = salt\<rparr>))))))"

lemma record_round_trip:
  assumes "text_forms_ok D"
  shows "record_from_json D (record_to_json D r) = Inr r"
  using assms
  by (cases r; cases "salt_ref r")
    (simp_all add: record_from_json_def record_to_json_def text_forms_ok_def fmlookup_of_list)

lemma record_to_json_inj:
  assumes "text_forms_ok D" and "record_to_json D r = record_to_json D r'"
  shows "r = r'"
proof -
  have "Inr r = (Inr r' :: string + _)"
    using record_round_trip [OF assms(1), of r] record_round_trip [OF assms(1), of r'] assms(2)
    by (simp only:)
  then show ?thesis by simp
qed

text \<open>A record is accepted only with its four mandatory members, each of its own type.\<close>

lemma record_from_json_members:
  assumes "record_from_json D v = Inr r"
  shows "get v ''seq'' = Some (JNumber (PosInt (seq r)))"
    and "get v ''subject'' = Some (JString (subject r))"
    and "\<exists>s. get v ''logged_at'' = Some (JString s) \<and> ts_parse D s = Some (logged_at r)"
    and "\<exists>s. get v ''commitment'' = Some (JString s) \<and> hash_from_hex D s = Some (commitment r)"
  using assms
  by (auto simp: record_from_json_def rbind_eq_Inr_iff ok_or_eq_Inr_iff bind_eq_Some_conv get_def
      as_str_Some_iff as_u64_json_Some_iff)

section \<open>Hex\<close>

type_synonym bytes = "u8 list"

text \<open>The bytes of a string and the string of bytes (\<open>as_bytes\<close>, \<open>from_utf8\<close>).\<close>

definition of_str :: "string \<Rightarrow> bytes" where
  "of_str = map (\<lambda>c. word_of_nat (of_char c))"

definition to_str :: "bytes \<Rightarrow> string" where
  "to_str = map (\<lambda>b. char_of (unat b))"

text \<open>\<open>{b:02x}\<close> and \<open>hex_encode\<close>.\<close>

definition hex_byte :: "u8 \<Rightarrow> string" where
  "hex_byte b = [digit_char (unat b div 16), digit_char (unat b mod 16)]"

definition hex_encode :: "bytes \<Rightarrow> string" where
  "hex_encode bs = concat (map hex_byte bs)"

text \<open>
  \<open>hex_decode\<close>. Slicing a string inside a multi-byte character panics: \<open>is_boundary\<close>
  is \<open>str::is_char_boundary\<close> on UTF-8 bytes. \<open>u8::from_str_radix\<close> accepts a leading
  \<open>+\<close>, so \<open>+f\<close> decodes to 15.
\<close>

definition is_boundary :: "string \<Rightarrow> nat \<Rightarrow> bool" where
  "is_boundary s i \<longleftrightarrow> i = 0 \<or> i = length s \<or>
     i < length s \<and> \<not> (128 \<le> (of_char (s ! i) :: nat) \<and> (of_char (s ! i) :: nat) < 192)"

definition str_slice :: "string \<Rightarrow> nat \<Rightarrow> nat \<Rightarrow> string checked" where
  "str_slice s i j =
     (if i \<le> j \<and> j \<le> length s \<and> is_boundary s i \<and> is_boundary s j
      then Some (take (j - i) (drop i s)) else None)"

text \<open>The mapped range is collected into an \<open>Option\<close>: it stops at the first failure.\<close>

primrec decode_pairs :: "string \<Rightarrow> nat list \<Rightarrow> bytes option checked" where
  "decode_pairs s [] = Some (Some [])"
| "decode_pairs s (i # is) = do {
     p \<leftarrow> str_slice s (2 * i) (2 * i + 2);
     case from_str_radix 8 16 p of
       None \<Rightarrow> Some None
     | Some b \<Rightarrow> do {
         rest \<leftarrow> decode_pairs s is;
         Some (map_option (\<lambda>bs. word_of_nat b # bs) rest) } }"

definition hex_decode :: "string \<Rightarrow> bytes option checked" where
  "hex_decode s =
     (if length s mod 2 \<noteq> 0 then Some None else decode_pairs s [0..<length s div 2])"

lemma hex_pair:
  "from_str_radix 8 16 (hex_byte b) = Some (unat b)"
proof -
  have b: "unat b < 256" using unsigned_less [of b, where ?'a = nat] by simp
  then have d: "unat b div 16 < 16" "unat b mod 16 < 16" by simp_all
  have "digit_char (unat b div 16) \<noteq> CHR ''+''" using d by (intro digit_char_not_plus) simp
  then show ?thesis
    using b d by (simp add: hex_byte_def from_str_radix_def digits_val_def digit_val_char)
qed

lemma length_hex_byte [simp]: "length (hex_byte b) = 2"
  by (simp add: hex_byte_def)

lemma length_hex_encode [simp]: "length (hex_encode bs) = 2 * length bs"
  by (induction bs) (simp_all add: hex_encode_def)

lemma digit_char_ascii: "d < 36 \<Longrightarrow> (of_char (digit_char d) :: nat) < 128"
  by (simp add: digit_char_def)

lemma hex_encode_ascii: "\<forall>c \<in> set (hex_encode bs). (of_char c :: nat) < 128"
proof -
  have "unat b div 16 < 36" "unat b mod 16 < 36" for b :: u8
    using unsigned_less [of b, where ?'a = nat] by simp_all
  then show ?thesis by (auto simp: hex_encode_def hex_byte_def digit_char_ascii)
qed

text \<open>Valid pairs in front of any text that starts at a character boundary.\<close>

definition starts_char :: "string \<Rightarrow> bool" where
  "starts_char t \<longleftrightarrow> t = [] \<or> \<not> (128 \<le> (of_char (hd t) :: nat) \<and> (of_char (hd t) :: nat) < 192)"

lemma hex_boundary:
  assumes "starts_char t" and "i \<le> 2 * length bs"
  shows "is_boundary (hex_encode bs @ t) i"
proof (cases "i < 2 * length bs")
  case True
  then have "(hex_encode bs @ t) ! i \<in> set (hex_encode bs)" by (simp add: nth_append)
  then have "(of_char ((hex_encode bs @ t) ! i) :: nat) < 128" using hex_encode_ascii by blast
  with True show ?thesis by (simp add: is_boundary_def)
next
  case False
  then have "i = length (hex_encode bs)" using assms(2) by simp
  with assms(1) show ?thesis
    by (cases t) (auto simp: is_boundary_def starts_char_def nth_append simp del: length_hex_encode)
qed

lemma decode_pairs_append:
  assumes "starts_char t"
  shows "decode_pairs (hex_encode (as @ bs) @ t) ([length as..<length as + length bs] @ is)
    = map_option (map_option ((@) bs)) (decode_pairs (hex_encode (as @ bs) @ t) is)"
proof (induction bs arbitrary: as)
  case Nil
  have "map_option (map_option (\<lambda>a. a)) y = y" for y :: "bytes option option"
    by (simp add: option.map_ident [abs_def])
  then show ?case by simp
next
  case (Cons b bs)
  let ?s = "hex_encode (as @ b # bs) @ t"
  have s: "?s = hex_encode as @ hex_byte b @ (hex_encode bs @ t)" by (simp add: hex_encode_def)
  have "take 2 (drop (2 * length as) ?s) = hex_byte b"
    unfolding s by (simp flip: length_hex_encode)
  moreover have "is_boundary ?s (2 * length as)" "is_boundary ?s (2 * length as + 2)"
    by (rule hex_boundary [OF assms], simp)+
  ultimately have "str_slice ?s (2 * length as) (2 * length as + 2) = Some (hex_byte b)"
    by (simp add: str_slice_def)
  moreover have "[length as..<length as + length (b # bs)]
      = length as # [length (as @ [b])..<length (as @ [b]) + length bs]"
    by (simp add: upt_conv_Cons del: upt_Suc)
  ultimately show ?case using Cons.IH [of "as @ [b]"] hex_pair [of b]
    by (simp add: option.map_comp comp_def del: upt_Suc) (auto simp: bind_map_option map_option_bind map_conv_bind_option bind_assoc option.map_comp comp_def del: upt_Suc)
qed

lemma hex_decode_prefix:
  assumes "starts_char t" and "even (length t)"
  shows "hex_decode (hex_encode bs @ t)
    = map_option (map_option ((@) bs)) (decode_pairs (hex_encode bs @ t) [length bs..<length bs + length t div 2])"
proof -
  have "[0..<length bs + length t div 2] = [0..<length bs] @ [length bs..<length bs + length t div 2]"
    by (rule upt_add_eq_append) simp
  then show ?thesis using assms(2) decode_pairs_append [OF assms(1), of "[]" bs]
    by (simp add: hex_decode_def)
qed

lemma hex_round_trip: "hex_decode (hex_encode bs) = Some (Some bs)"
  using hex_decode_prefix [of "[]" bs] by (simp add: starts_char_def)

end
