(* ===== verification/Store.thy ===== *)
theory Store
  imports Tree Commit_Record
begin

text \<open>
  \<open>src/store.rs\<close>: sequencing, the in-memory tree over the sequenced entries, and the
  JSONL journal with its replay. The contents of the journal file are part of the
  state; what the file system answers (directory creation, opening, reading a line,
  how much of a write gets through) is an argument.
\<close>

section \<open>State\<close>

datatype store_error = Journal string

definition store_error_to_string :: "store_error \<Rightarrow> string" where
  "store_error_to_string e = (case e of Journal m \<Rightarrow> ''journal integrity failure: '' @ m)"

text \<open>\<open>journal\<close> is the contents of the file open for append, \<open>None\<close> in memory.\<close>

record ('h, 't) log_store =
  tree :: "'h merkle_tree"
  entries :: "('h, 't) commit_record list"
  journal :: "string option"

text \<open>
  The file system as \<open>open\<close> meets it at the journal's path: the errors of creating
  the parent directory, of opening for reading and for append, the contents if the file
  exists, and the outcome of reading one raw line (its text, or an I/O error such as
  invalid UTF-8).
\<close>

record journal_file =
  has_parent :: bool
  mkdir_error :: "string option"
  contents :: "string option"
  read_error :: "string option"
  read_line :: "string \<Rightarrow> string + string"
  open_error :: "string option"

text \<open>The outcome of \<open>writeln!\<close> and \<open>flush\<close>: an error after \<open>n\<close> bytes were written.\<close>

datatype write_outcome = Wrote | Write_Failed nat string

section \<open>Operations\<close>

definition apply_record ::
  "('h, 't) deps \<Rightarrow> ('h, 't) log_store \<Rightarrow> ('h, 't) commit_record \<Rightarrow> ('h, 't) log_store checked" where
  "apply_record D st r = do {
     t \<leftarrow> append_tree (leaf_hash D) (node_hash D) (tree st) (commitment r);
     Some (st\<lparr>tree := t, entries := entries st @ [r]\<rparr>) }"

definition parse_line :: "('h, 't) deps \<Rightarrow> string \<Rightarrow> string + ('h, 't) commit_record" where
  "parse_line D line = rbind (json_from_str D line) (record_from_json D)"

text \<open>
  The body of the replay loop for one line: \<open>is_last\<close> is the look-ahead that found no
  further line. A torn last line is skipped (and reported on stderr, not modelled).
\<close>

definition replay_line ::
  "('h, 't) deps \<Rightarrow> nat \<Rightarrow> string \<Rightarrow> bool \<Rightarrow> ('h, 't) log_store
     \<Rightarrow> (store_error + ('h, 't) log_store) checked" where
  "replay_line D line_no line is_last st =
     (case parse_line D line of
        Inr r \<Rightarrow>
          if seq r \<noteq> as_u64 (length (entries st))
          then Some (Inl (Journal (''line '' @ show_nat line_no @ '': seq '' @ show_nat (unat (seq r))
                 @ '' is out of sequence (expected '' @ show_nat (length (entries st)) @ '')'')))
          else do { st' \<leftarrow> apply_record D st r; Some (Inr st') }
      | Inl e \<Rightarrow>
          if is_last \<and> trim line \<noteq> [] then Some (Inr st)
          else Some (Inl (Journal (''line '' @ show_nat line_no @ '': '' @ e))))"

fun replay_lines ::
  "('h, 't) deps \<Rightarrow> (string \<Rightarrow> string + string) \<Rightarrow> nat \<Rightarrow> string \<Rightarrow> string list
     \<Rightarrow> ('h, 't) log_store \<Rightarrow> (store_error + ('h, 't) log_store) checked" where
  "replay_lines D rd line_no line [] st = replay_line D line_no line True st"
| "replay_lines D rd line_no line (raw # rest) st =
     (case rd raw of
        Inl e \<Rightarrow> Some (Inl (Journal (''journal read error: '' @ e)))
      | Inr line' \<Rightarrow> do {
          res \<leftarrow> replay_line D line_no line False st;
          case res of
            Inl e \<Rightarrow> Some (Inl e)
          | Inr st' \<Rightarrow> replay_lines D rd (line_no + 1) line' rest st' })"

definition replay ::
  "('h, 't) deps \<Rightarrow> journal_file \<Rightarrow> string \<Rightarrow> ('h, 't) log_store
     \<Rightarrow> (store_error + ('h, 't) log_store) checked" where
  "replay D f text st =
     (case read_error f of
        Some e \<Rightarrow> Some (Inl (Journal (''cannot read journal: '' @ e)))
      | None \<Rightarrow>
          (case raw_lines text of
             [] \<Rightarrow> Some (Inr st)
           | raw # rest \<Rightarrow>
               (case read_line f raw of
                  Inl e \<Rightarrow> Some (Inl (Journal (''journal read error: '' @ e)))
                | Inr line \<Rightarrow> replay_lines D (read_line f) 1 line rest st)))"

definition empty_store :: "('h, 't) log_store" where
  "empty_store = \<lparr>tree = new_tree, entries = [], journal = None\<rparr>"

definition open_store ::
  "('h, 't) deps \<Rightarrow> journal_file option \<Rightarrow> (store_error + ('h, 't) log_store) checked" where
  "open_store D jf =
     (case jf of
        None \<Rightarrow> Some (Inr empty_store)
      | Some f \<Rightarrow>
          (case (if has_parent f then mkdir_error f else None) of
             Some e \<Rightarrow> Some (Inl (Journal (''cannot create journal dir: '' @ e)))
           | None \<Rightarrow> do {
               res \<leftarrow> (case contents f of
                         Some text \<Rightarrow> replay D f text empty_store
                       | None \<Rightarrow> Some (Inr empty_store));
               Some (rbind res (\<lambda>st.
                 case open_error f of
                   Some e \<Rightarrow> Inl (Journal (''cannot open journal: '' @ e))
                 | None \<Rightarrow> Inr (st\<lparr>journal :=
                     Some (case contents f of Some text \<Rightarrow> text | None \<Rightarrow> [])\<rparr>))) }))"

definition store_append ::
  "('h, 't) deps \<Rightarrow> write_outcome \<Rightarrow> ('h, 't) log_store \<Rightarrow> string \<Rightarrow> 'h \<Rightarrow> u64 option \<Rightarrow> 't
     \<Rightarrow> (('h, 't) log_store \<times> (store_error + ('h, 't) commit_record)) checked" where
  "store_append D w st sub com salt at =
     (let r = \<lparr>seq = as_u64 (length (entries st)), logged_at = at, subject = sub,
               commitment = com, salt_ref = salt\<rparr>
      in case journal st of
           None \<Rightarrow> do { st' \<leftarrow> apply_record D st r; Some (st', Inr r) }
         | Some text \<Rightarrow>
             (case json_to_string D (record_to_json D r) of
                Inl e \<Rightarrow> Some (st, Inl (Journal (''cannot serialize record: '' @ e)))
              | Inr line \<Rightarrow>
                  (case w of
                     Write_Failed n e \<Rightarrow>
                       Some (st\<lparr>journal := Some (text @ take n (line @ [newline]))\<rparr>,
                             Inl (Journal (''journal write failed: '' @ e)))
                   | Wrote \<Rightarrow> do {
                       st' \<leftarrow> apply_record D (st\<lparr>journal := Some (text @ line @ [newline])\<rparr>) r;
                       Some (st', Inr r) })))"

definition store_size :: "('h, 't) log_store \<Rightarrow> u64" where
  "store_size st = as_u64 (length (entries st))"

definition store_record :: "('h, 't) log_store \<Rightarrow> u64 \<Rightarrow> ('h, 't) commit_record option" where
  "store_record st sq = get_opt (entries st) (unat sq)"

definition store_root :: "('h, 't) deps \<Rightarrow> ('h, 't) log_store \<Rightarrow> 'h option checked" where
  "store_root D st = root (node_hash D) (tree st)"

definition store_root_at_size ::
  "('h, 't) deps \<Rightarrow> ('h, 't) log_store \<Rightarrow> u64 \<Rightarrow> 'h option checked" where
  "store_root_at_size D st s =
     (if store_size st < s then Some None else root_at_size (node_hash D) (tree st) s)"

definition store_inclusion_path ::
  "('h, 't) deps \<Rightarrow> ('h, 't) log_store \<Rightarrow> u64 \<Rightarrow> u64 \<Rightarrow> 'h proof_node list checked" where
  "store_inclusion_path D st sq s = inclusion_path (node_hash D) (tree st) sq s"

definition store_consistency_path ::
  "('h, 't) deps \<Rightarrow> ('h, 't) log_store \<Rightarrow> u64 \<Rightarrow> 'h list checked" where
  "store_consistency_path D st old = consistency_path (node_hash D) (tree st) old"

section \<open>The store invariant\<close>

definition store_inv :: "('h, 't) deps \<Rightarrow> ('h, 't) log_store \<Rightarrow> bool" where
  "store_inv D st \<longleftrightarrow>
     tree_inv (leaf_hash D) (node_hash D) (map commitment (entries st)) (tree st) \<and>
     map seq (entries st) = map as_u64 [0..<length (entries st)]"

definition has_room :: "('h, 't) log_store \<Rightarrow> bool" where
  "has_room st \<longleftrightarrow> Suc (length (entries st)) < 2 ^ 64"

lemma store_inv_tree:
  "store_inv D st \<Longrightarrow> tree_inv (leaf_hash D) (node_hash D) (map commitment (entries st)) (tree st)"
  by (simp add: store_inv_def)

lemma store_inv_bound: "store_inv D st \<Longrightarrow> length (entries st) < 2 ^ 64"
  using tree_inv_bound [OF store_inv_tree] by fastforce

lemma store_inv_empty [simp]: "store_inv D empty_store"
  using tree_inv_new [of "leaf_hash D" "node_hash D"] by (simp add: store_inv_def empty_store_def)

lemma empty_store_fields [simp]:
  "entries empty_store = []" "journal empty_store = None"
  by (simp_all add: empty_store_def)

lemma store_inv_journal [simp]: "store_inv D (st\<lparr>journal := j\<rparr>) \<longleftrightarrow> store_inv D st"
  by (simp add: store_inv_def)

lemma unat_store_size [simp]: "store_inv D st \<Longrightarrow> unat (store_size st) = length (entries st)"
  using store_inv_bound [of D st] by (simp add: store_size_def)

lemma store_inv_nth_seq:
  "store_inv D st \<Longrightarrow> i < length (entries st) \<Longrightarrow> seq (entries st ! i) = as_u64 i"
  unfolding store_inv_def by (metis length_map nth_map nth_upt add_0 length_upt diff_zero)

text \<open>Applying a record that carries the next number: total while there is room.\<close>

lemma apply_record_inv:
  assumes "store_inv D st" and "has_room st" and "seq r = as_u64 (length (entries st))"
  shows "\<exists>st'. apply_record D st r = Some st' \<and> store_inv D st' \<and>
    entries st' = entries st @ [r] \<and> journal st' = journal st"
proof -
  have "Suc (length (map commitment (entries st))) < 2 ^ 64"
    using assms(2) by (simp add: has_room_def)
  from append_tree_inv [OF store_inv_tree [OF assms(1)] this, of "commitment r"]
  obtain t where "append_tree (leaf_hash D) (node_hash D) (tree st) (commitment r) = Some t"
    "tree_inv (leaf_hash D) (node_hash D) (map commitment (entries st) @ [commitment r]) t" by blast
  with assms show ?thesis by (simp add: apply_record_def store_inv_def)
qed

text \<open>The store is a function of its entries and its journal.\<close>

lemma store_inv_unique:
  assumes "store_inv D st" and "store_inv D st'"
    and "entries st = entries st'" and "journal st = journal st'"
  shows "st = st'"
  using assms tree_inv_unique [OF store_inv_tree [OF assms(1)], of "tree st'"] store_inv_tree [OF assms(2)]
  by simp

section \<open>Appending\<close>

text \<open>Every append of a store with room ends without a panic, keeps the invariant, and
  either sequences exactly the submitted entry or leaves entries and tree alone.\<close>

lemma store_append_inv:
  assumes "store_inv D st" and "has_room st"
  shows "\<exists>st' res. store_append D w st sub com salt at = Some (st', res) \<and> store_inv D st' \<and>
    (case res of
       Inl e \<Rightarrow> entries st' = entries st \<and> tree st' = tree st
     | Inr r \<Rightarrow> r = \<lparr>seq = store_size st, logged_at = at, subject = sub, commitment = com,
                      salt_ref = salt\<rparr> \<and> entries st' = entries st @ [r])"
proof -
  let ?r = "\<lparr>seq = store_size st, logged_at = at, subject = sub, commitment = com, salt_ref = salt\<rparr>"
  have room: "has_room (st\<lparr>journal := j\<rparr>)" for j using assms(2) by (simp add: has_room_def)
  show ?thesis
  proof (cases "journal st")
    case None
    then show ?thesis
      using apply_record_inv [OF assms, of ?r] by (auto simp: store_append_def store_size_def)
  next
    case (Some body)
    show ?thesis
    proof (cases "json_to_string D (record_to_json D ?r)")
      case (Inl e)
      with Some assms(1) show ?thesis by (simp add: store_append_def store_size_def)
    next
      case (Inr line)
      with Some show ?thesis
        using assms(1) apply_record_inv [of D "st\<lparr>journal := Some (body @ line @ [newline])\<rparr>" ?r] room
        by (cases w) (auto simp: store_append_def store_size_def)
    qed
  qed
qed

lemma store_append_grows:
  assumes "store_inv D st" and "has_room st"
  obtains st' res where "store_append D w st sub com salt at = Some (st', res)" and "store_inv D st'"
    and "entries st' = entries st \<or> (\<exists>r. entries st' = entries st @ [r])"
proof -
  from store_append_inv [OF assms, of w sub com salt at] obtain st' res where
    "store_append D w st sub com salt at = Some (st', res)" "store_inv D st'"
    "case res of Inl e \<Rightarrow> entries st' = entries st \<and> tree st' = tree st
       | Inr r \<Rightarrow> r = \<lparr>seq = store_size st, logged_at = at, subject = sub, commitment = com,
                        salt_ref = salt\<rparr> \<and> entries st' = entries st @ [r]" by blast
  then show thesis by (cases res) (auto intro: that)
qed

lemma apply_record_Some_inv:
  assumes "store_inv D st" and "seq r = as_u64 (length (entries st))" and "apply_record D st r = Some st'"
  shows "store_inv D st' \<and> entries st' = entries st @ [r] \<and> journal st' = journal st"
  using assms append_tree_Some_inv [OF store_inv_tree [OF assms(1)], of "commitment r"]
  by (auto simp: apply_record_def store_inv_def bind_eq_Some_conv)

lemma store_append_Some_inv:
  assumes "store_inv D st" and "store_append D w st sub com salt at = Some (st', res)"
  shows "store_inv D st' \<and> (case res of
       Inl e \<Rightarrow> entries st' = entries st
     | Inr r \<Rightarrow> entries st' = entries st @ [r] \<and> seq r = store_size st)"
proof -
  let ?r = "\<lparr>seq = store_size st, logged_at = at, subject = sub, commitment = com, salt_ref = salt\<rparr>"
  have app: "store_inv D s \<and> entries s = entries st @ [?r]"
    if "apply_record D (st\<lparr>journal := j\<rparr>) ?r = Some s" for j s
    using apply_record_Some_inv [OF _ _ that] assms(1) by (simp add: store_size_def)
  show ?thesis
  proof (cases "journal st")
    case None
    then have e: "st\<lparr>journal := None\<rparr> = st" by simp
    have "store_inv D s \<and> entries s = entries st @ [?r]" if "apply_record D st ?r = Some s" for s
      using app [of None s] that unfolding e by blast
    with None show ?thesis
      using assms(2) by (auto simp: store_append_def store_size_def Let_def bind_eq_Some_conv)
  next
    case (Some body)
    show ?thesis
    proof (cases "json_to_string D (record_to_json D ?r)")
      case (Inl e)
      with Some assms show ?thesis by (auto simp: store_append_def store_size_def)
    next
      case (Inr line)
      with Some assms app show ?thesis
        by (cases w) (auto simp: store_append_def store_size_def Let_def bind_eq_Some_conv)
    qed
  qed
qed

section \<open>The journal as lines\<close>

text \<open>
  The contract of a line-oriented codec: every good record is encoded as one non-empty
  line without a line feed and decoded to itself.
\<close>

locale line_codec =
  fixes enc :: "'r \<Rightarrow> string"
    and dec :: "string \<Rightarrow> string + 'r"
    and good :: "'r \<Rightarrow> bool"
  assumes dec_enc: "good r \<Longrightarrow> dec (enc r) = Inr r"
    and enc_no_newline: "good r \<Longrightarrow> newline \<notin> set (enc r)"
    and enc_nonempty: "good r \<Longrightarrow> enc r \<noteq> []"
    and enc_no_cr: "good r \<Longrightarrow> last (enc r) \<noteq> CHR 0x0D"
begin

lemma strip_cr_enc: "good r \<Longrightarrow> strip_cr (acc @ enc r) = acc @ enc r"
  using enc_nonempty [of r] enc_no_cr [of r] by (simp add: strip_cr_def)

end

context line_codec
begin

lemma raw_lines_enc:
  "\<forall>r\<in>set rs. good r \<Longrightarrow>
     raw_lines (concat (map (\<lambda>r. enc r @ [newline]) rs) @ tail) = map enc rs @ raw_lines tail"
proof (induction rs)
  case (Cons r rs)
  then show ?case
    using raw_lines_line [OF enc_no_newline, of r] strip_cr_enc [of r "[]"] by simp
qed simp

lemma raw_lines_prefixed:
  "good r \<Longrightarrow> newline \<notin> set p \<Longrightarrow>
     raw_lines (p @ enc r @ newline # cs) = (p @ enc r) # raw_lines cs"
  using raw_lines_line [of "p @ enc r" cs] enc_no_newline [of r] strip_cr_enc [of r p] by simp

end

definition journal_line :: "('h, 't) deps \<Rightarrow> ('h, 't) commit_record \<Rightarrow> string" where
  "journal_line D r = (case json_to_string D (record_to_json D r) of Inr s \<Rightarrow> s | Inl _ \<Rightarrow> [])"

definition journal_text :: "('h, 't) deps \<Rightarrow> ('h, 't) commit_record list \<Rightarrow> string" where
  "journal_text D rs = concat (map (\<lambda>r. journal_line D r @ [newline]) rs)"

text \<open>
  What the store relies on for one record: \<open>serde_json\<close> prints it as one compact line
  (no line feed, not empty, ending in \<open>}\<close> and so not in CR) that it parses back, the
  line is valid UTF-8, and the text forms of hash and timestamp round-trip.
\<close>

definition line_ok ::
  "('h, 't) deps \<Rightarrow> (string \<Rightarrow> string + string) \<Rightarrow> ('h, 't) commit_record \<Rightarrow> bool" where
  "line_ok D rd r \<longleftrightarrow> text_forms_ok D \<and>
     (case json_to_string D (record_to_json D r) of
        Inl _ \<Rightarrow> False
      | Inr s \<Rightarrow> s \<noteq> [] \<and> newline \<notin> set s \<and> last s \<noteq> CHR 0x0D \<and>
          json_from_str D s = Inr (record_to_json D r) \<and> rd s = Inr s)"

lemma line_ok_parse: "line_ok D rd r \<Longrightarrow> parse_line D (journal_line D r) = Inr r"
  by (auto simp: line_ok_def journal_line_def parse_line_def record_round_trip split: sum.splits)

lemma line_ok_read: "line_ok D rd r \<Longrightarrow> rd (journal_line D r) = Inr (journal_line D r)"
  by (auto simp: line_ok_def journal_line_def split: sum.splits)

lemma line_ok_print:
  "line_ok D rd r \<Longrightarrow> json_to_string D (record_to_json D r) = Inr (journal_line D r)"
  by (auto simp: line_ok_def journal_line_def split: sum.splits)

interpretation jl: line_codec "journal_line D" "parse_line D" "line_ok D rd" for D rd
  by unfold_locales
    (simp_all add: line_ok_parse, auto simp: line_ok_def journal_line_def split: sum.splits)

section \<open>Replay\<close>

definition replay_raws ::
  "('h, 't) deps \<Rightarrow> (string \<Rightarrow> string + string) \<Rightarrow> nat \<Rightarrow> string list
     \<Rightarrow> ('h, 't) log_store \<Rightarrow> (store_error + ('h, 't) log_store) checked" where
  "replay_raws D rd n raws st =
     (case raws of
        [] \<Rightarrow> Some (Inr st)
      | raw # rest \<Rightarrow>
          (case rd raw of
             Inl e \<Rightarrow> Some (Inl (Journal (''journal read error: '' @ e)))
           | Inr line \<Rightarrow> replay_lines D rd n line rest st))"

lemma replay_eq_raws:
  "read_error f = None \<Longrightarrow> replay D f text st = replay_raws D (read_line f) 1 (raw_lines text) st"
  by (simp only: replay_def replay_raws_def option.case)

text \<open>A line that is accepted is consumed, whatever follows it.\<close>

lemma replay_raws_good:
  assumes "rd raw = Inr line" and "parse_line D line = Inr r"
    and "seq r = as_u64 (length (entries st))" and "apply_record D st r = Some st'"
  shows "replay_raws D rd n (raw # rest) st = replay_raws D rd (n + 1) rest st'"
  using assms by (cases rest) (auto simp: replay_raws_def replay_line_def split: sum.splits)

text \<open>Lines that parse to the next records are replayed, whatever follows them.\<close>

lemma replay_raws_parsed:
  assumes "map rd raws = map Inr ls" and "map (parse_line D) ls = map Inr rs" and "store_inv D st"
    and "map seq rs = map as_u64 [length (entries st)..<length (entries st) + length rs]"
    and "length (entries st) + length rs < 2 ^ 64"
  shows "\<exists>st'. store_inv D st' \<and> entries st' = entries st @ rs \<and> journal st' = journal st \<and>
    (\<forall>n tail. replay_raws D rd n (raws @ tail) st = replay_raws D rd (n + length rs) tail st')"
  using assms
proof (induction rs arbitrary: st raws ls)
  case Nil
  then show ?case by auto
next
  case (Cons r rs)
  have sq: "seq r = as_u64 (length (entries st))"
    and sqs: "map seq rs = map as_u64 [Suc (length (entries st))..<Suc (length (entries st)) + length rs]"
    using Cons.prems(4) by (simp_all add: upt_conv_Cons del: upt_Suc)
  from Cons.prems(1,2) obtain raw raws' l ls' where
    c: "raws = raw # raws'" "rd raw = Inr l" "parse_line D l = Inr r"
      "map rd raws' = map Inr ls'" "map (parse_line D) ls' = map Inr rs"
    by (auto simp: map_eq_Cons_conv)
  have "has_room st" using Cons.prems(5) by (simp add: has_room_def)
  from apply_record_inv [OF Cons.prems(3) this sq] obtain st1 where
    st1: "apply_record D st r = Some st1" "store_inv D st1" "entries st1 = entries st @ [r]"
      "journal st1 = journal st" by blast
  with Cons.IH [OF c(4,5), of st1] Cons.prems(5) sqs obtain st' where
    st': "store_inv D st'" "entries st' = entries st1 @ rs" "journal st' = journal st1"
      "\<And>n tail. replay_raws D rd n (raws' @ tail) st1 = replay_raws D rd (n + length rs) tail st'" by auto
  have "replay_raws D rd n (raws @ tail) st = replay_raws D rd (n + length (r # rs)) tail st'" for n tail
    using replay_raws_good [where rd = rd, OF c(2,3) sq st1(1)] st'(4) c(1) by simp
  with st' st1 show ?case by auto
qed

lemma replay_raws_records:
  assumes "\<forall>r\<in>set rs. line_ok D rd r" and "store_inv D st"
    and "map seq rs = map as_u64 [length (entries st)..<length (entries st) + length rs]"
    and "length (entries st) + length rs < 2 ^ 64"
  shows "\<exists>st'. store_inv D st' \<and> entries st' = entries st @ rs \<and> journal st' = journal st \<and>
    (\<forall>n tail. replay_raws D rd n (map (journal_line D) rs @ tail) st
                = replay_raws D rd (n + length rs) tail st')"
  by (rule replay_raws_parsed [OF _ _ assms(2-4), of rd _ "map (journal_line D) rs"])
    (use assms(1) in \<open>simp_all add: line_ok_read [of D rd] line_ok_parse [of D rd]\<close>)

section \<open>What an accepted journal is\<close>

text \<open>
  The lines account for the entries: every line is one entry in order, or every line
  but a torn, non-blank last one is.
\<close>

definition accounted ::
  "('h, 't) deps \<Rightarrow> string list \<Rightarrow> ('h, 't) commit_record list \<Rightarrow> bool" where
  "accounted D ls rs \<longleftrightarrow>
     map (parse_line D) ls = map Inr rs \<or>
     ls \<noteq> [] \<and> map (parse_line D) (butlast ls) = map Inr rs \<and>
       (\<exists>e. parse_line D (last ls) = Inl e) \<and> trim (last ls) \<noteq> []"

lemma accounted_Nil [simp]: "accounted D [] rs \<longleftrightarrow> rs = []"
  by (auto simp: accounted_def)

lemma accounted_Cons:
  "parse_line D l = Inr r \<Longrightarrow> accounted D ls rs \<Longrightarrow> accounted D (l # ls) (r # rs)"
  by (auto simp: accounted_def)

lemma accounted_one: "parse_line D l = Inr r \<Longrightarrow> accounted D [l] [r]"
  by (simp add: accounted_def)

lemma accounted_torn:
  "parse_line D l = Inl e \<Longrightarrow> trim l \<noteq> [] \<Longrightarrow> accounted D [l] []"
  by (simp add: accounted_def)

lemma replay_line_Some:
  assumes "replay_line D n line is_last st = Some (Inr st')" and "store_inv D st"
  shows "store_inv D st' \<and> journal st' = journal st \<and>
    ((\<exists>r. parse_line D line = Inr r \<and> entries st' = entries st @ [r]) \<or>
     is_last \<and> st' = st \<and> (\<exists>e. parse_line D line = Inl e) \<and> trim line \<noteq> [])"
  using assms apply_record_Some_inv [of D st]
  by (auto simp: replay_line_def bind_eq_Some_conv split: sum.splits if_splits)

lemma replay_lines_sound:
  "replay_lines D rd n line rest st = Some (Inr st') \<Longrightarrow> store_inv D st \<Longrightarrow>
     store_inv D st' \<and> journal st' = journal st \<and>
     (\<exists>ls rs. map rd rest = map Inr ls \<and> entries st' = entries st @ rs \<and> accounted D (line # ls) rs)"
proof (induction D rd n line rest st rule: replay_lines.induct)
  case (1 D rd n line st)
  then have "replay_line D n line True st = Some (Inr st')" by simp
  from replay_line_Some [OF this "1.prems"(2)] show ?case
    by (auto intro: accounted_torn accounted_one)
next
  case (2 D rd n line raw rest st)
  from "2.prems"(1) obtain line' where rd: "rd raw = Inr line'" by (cases "rd raw") auto
  with "2.prems"(1) obtain res where res: "replay_line D n line False st = Some res"
    and "(case res of Inl e \<Rightarrow> Some (Inl e)
           | Inr st1 \<Rightarrow> replay_lines D rd (Suc n) line' rest st1) = Some (Inr st')"
    by (auto simp: bind_eq_Some_conv)
  then obtain st1 where st1: "replay_line D n line False st = Some (Inr st1)"
    and rec: "replay_lines D rd (n + 1) line' rest st1 = Some (Inr st')"
    by (cases res) auto
  from replay_line_Some [OF st1 "2.prems"(2)] obtain r where
    inv: "store_inv D st1" and r: "parse_line D line = Inr r" "entries st1 = entries st @ [r]"
      "journal st1 = journal st" by blast
  from "2.IH" [OF rd st1 refl rec inv] obtain ls rs where
    ls: "map rd rest = map Inr ls" "entries st' = entries st1 @ rs" "accounted D (line' # ls) rs"
    and st': "store_inv D st'" "journal st' = journal st1" by blast
  then have "map rd (raw # rest) = map Inr (line' # ls) \<and> entries st' = entries st @ (r # rs) \<and>
      accounted D (line # line' # ls) (r # rs)"
    using rd r accounted_Cons [OF r(1)] by simp
  then show ?case using st' r(3) by metis
qed

lemma open_store_sound:
  assumes "open_store D (Some f) = Some (Inr st)" and "contents f = Some body"
  shows "store_inv D st \<and> journal st = Some body \<and>
    (\<exists>ls. map (read_line f) (raw_lines body) = map Inr ls \<and> accounted D ls (entries st))"
proof -
  from assms obtain st0 where st0: "replay D f body empty_store = Some (Inr st0)"
    and st: "st = st0\<lparr>journal := Some body\<rparr>"
    by (auto simp: open_store_def bind_eq_Some_conv rbind_eq_Inr_iff split: option.splits if_splits)
  then have raws: "replay_raws D (read_line f) 1 (raw_lines body) empty_store = Some (Inr st0)"
    using replay_eq_raws [of f D body empty_store] by (cases "read_error f") (auto simp: replay_def)
  show ?thesis
  proof (cases "raw_lines body")
    case Nil
    with raws st show ?thesis by (auto simp: replay_raws_def)
  next
    case (Cons raw rest)
    with raws obtain line where "read_line f raw = Inr line"
      "replay_lines D (read_line f) 1 line rest empty_store = Some (Inr st0)"
      by (auto simp: replay_raws_def split: sum.splits)
    moreover from replay_lines_sound [OF this(2)] obtain ls where "store_inv D st0"
      "map (read_line f) rest = map Inr ls" "accounted D (line # ls) (entries st0)" by auto
    ultimately have "map (read_line f) (raw_lines body) = map Inr (line # ls) \<and>
        accounted D (line # ls) (entries st)"
      using Cons st by simp
    moreover have "store_inv D st \<and> journal st = Some body" using st \<open>store_inv D st0\<close> by simp
    ultimately show ?thesis by blast
  qed
qed

text \<open>Starting up never panics: a file has far fewer lines than \<open>2 ^ 64\<close>.\<close>

lemma replay_line_total:
  assumes "store_inv D st" and "has_room st"
  shows "replay_line D n line is_last st \<noteq> None"
  using apply_record_inv [OF assms] by (fastforce simp: replay_line_def split: sum.splits)

lemma replay_lines_total:
  "store_inv D st \<Longrightarrow> length (entries st) + Suc (length rest) < 2 ^ 64 \<Longrightarrow>
     replay_lines D rd n line rest st \<noteq> None"
proof (induction D rd n line rest st rule: replay_lines.induct)
  case (1 D rd n line st)
  then show ?case using replay_line_total [of D st n line True] by (simp add: has_room_def)
next
  case (2 D rd n line raw rest st)
  have "has_room st" using "2.prems"(2) by (simp add: has_room_def)
  note tot = replay_line_total [OF "2.prems"(1) this, of n line False]
  show ?case
  proof (cases "rd raw")
    case (Inr line')
    show ?thesis
    proof (cases "replay_line D n line False st")
      case (Some res)
      show ?thesis
      proof (cases res)
        case st1: (Inr st1)
        from replay_line_Some [of D n line False st st1] Some st1 "2.prems"(1)
        have "store_inv D st1" "length (entries st1) = Suc (length (entries st))" by auto
        then show ?thesis
          using "2.IH" [OF Inr Some st1] "2.prems"(2) Inr Some st1 by simp
      qed (use Inr Some in simp)
    qed (use tot in simp)
  qed simp
qed

lemma open_store_total:
  assumes "\<And>f body. jf = Some f \<Longrightarrow> contents f = Some body \<Longrightarrow> length (raw_lines body) < 2 ^ 64"
  shows "open_store D jf \<noteq> None"
proof (cases jf)
  case None
  then show ?thesis by (simp add: open_store_def)
next
  case (Some f)
  have "replay D f body empty_store \<noteq> None" if "contents f = Some body" for body
    using assms [OF Some that] replay_lines_total [of D empty_store _ "read_line f"]
    by (auto simp: replay_def split: option.split list.split sum.split)
  then show ?thesis using Some by (auto simp: open_store_def split: option.splits)
qed

section \<open>Restart\<close>

text \<open>A journal file that opens and reads without I/O errors and holds \<open>body\<close>.\<close>

definition plain_file :: "journal_file \<Rightarrow> string \<Rightarrow> bool" where
  "plain_file f body \<longleftrightarrow> contents f = Some body \<and> (has_parent f \<longrightarrow> mkdir_error f = None) \<and>
     read_error f = None \<and> open_error f = None"

text \<open>The journal holds exactly the entries, each as one terminated line.\<close>

definition synced :: "('h, 't) deps \<Rightarrow> ('h, 't) log_store \<Rightarrow> bool" where
  "synced D st \<longleftrightarrow> journal st = Some (journal_text D (entries st))"

lemma open_plain:
  assumes "plain_file f body"
  shows "open_store D (Some f) =
    (case replay_raws D (read_line f) 1 (raw_lines body) empty_store of
       None \<Rightarrow> None
     | Some (Inl e) \<Rightarrow> Some (Inl e)
     | Some (Inr st) \<Rightarrow> Some (Inr (st\<lparr>journal := Some body\<rparr>)))"
proof -
  have "replay D f body empty_store = replay_raws D (read_line f) 1 (raw_lines body) empty_store"
    using assms by (intro replay_eq_raws) (simp add: plain_file_def)
  then show ?thesis
    using assms by (auto simp: open_store_def plain_file_def split: option.split sum.split)
qed

text \<open>Exactly the accounted journals open.\<close>

lemma open_store_complete:
  assumes "plain_file f body" and "store_inv D st" and "journal st = Some body"
    and "map (read_line f) (raw_lines body) = map Inr ls" and "accounted D ls (entries st)"
  shows "open_store D (Some f) = Some (Inr st)"
proof -
  let ?e = "empty_store :: ('a, 'b) log_store" and ?raws = "raw_lines body" and ?rd = "read_line f"
  have sq: "map seq (entries st) = map as_u64 [length (entries ?e)..<length (entries ?e) + length (entries st)]"
    using assms(2) by (simp add: store_inv_def)
  have b: "length (entries ?e) + length (entries st) < 2 ^ 64" using store_inv_bound [OF assms(2)] by simp
  have step: "\<exists>st'. store_inv D st' \<and> entries st' = entries st \<and> journal st' = None \<and>
      (\<forall>n tail. replay_raws D ?rd n (raws @ tail) ?e = replay_raws D ?rd (n + length (entries st)) tail st')"
    if "map ?rd raws = map Inr ks" "map (parse_line D) ks = map Inr (entries st)" for raws ks
    using replay_raws_parsed [OF that store_inv_empty sq b] by simp
  have "replay_raws D ?rd 1 ?raws ?e = Some (Inr (st\<lparr>journal := None\<rparr>))"
  proof (cases "map (parse_line D) ls = map Inr (entries st)")
    case True
    from step [OF assms(4) this] obtain st' where st': "store_inv D st'" "entries st' = entries st"
      "journal st' = None" "\<And>n tail. replay_raws D ?rd n (?raws @ tail) ?e
         = replay_raws D ?rd (n + length (entries st)) tail st'" by blast
    have "st' = st\<lparr>journal := None\<rparr>" using st' assms(2) by (intro store_inv_unique [of D]) simp_all
    with st'(4) [of 1 "[]"] show ?thesis by (simp add: replay_raws_def)
  next
    case False
    with assms(5) obtain e where ne: "ls \<noteq> []" and p: "map (parse_line D) (butlast ls) = map Inr (entries st)"
      and l: "parse_line D (last ls) = Inl e" "trim (last ls) \<noteq> []" by (auto simp: accounted_def)
    have rne: "?raws \<noteq> []" using ne assms(4) by auto
    have "map ?rd (butlast ?raws) = map Inr (butlast ls)" using assms(4) by (simp add: map_butlast)
    from step [OF this p] obtain st' where st': "store_inv D st'" "entries st' = entries st"
      "journal st' = None" "\<And>n tail. replay_raws D ?rd n (butlast ?raws @ tail) ?e
         = replay_raws D ?rd (n + length (entries st)) tail st'" by blast
    have "st' = st\<lparr>journal := None\<rparr>" using st' assms(2) by (intro store_inv_unique [of D]) simp_all
    moreover have "?rd (last ?raws) = Inr (last ls)" using assms(4) ne rne by (metis last_map)
    ultimately show ?thesis using st'(4) [of 1 "[last ?raws]"] rne l
      by (simp add: replay_raws_def replay_line_def)
  qed
  then show ?thesis using open_plain [OF assms(1), of D] assms(3) by simp
qed

lemma open_store_plain:
  assumes "open_store D (Some f) = Some (Inr st)" and "contents f = Some body"
  shows "plain_file f body"
  using assms by (auto simp: open_store_def plain_file_def replay_def bind_eq_Some_conv rbind_eq_Inr_iff
      split: option.splits if_splits)

lemma open_store_iff:
  assumes "contents f = Some body"
  shows "open_store D (Some f) = Some (Inr st) \<longleftrightarrow>
    plain_file f body \<and> store_inv D st \<and> journal st = Some body \<and>
    (\<exists>ls. map (read_line f) (raw_lines body) = map Inr ls \<and> accounted D ls (entries st))"
  using open_store_sound [OF _ assms] open_store_plain [OF _ assms] open_store_complete [of f body D st] by blast

lemma journal_text_append [simp]:
  "journal_text D (rs @ rs') = journal_text D rs @ journal_text D rs'"
  by (simp add: journal_text_def)

lemma journal_text_one [simp]: "journal_text D [r] = journal_line D r @ [newline]"
  by (simp add: journal_text_def)

text \<open>Whatever follows the lines of a store's entries, replay reaches that store first.\<close>

lemma replay_prefix:
  assumes "store_inv D st" and "\<forall>r\<in>set (entries st). line_ok D rd r"
  shows "replay_raws D rd 1 (raw_lines (journal_text D (entries st) @ tail)) empty_store
    = replay_raws D rd (1 + length (entries st)) (raw_lines tail) (st\<lparr>journal := None\<rparr>)"
proof -
  have "map seq (entries st) = map as_u64 [length (entries empty_store)..<
      length (entries (empty_store :: ('a, 'b) log_store)) + length (entries st)]"
    using assms(1) by (simp add: store_inv_def)
  from replay_raws_records [OF assms(2) store_inv_empty this] store_inv_bound [OF assms(1)]
  obtain st' where st': "store_inv D st'" "entries st' = entries st" "journal st' = None"
    "\<And>n tail. replay_raws D rd n (map (journal_line D) (entries st) @ tail) empty_store
                = replay_raws D rd (n + length (entries st)) tail st'" by auto
  have "st' = st\<lparr>journal := None\<rparr>"
    using st' assms(1) by (intro store_inv_unique [of D]) simp_all
  with st'(4) jl.raw_lines_enc [OF assms(2), of tail] show ?thesis
    by (simp add: journal_text_def)
qed

text \<open>A restart on a synced journal reproduces the very same store.\<close>

lemma restart_identical:
  assumes "store_inv D st" and "synced D st"
    and "\<forall>r\<in>set (entries st). line_ok D (read_line f) r"
    and "plain_file f (journal_text D (entries st))"
  shows "open_store D (Some f) = Some (Inr st)"
  using replay_prefix [OF assms(1,3), of "[]"] open_plain [OF assms(4), of D] assms(2)
  by (simp add: replay_raws_def raw_lines_def synced_def)

text \<open>An unreadable, non-blank rest after the last line feed is skipped.\<close>

lemma torn_tail_skipped:
  assumes "store_inv D st" and "\<forall>r\<in>set (entries st). line_ok D (read_line f) r"
    and "plain_file f (journal_text D (entries st) @ torn)"
    and "newline \<notin> set torn" and "trim torn \<noteq> []"
    and "read_line f torn = Inr torn" and "parse_line D torn = Inl e"
  shows "open_store D (Some f)
    = Some (Inr (st\<lparr>journal := Some (journal_text D (entries st) @ torn)\<rparr>))"
proof -
  have "torn \<noteq> []" using assms(5) by auto
  then have "raw_lines torn = [torn]" using raw_lines_last [OF assms(4)] by simp
  then show ?thesis
    using replay_prefix [OF assms(1,2), of torn] open_plain [OF assms(3), of D] assms(5-7)
    by (simp add: replay_raws_def replay_line_def)
qed

text \<open>A line that the replay does not accept refuses the whole journal: one that does not
  parse and is not the last (or is blank), or a record out of sequence.\<close>

lemma raw_lines_Nil_iff: "raw_lines cs = [] \<longleftrightarrow> cs = []"
proof -
  have "lines_from acc cs \<noteq> []" if "acc \<noteq> [] \<or> cs \<noteq> []" for acc cs
    using that by (induction cs arbitrary: acc) auto
  then show ?thesis by (auto simp: raw_lines_def)
qed

lemma bad_line_refused:
  assumes "store_inv D st" and "\<forall>r\<in>set (entries st). line_ok D (read_line f) r"
    and "plain_file f (journal_text D (entries st) @ bad @ newline # rest)"
    and "newline \<notin> set bad" and "strip_cr bad = bad" and "\<forall>l. \<exists>l'. read_line f l = Inr l'"
    and "read_line f bad = Inr bad"
    and "\<And>s is_last. is_last = (rest = []) \<Longrightarrow> entries s = entries st \<Longrightarrow>
      replay_line D (1 + length (entries st)) bad is_last s = Some (Inl e)"
  shows "open_store D (Some f) = Some (Inl e)"
proof -
  have "replay_raws D (read_line f) (1 + length (entries st)) (bad # raw_lines rest) (st\<lparr>journal := None\<rparr>)
      = Some (Inl e)"
  proof (cases "raw_lines rest")
    case Nil
    then have r: "True = (rest = [])" by (simp add: raw_lines_Nil_iff)
    then show ?thesis using Nil assms(7) assms(8) [OF r] by (simp add: replay_raws_def)
  next
    case (Cons raw raws)
    then have r: "False = (rest = [])" by (auto simp: raw_lines_def)
    obtain l' where "read_line f raw = Inr l'" using assms(6) by blast
    then show ?thesis using Cons assms(7) assms(8) [OF r] by (simp add: replay_raws_def)
  qed
  then show ?thesis
    using replay_prefix [OF assms(1,2), of "bad @ newline # rest"] raw_lines_line [OF assms(4), of rest]
      open_plain [OF assms(3), of D] assms(5) by simp
qed

section \<open>Runs of appends\<close>

text \<open>The record that the next append sequences.\<close>

definition next_record ::
  "('h, 't) log_store \<Rightarrow> string \<Rightarrow> 'h \<Rightarrow> u64 option \<Rightarrow> 't \<Rightarrow> ('h, 't) commit_record" where
  "next_record st sub com salt at =
     \<lparr>seq = store_size st, logged_at = at, subject = sub, commitment = com, salt_ref = salt\<rparr>"

lemma store_append_Inr_record:
  assumes "store_append D w st sub com salt at = Some (st', Inr r)"
  shows "r = next_record st sub com salt at"
  using assms by (auto simp: store_append_def next_record_def store_size_def Let_def bind_eq_Some_conv
      split: option.splits sum.splits write_outcome.splits)

lemma store_append_journaled:
  assumes "store_inv D st" and "has_room st" and "journal st = Some body"
    and "json_to_string D (record_to_json D (next_record st sub com salt at)) = Inr line"
  shows "\<exists>st'. store_append D Wrote st sub com salt at = Some (st', Inr (next_record st sub com salt at)) \<and>
    store_inv D st' \<and> entries st' = entries st @ [next_record st sub com salt at] \<and>
    journal st' = Some (body @ line @ [newline])"
  using assms apply_record_inv [of D "st\<lparr>journal := Some (body @ line @ [newline])\<rparr>"
      "next_record st sub com salt at"]
  by (auto simp: store_append_def next_record_def store_size_def has_room_def)

text \<open>A write that went through, or that failed before its first byte.\<close>

fun leaves_nothing :: "write_outcome \<Rightarrow> bool" where
  "leaves_nothing Wrote = True"
| "leaves_nothing (Write_Failed n e) = (n = 0)"

lemma store_append_synced:
  assumes "store_inv D st" and "has_room st" and "synced D st" and "leaves_nothing w"
    and "store_append D w st sub com salt at = Some (st', res)"
  shows "synced D st'"
proof (cases "json_to_string D (record_to_json D (next_record st sub com salt at))")
  case (Inl e)
  then show ?thesis
    using assms(3,5) by (simp add: store_append_def synced_def next_record_def store_size_def)
next
  case (Inr line)
  from assms(3) have j: "journal st = Some (journal_text D (entries st))" by (simp add: synced_def)
  show ?thesis
  proof (cases w)
    case Wrote
    from store_append_journaled [OF assms(1,2) j Inr] assms(5) Inr Wrote
    show ?thesis by (auto simp: synced_def journal_line_def)
  next
    case (Write_Failed n e)
    then show ?thesis using assms(4,5) Inr j
      by (auto simp: store_append_def synced_def next_record_def store_size_def)
  qed
qed

text \<open>A run: the submissions in order, each with its time and with what its write does.\<close>

type_synonym ('h, 't) submission = "write_outcome \<times> string \<times> 'h \<times> u64 option \<times> 't"

primrec run_appends ::
  "('h, 't) deps \<Rightarrow> ('h, 't) log_store \<Rightarrow> ('h, 't) submission list \<Rightarrow> ('h, 't) log_store checked" where
  "run_appends D st [] = Some st"
| "run_appends D st (x # xs) = (case x of (w, sub, com, salt, at) \<Rightarrow> do {
     (st', res) \<leftarrow> store_append D w st sub com salt at;
     run_appends D st' xs })"

lemma run_appends_inv:
  assumes "store_inv D st" and "length (entries st) + length xs < 2 ^ 64"
  shows "\<exists>st'. run_appends D st xs = Some st' \<and> store_inv D st' \<and>
    length (entries st') \<le> length (entries st) + length xs \<and>
    (synced D st \<longrightarrow> (\<forall>x\<in>set xs. leaves_nothing (fst x)) \<longrightarrow> synced D st')"
  using assms
proof (induction xs arbitrary: st)
  case (Cons x xs)
  obtain w sub com salt at where x: "x = (w, sub, com, salt, at)" by (cases x)
  have room: "has_room st" using Cons.prems(2) by (simp add: has_room_def)
  from store_append_grows [OF Cons.prems(1) room] obtain st1 res where
    st1: "store_append D w st sub com salt at = Some (st1, res)" "store_inv D st1"
    and ent: "entries st1 = entries st \<or> (\<exists>r. entries st1 = entries st @ [r])" by blast
  have len: "length (entries st1) \<le> Suc (length (entries st))" using ent by auto
  then have "length (entries st1) + length xs < 2 ^ 64" using Cons.prems(2) by simp
  from Cons.IH [OF st1(2) this] obtain st' where "run_appends D st1 xs = Some st'" "store_inv D st'"
    "length (entries st') \<le> length (entries st1) + length xs"
    "synced D st1 \<longrightarrow> (\<forall>x\<in>set xs. leaves_nothing (fst x)) \<longrightarrow> synced D st'" by blast
  moreover have "synced D st \<Longrightarrow> leaves_nothing w \<Longrightarrow> synced D st1"
    using store_append_synced [OF Cons.prems(1) room _ _ st1(1)] by blast
  ultimately show ?case using len st1(1) by (auto simp: x)
qed auto

section \<open>A tail without its line feed\<close>

text \<open>
  The journal is reopened for append without cutting a torn tail off or terminating
  it, and a failed write leaves its bytes in place: the next record lands on the same
  line. On the following restart that line does not parse, so an entry whose receipt
  was issued is dropped, and one entry more makes the journal unreadable.
\<close>

lemma tail_then_append:
  assumes "store_inv D st" and "has_room st"
    and "journal st = Some (journal_text D rs @ tail)"
    and "line_ok D rd (next_record st sub com salt at)"
  shows "\<exists>st'. store_append D Wrote st sub com salt at = Some (st', Inr (next_record st sub com salt at)) \<and>
    store_inv D st' \<and> entries st' = entries st @ [next_record st sub com salt at] \<and>
    journal st' = Some (journal_text D rs @ tail
      @ journal_line D (next_record st sub com salt at) @ [newline])"
  using store_append_journaled [OF assms(1-3) line_ok_print [OF assms(4)]] by simp

lemma glued_line_dropped:
  assumes "store_inv D st" and "\<forall>r\<in>set (entries st). line_ok D (read_line f) r"
    and "line_ok D (read_line f) r" and "newline \<notin> set tail"
    and "plain_file f (journal_text D (entries st) @ tail @ journal_line D r @ [newline])"
    and "read_line f (tail @ journal_line D r) = Inr (tail @ journal_line D r)"
    and "parse_line D (tail @ journal_line D r) = Inl e"
    and "trim (tail @ journal_line D r) \<noteq> []"
  shows "open_store D (Some f) = Some (Inr (st\<lparr>journal :=
    Some (journal_text D (entries st) @ tail @ journal_line D r @ [newline])\<rparr>))"
proof -
  have "raw_lines (tail @ journal_line D r @ [newline]) = [tail @ journal_line D r]"
    using jl.raw_lines_prefixed [OF assms(3,4), of "[]"] by (simp add: raw_lines_def)
  then show ?thesis
    using replay_prefix [OF assms(1,2), of "tail @ journal_line D r @ [newline]"]
      open_plain [OF assms(5), of D] assms(6-8)
    by (simp add: replay_raws_def replay_line_def)
qed

text \<open>Opening on a torn tail, appending, and opening again: the appended entry is gone.\<close>

lemma glued_append_lost:
  assumes "store_inv D st" and "has_room st" and "\<forall>r\<in>set (entries st). line_ok D (read_line f) r"
    and "plain_file f (journal_text D (entries st) @ torn)"
    and "newline \<notin> set torn" and "trim torn \<noteq> []" and "read_line f torn = Inr torn"
    and "parse_line D torn = Inl e"
    and "r = next_record st sub com salt at" and "line_ok D (read_line f) r"
    and "read_line f (torn @ journal_line D r) = Inr (torn @ journal_line D r)"
    and "parse_line D (torn @ journal_line D r) = Inl e'" and "trim (torn @ journal_line D r) \<noteq> []"
  shows "\<exists>st1 st2 body. open_store D (Some f) = Some (Inr st1) \<and>
    store_append D Wrote st1 sub com salt at = Some (st2, Inr r) \<and> store_inv D st2 \<and>
    entries st2 = entries st @ [r] \<and> journal st2 = Some body \<and>
    open_store D (Some (f\<lparr>contents := Some body\<rparr>)) = Some (Inr (st\<lparr>journal := Some body\<rparr>))"
proof -
  let ?st1 = "st\<lparr>journal := Some (journal_text D (entries st) @ torn)\<rparr>"
  let ?body = "journal_text D (entries st) @ torn @ journal_line D r @ [newline]"
  have o: "open_store D (Some f) = Some (Inr ?st1)"
    by (rule torn_tail_skipped [OF assms(1,3-8)])
  have nr: "next_record ?st1 sub com salt at = r" using assms(9) by (simp add: next_record_def store_size_def)
  obtain st2 where st2: "store_append D Wrote ?st1 sub com salt at = Some (st2, Inr r)"
    "store_inv D st2" "entries st2 = entries st @ [r]" "journal st2 = Some ?body"
    using tail_then_append [of D ?st1 "entries st" torn "read_line f" sub com salt at] assms(1,2,10) nr
    by (auto simp: has_room_def)
  have "plain_file (f\<lparr>contents := Some ?body\<rparr>) ?body" using assms(4) by (simp add: plain_file_def)
  with glued_line_dropped [OF assms(1), of "f\<lparr>contents := Some ?body\<rparr>" r torn e'] assms(3,5,10-13)
  have "open_store D (Some (f\<lparr>contents := Some ?body\<rparr>)) = Some (Inr (st\<lparr>journal := Some ?body\<rparr>))" by simp
  with o st2 show ?thesis by (intro exI [of _ ?st1] exI [of _ st2] exI [of _ ?body]) simp
qed

lemma glued_line_refused:
  assumes "store_inv D st" and "\<forall>r\<in>set (entries st). line_ok D (read_line f) r"
    and "line_ok D (read_line f) r" and "line_ok D (read_line f) r'" and "newline \<notin> set tail"
    and "plain_file f (journal_text D (entries st) @ tail @ journal_line D r @ [newline]
           @ journal_line D r' @ [newline])"
    and "read_line f (tail @ journal_line D r) = Inr (tail @ journal_line D r)"
    and "parse_line D (tail @ journal_line D r) = Inl e"
  shows "open_store D (Some f)
    = Some (Inl (Journal (''line '' @ show_nat (1 + length (entries st)) @ '': '' @ e)))"
proof -
  have "raw_lines (tail @ journal_line D r @ newline # journal_line D r' @ [newline])
      = [tail @ journal_line D r, journal_line D r']"
    using jl.raw_lines_prefixed [OF assms(3,5)] jl.raw_lines_prefixed [OF assms(4), of "[]" "[]"]
    by (simp add: raw_lines_def)
  then show ?thesis
    using replay_prefix [OF assms(1,2), of "tail @ journal_line D r @ newline # journal_line D r' @ [newline]"]
      open_plain [OF assms(6), of D] assms(7,8) line_ok_read [OF assms(4)]
    by (simp add: replay_raws_def replay_line_def)
qed

section \<open>The interface that receipts and handlers read\<close>

text \<open>
  The reads of the store, for a state that keeps its invariant: the size and the
  records are those of the entry list, roots and proofs those of RFC 6962 over the
  entries' commitments.
\<close>

locale sequenced_log =
  fixes lh :: "'h \<Rightarrow> 'h"
    and nh :: "'h \<Rightarrow> 'h \<Rightarrow> 'h"
    and ents :: "'s \<Rightarrow> 'r list"
    and com :: "'r \<Rightarrow> 'h"
    and inv :: "'s \<Rightarrow> bool"
    and size_of :: "'s \<Rightarrow> u64"
    and lookup :: "'s \<Rightarrow> u64 \<Rightarrow> 'r option"
    and root_at :: "'s \<Rightarrow> u64 \<Rightarrow> 'h option checked"
    and incl :: "'s \<Rightarrow> u64 \<Rightarrow> u64 \<Rightarrow> 'h proof_node list checked"
    and cons :: "'s \<Rightarrow> u64 \<Rightarrow> 'h list checked"
  assumes size_of_ents: "inv s \<Longrightarrow> unat (size_of s) = length (ents s)"
    and lookup_ents: "inv s \<Longrightarrow> lookup s i =
      (if unat i < length (ents s) then Some (ents s ! unat i) else None)"
    and root_at_ents: "inv s \<Longrightarrow> root_at s n =
      (if unat n \<le> length (ents s) then Some (mth_root lh nh (take (unat n) (map com (ents s))))
       else Some None)"
    and incl_ents: "inv s \<Longrightarrow> unat m < unat n \<Longrightarrow> unat n \<le> length (ents s) \<Longrightarrow>
      incl s m n = Some (audit_path lh nh (unat m) (take (unat n) (map com (ents s))))"
    and cons_ents: "inv s \<Longrightarrow> unat n \<le> length (ents s) \<Longrightarrow>
      cons s n = Some (consistency_proof lh nh (unat n) (map com (ents s)))"
begin

lemma size_less: "inv s \<Longrightarrow> length (ents s) < 2 ^ 64"
  using size_of_ents [of s] unat_u64_less [of "size_of s"] by simp

lemma size_of_eq: "inv s \<Longrightarrow> size_of s = as_u64 (length (ents s))"
  using size_of_ents [of s] size_less [of s] by (simp add: u64_eq_iff)

lemma next_index:
  assumes "inv s" and "unat i < length (ents s)"
  shows "u64_add i 1 = Some (i + 1)" and "unat (i + 1) = Suc (unat i)"
  using assms size_less [OF assms(1)] by (simp_all add: u64_add_def unat_add_u64)

lemma root_at_pos:
  assumes "inv s" and "unat n \<le> length (ents s)" and "0 < unat n"
  shows "root_at s n = Some (Some (mth lh nh (take (unat n) (map com (ents s)))))"
  using assms by (auto simp: root_at_ents mth_root_def)

text \<open>Every entry is provable against the prefix that ends with it.\<close>

lemma entry_provable:
  assumes "inv s" and "unat i < length (ents s)"
  shows "\<exists>path r. incl s i (i + 1) = Some path \<and> root_at s (i + 1) = Some (Some r) \<and>
    r = mth lh nh (take (Suc (unat i)) (map com (ents s))) \<and>
    accepts_inclusion lh nh (com (ents s ! unat i)) (unat i) (Suc (unat i)) path r"
proof -
  let ?es = "take (Suc (unat i)) (map com (ents s))"
  have "accepts_inclusion lh nh (?es ! unat i) (unat i) (length ?es)
      (audit_path lh nh (unat i) ?es) (mth lh nh ?es)"
    using assms(2) by (intro audit_path_accepted) simp
  moreover have "?es ! unat i = com (ents s ! unat i)" and "length ?es = Suc (unat i)"
    using assms(2) by simp_all
  ultimately show ?thesis
    using assms next_index [OF assms] incl_ents [OF assms(1), of i "i + 1"]
      root_at_pos [OF assms(1), of "i + 1"] by simp
qed

text \<open>What was readable stays as it was when the log grows.\<close>

lemma growth_frozen:
  assumes "inv s" and "inv s'" and "ents s' = ents s @ rs"
  shows "unat i < length (ents s) \<Longrightarrow> lookup s' i = lookup s i"
    and "unat n \<le> length (ents s) \<Longrightarrow> root_at s' n = root_at s n"
    and "unat m < unat n \<Longrightarrow> unat n \<le> length (ents s) \<Longrightarrow> incl s' m n = incl s m n"
  using assms by (simp_all add: lookup_ents root_at_ents incl_ents nth_append)

text \<open>The current root extends every earlier one.\<close>

lemma growth_consistent:
  assumes "inv s" and "inv s'" and "ents s' = ents s @ rs" and "0 < length (ents s)"
  shows "\<exists>path old new. cons s' (size_of s) = Some path \<and> root_at s (size_of s) = Some (Some old) \<and>
    root_at s' (size_of s') = Some (Some new) \<and>
    accepts_consistency nh (length (ents s)) old (length (ents s')) new path"
proof -
  let ?es = "map com (ents s')"
  have n: "unat (size_of s) = length (ents s)" "unat (size_of s') = length (ents s')"
    using assms by (simp_all add: size_of_ents)
  have "accepts_consistency nh (length (ents s)) (mth lh nh (take (length (ents s)) ?es))
      (length ?es) (mth lh nh ?es) (consistency_proof lh nh (length (ents s)) ?es)"
    using assms(3) by (intro consistency_proof_accepted) simp
  then show ?thesis
    using n assms cons_ents [OF assms(2), of "size_of s"] root_at_pos [OF assms(1), of "size_of s"]
      root_at_pos [OF assms(2), of "size_of s'"] by simp
qed

end

interpretation reads: sequenced_log "leaf_hash D" "node_hash D" entries commitment "store_inv D"
    store_size store_record "store_root_at_size D" "store_inclusion_path D" "store_consistency_path D"
  for D
proof unfold_locales
  fix s n
  assume inv: "store_inv D s"
  note rep = store_inv_tree [OF inv]
  show "store_root_at_size D s n = (if unat n \<le> length (entries s)
      then Some (mth_root (leaf_hash D) (node_hash D) (take (unat n) (map commitment (entries s))))
      else Some None)"
    using merkle.root_at_rep [OF rep, of n] unat_store_size [OF inv]
    by (simp add: store_root_at_size_def word_less_nat_alt)
  assume "unat n \<le> length (entries s)"
  then show "store_consistency_path D s n
      = Some (consistency_proof (leaf_hash D) (node_hash D) (unat n) (map commitment (entries s)))"
    using merkle.cons_rep [OF rep, of n] by (simp add: store_consistency_path_def)
next
  fix s and m n :: u64
  assume inv: "store_inv D s" and "unat m < unat n" "unat n \<le> length (entries s)"
  then show "store_inclusion_path D s m n
      = Some (audit_path (leaf_hash D) (node_hash D) (unat m) (take (unat n) (map commitment (entries s))))"
    using merkle.incl_rep [OF store_inv_tree [OF inv], of m n] by (simp add: store_inclusion_path_def)
qed (simp_all add: store_record_def get_opt_def)

lemma store_root_eq: "store_inv D st \<Longrightarrow> store_root D st = store_root_at_size D st (store_size st)"
  using tree_inv_size [OF store_inv_tree, of D st] unat_store_size [of D st]
    u64_eq_iff [of "tsize (tree st)" "store_size st"]
  by (simp add: store_root_def store_root_at_size_def root_def)

end
