(* ===== verification/Receipt.thy ===== *)
theory Receipt
  imports Store
begin

text \<open>
  The receipt layer of \<open>src/model.rs\<close>: receipts and heads as derived state, their JSON
  views, and the functions that rebuild typed values from the views.

  The record \<open>signing\<close> collects what the log uses of the signatif crate: the canonical
  bytes of a tree head, signing under the tree-head domain (\<open>None\<close> when signing
  fails), the check of a signature under a public key, and the text forms of suites and
  key ids. Key pairs, public keys, suites and key ids are type parameters.
\<close>

record ('su, 'ki) signature_slot =
  suite :: 'su
  key_id :: 'ki
  signature_value :: "bytes option"

record ('h, 't, 'su, 'ki, 'kp, 'pk) signing =
  canonical_bytes :: "string \<Rightarrow> u64 \<Rightarrow> 't \<Rightarrow> 'h \<Rightarrow> bytes"
  sign_tree_head :: "'kp \<Rightarrow> bytes \<Rightarrow> ('su, 'ki) signature_slot option"
  verify_tree_head :: "'pk \<Rightarrow> bytes \<Rightarrow> ('su, 'ki) signature_slot \<Rightarrow> bool"
  public_of :: "'kp \<Rightarrow> 'pk"
  suite_as_str :: "'su \<Rightarrow> string"
  suite_parse_token :: "string \<Rightarrow> string + 'su"
  key_id_as_str :: "'ki \<Rightarrow> string"
  key_id_new :: "string \<Rightarrow> string + 'ki"

text \<open>The fields of signatif's \<open>ExternalAnchor\<close> that the sources read.\<close>

record 'h external_anchor =
  anchor_digest :: 'h
  anchor_payload :: bytes

record ('h, 't, 'su, 'ki) signed_tree_head =
  sth_log_id :: string
  sth_tree_size :: u64
  sth_timestamp :: 't
  sth_root :: 'h
  sth_signature :: "('su, 'ki) signature_slot"
  sth_external_anchor :: "'h external_anchor option"

record 'h inclusion_proof =
  leaf_index :: u64
  proof_tree_size :: u64
  path :: "'h proof_node list"

record ('h, 't, 'su, 'ki) receipt =
  receipt_log_id :: string
  receipt_record :: "('h, 't) commit_record"
  inclusion :: "'h inclusion_proof"
  tree_head :: "('h, 't, 'su, 'ki) signed_tree_head"

section \<open>Derivation\<close>

text \<open>\<open>Receipt::of\<close>: the inner option is the source's, the outer one a panic.\<close>

definition receipt_of ::
  "('h, 't) deps \<Rightarrow> ('h, 't, 'su, 'ki, 'kp, 'pk) signing \<Rightarrow> ('h, 't) log_store \<Rightarrow> u64 \<Rightarrow> string \<Rightarrow> 'kp
     \<Rightarrow> ('h, 't, 'su, 'ki) receipt option checked" where
  "receipt_of D S st sq log_id operator =
     (case store_record st sq of
        None \<Rightarrow> Some None
      | Some r \<Rightarrow> do {
          tree_size \<leftarrow> u64_add sq 1;
          ro \<leftarrow> store_root_at_size D st tree_size;
          case ro of
            None \<Rightarrow> Some None
          | Some rt \<Rightarrow> do {
              p \<leftarrow> store_inclusion_path D st sq tree_size;
              Some (case sign_tree_head S operator
                           (canonical_bytes S log_id tree_size (logged_at r) rt) of
                      None \<Rightarrow> None
                    | Some sig \<Rightarrow> Some
                        \<lparr>receipt_log_id = log_id,
                         receipt_record = r,
                         inclusion = \<lparr>leaf_index = sq, proof_tree_size = tree_size, path = p\<rparr>,
                         tree_head = \<lparr>sth_log_id = log_id, sth_tree_size = tree_size,
                           sth_timestamp = logged_at r, sth_root = rt, sth_signature = sig,
                           sth_external_anchor = None\<rparr>\<rparr>) } })"

definition current_head ::
  "('h, 't) deps \<Rightarrow> ('h, 't, 'su, 'ki, 'kp, 'pk) signing \<Rightarrow> ('h, 't) log_store \<Rightarrow> string \<Rightarrow> 'kp
     \<Rightarrow> ('h, 't, 'su, 'ki) signed_tree_head option checked" where
  "current_head D S st log_id operator =
     (case u64_sub (store_size st) 1 of
        None \<Rightarrow> Some None
      | Some last_seq \<Rightarrow> do {
          ro \<leftarrow> store_root D st;
          Some (case ro of
            None \<Rightarrow> None
          | Some rt \<Rightarrow>
              (case store_record st last_seq of
                 None \<Rightarrow> None
               | Some r \<Rightarrow>
                   (case sign_tree_head S operator
                           (canonical_bytes S log_id (store_size st) (logged_at r) rt) of
                      None \<Rightarrow> None
                    | Some sig \<Rightarrow> Some
                        \<lparr>sth_log_id = log_id, sth_tree_size = store_size st,
                         sth_timestamp = logged_at r, sth_root = rt, sth_signature = sig,
                         sth_external_anchor = None\<rparr>))) })"

section \<open>Wire views\<close>

definition json_u64 :: "u64 \<Rightarrow> json" where
  "json_u64 n = JNumber (PosInt n)"

definition signature_json ::
  "('h, 't, 'su, 'ki, 'kp, 'pk) signing \<Rightarrow> ('su, 'ki) signature_slot \<Rightarrow> json" where
  "signature_json S slot = json_object
     [(''suite'', JString (suite_as_str S (suite slot))),
      (''key_id'', JString (key_id_as_str S (key_id slot))),
      (''value'', (case signature_value slot of Some v \<Rightarrow> JString (hex_encode v) | None \<Rightarrow> JNull))]"

definition sth_json ::
  "('h, 't) deps \<Rightarrow> ('h, 't, 'su, 'ki, 'kp, 'pk) signing \<Rightarrow> ('h, 't, 'su, 'ki) signed_tree_head \<Rightarrow> json"
  where
  "sth_json D S sth = json_object
     [(''log_id'', JString (sth_log_id sth)),
      (''tree_size'', json_u64 (sth_tree_size sth)),
      (''timestamp'', JString (ts_to_string D (sth_timestamp sth))),
      (''root'', JString (hash_hex D (sth_root sth))),
      (''signature'', signature_json S (sth_signature sth))]"

definition node_json :: "('h, 't) deps \<Rightarrow> 'h proof_node \<Rightarrow> json" where
  "node_json D n = json_object
     [(''sibling'', JString (hash_hex D (sibling n))),
      (''side'', JString (case side n of Left \<Rightarrow> ''left'' | Right \<Rightarrow> ''right''))]"

definition proof_json :: "('h, 't) deps \<Rightarrow> 'h inclusion_proof \<Rightarrow> 'h \<Rightarrow> json" where
  "proof_json D p com = json_object
     [(''leaf_index'', json_u64 (leaf_index p)),
      (''tree_size'', json_u64 (proof_tree_size p)),
      (''leaf_hash'', JString (hash_hex D (leaf_hash D com))),
      (''commitment'', JString (hash_hex D com)),
      (''path'', JArray (map (node_json D) (path p)))]"

definition receipt_to_json ::
  "('h, 't) deps \<Rightarrow> ('h, 't, 'su, 'ki, 'kp, 'pk) signing \<Rightarrow> ('h, 't, 'su, 'ki) receipt \<Rightarrow> json \<Rightarrow> json" where
  "receipt_to_json D S rc operator_info = (let r = receipt_record rc in json_object
     [(''receipt_id'', JString (show_nat (unat (seq r)))),
      (''log_id'', JString (receipt_log_id rc)),
      (''seq'', json_u64 (seq r)),
      (''subject'', JString (subject r)),
      (''commitment'', JString (hash_hex D (commitment r))),
      (''salt_ref'', json_opt_u64 (salt_ref r)),
      (''logged_at'', JString (ts_to_string D (logged_at r))),
      (''inclusion'', proof_json D (inclusion rc) (commitment r)),
      (''tree_head'', sth_json D S (tree_head rc)),
      (''operator'', operator_info)])"

text \<open>The verifier side: typed values from the views; \<open>hex_decode\<close> can panic.\<close>

definition sth_from_json ::
  "('h, 't) deps \<Rightarrow> ('h, 't, 'su, 'ki, 'kp, 'pk) signing \<Rightarrow> json
     \<Rightarrow> (string + ('h, 't, 'su, 'ki) signed_tree_head) checked" where
  "sth_from_json D S v =
     (case
        rbind (ok_or (as_object v) ''tree head must be an object'') (\<lambda>obj.
        rbind (ok_or (Option.bind (fmlookup obj ''log_id'') as_str) ''missing `log_id`'') (\<lambda>lid.
        rbind (ok_or (Option.bind (fmlookup obj ''tree_size'') as_u64_json) ''missing `tree_size`'') (\<lambda>sz.
        rbind (ok_or (Option.bind (Option.bind (fmlookup obj ''timestamp'') as_str) (ts_parse D))
                 ''missing/invalid `timestamp`'') (\<lambda>ts.
        rbind (ok_or (Option.bind (Option.bind (fmlookup obj ''root'') as_str) (hash_from_hex D))
                 ''missing/invalid `root`'') (\<lambda>rt.
        rbind (ok_or (fmlookup obj ''signature'') ''missing `signature`'') (\<lambda>sv.
        rbind (ok_or (as_object sv) ''`signature` must be an object'') (\<lambda>sig.
        rbind (ok_or (Option.bind (fmlookup sig ''suite'') as_str) ''missing `signature.suite`'') (\<lambda>su.
        rbind (suite_parse_token S su) (\<lambda>su'.
        rbind (ok_or (Option.bind (fmlookup sig ''key_id'') as_str) ''missing `signature.key_id`'') (\<lambda>ki.
        rbind (key_id_new S ki) (\<lambda>ki'.
        Inr (lid, sz, ts, rt, su', ki', fmlookup sig ''value''))))))))))))
      of
        Inl e \<Rightarrow> Some (Inl e)
      | Inr (lid, sz, ts, rt, su', ki', val) \<Rightarrow>
          (case val of
             Some (JString s) \<Rightarrow> do {
               d \<leftarrow> hex_decode s;
               Some (rbind (ok_or d ''bad `signature.value` hex'') (\<lambda>bs.
                 Inr \<lparr>sth_log_id = lid, sth_tree_size = sz, sth_timestamp = ts, sth_root = rt,
                      sth_signature = \<lparr>suite = su', key_id = ki', signature_value = Some bs\<rparr>,
                      sth_external_anchor = None\<rparr>)) }
           | _ \<Rightarrow> Some (Inl ''missing `signature.value`'')))"

definition node_from_json :: "('h, 't) deps \<Rightarrow> json \<Rightarrow> string + 'h proof_node" where
  "node_from_json D v =
     rbind (ok_or (Option.bind (Option.bind (get v ''sibling'') as_str) (hash_from_hex D))
              ''bad `path[].sibling`'') (\<lambda>h.
     rbind (case Option.bind (get v ''side'') as_str of
              None \<Rightarrow> Inl ''bad `path[].side`''
            | Some s \<Rightarrow> if s = ''left'' then Inr Left else if s = ''right'' then Inr Right
                        else Inl ''bad `path[].side`'') (\<lambda>sd.
     Inr \<lparr>sibling = h, side = sd\<rparr>))"

primrec nodes_from_json :: "('h, 't) deps \<Rightarrow> json list \<Rightarrow> string + 'h proof_node list" where
  "nodes_from_json D [] = Inr []"
| "nodes_from_json D (v # vs) =
     rbind (node_from_json D v) (\<lambda>n. rbind (nodes_from_json D vs) (\<lambda>ns. Inr (n # ns)))"

definition proof_from_json :: "('h, 't) deps \<Rightarrow> json \<Rightarrow> string + 'h inclusion_proof" where
  "proof_from_json D v =
     rbind (ok_or (as_object v) ''inclusion must be an object'') (\<lambda>obj.
     rbind (ok_or (Option.bind (fmlookup obj ''leaf_index'') as_u64_json) ''missing `leaf_index`'') (\<lambda>li.
     rbind (ok_or (Option.bind (fmlookup obj ''tree_size'') as_u64_json) ''missing `tree_size`'') (\<lambda>sz.
     rbind (ok_or (Option.bind (fmlookup obj ''path'') as_array) ''missing `path`'') (\<lambda>vs.
     rbind (nodes_from_json D vs) (\<lambda>ns.
     Inr \<lparr>leaf_index = li, proof_tree_size = sz, path = ns\<rparr>)))))"

text \<open>The error wrapper of the receipt layer: it keeps the message of signatif's error.\<close>

datatype receipt_error = Receipt_Error string

definition receipt_error_from :: "('e \<Rightarrow> string) \<Rightarrow> 'e \<Rightarrow> receipt_error" where
  "receipt_error_from to_text e = Receipt_Error (to_text e)"

section \<open>Receipts of a well-formed store\<close>

text \<open>The one receipt the entry determines, when signing succeeds.\<close>

lemma receipt_of_entry:
  assumes inv: "store_inv D st" and sq: "unat sq < length (entries st)"
  shows "\<exists>p rt. receipt_of D S st sq lid op = Some (map_option
      (\<lambda>sig. \<lparr>receipt_log_id = lid, receipt_record = entries st ! unat sq,
         inclusion = \<lparr>leaf_index = sq, proof_tree_size = sq + 1, path = p\<rparr>,
         tree_head = \<lparr>sth_log_id = lid, sth_tree_size = sq + 1,
           sth_timestamp = logged_at (entries st ! unat sq), sth_root = rt, sth_signature = sig,
           sth_external_anchor = None\<rparr>\<rparr>)
      (sign_tree_head S op (canonical_bytes S lid (sq + 1) (logged_at (entries st ! unat sq)) rt))) \<and>
    rt = mth (leaf_hash D) (node_hash D) (take (Suc (unat sq)) (map commitment (entries st))) \<and>
    accepts_inclusion (leaf_hash D) (node_hash D) (commitment (entries st ! unat sq)) (unat sq)
      (Suc (unat sq)) p rt"
proof -
  note nx = reads.next_index [OF inv sq]
  obtain p rt where "store_inclusion_path D st sq (sq + 1) = Some p"
    "store_root_at_size D st (sq + 1) = Some (Some rt)"
    "rt = mth (leaf_hash D) (node_hash D) (take (Suc (unat sq)) (map commitment (entries st)))"
    "accepts_inclusion (leaf_hash D) (node_hash D) (commitment (entries st ! unat sq)) (unat sq)
      (Suc (unat sq)) p rt"
    using reads.entry_provable [OF inv sq] by blast
  moreover have "store_record st sq = Some (entries st ! unat sq)"
    using sq by (simp add: reads.lookup_ents [OF inv])
  ultimately show ?thesis
    using nx by (auto simp: receipt_of_def map_option_case split: option.split)
qed

lemma receipt_of_verifies:
  assumes "store_inv D st" and "unat sq < length (entries st)"
    and "receipt_of D S st sq lid op = Some (Some rc)"
  shows "receipt_record rc = entries st ! unat sq" and "leaf_index (inclusion rc) = sq"
    and "unat (proof_tree_size (inclusion rc)) = Suc (unat sq)"
    and "sth_tree_size (tree_head rc) = proof_tree_size (inclusion rc)"
    and "sth_external_anchor (tree_head rc) = None"
    and "sign_tree_head S op (canonical_bytes S (sth_log_id (tree_head rc)) (sth_tree_size (tree_head rc))
        (sth_timestamp (tree_head rc)) (sth_root (tree_head rc))) = Some (sth_signature (tree_head rc))"
    and "accepts_inclusion (leaf_hash D) (node_hash D) (commitment (receipt_record rc))
      (unat (leaf_index (inclusion rc))) (unat (sth_tree_size (tree_head rc))) (path (inclusion rc))
      (sth_root (tree_head rc))"
proof -
  from receipt_of_entry [OF assms(1,2), of S lid op] obtain p rt where
    r: "receipt_of D S st sq lid op = Some (map_option
      (\<lambda>sig. \<lparr>receipt_log_id = lid, receipt_record = entries st ! unat sq,
         inclusion = \<lparr>leaf_index = sq, proof_tree_size = sq + 1, path = p\<rparr>,
         tree_head = \<lparr>sth_log_id = lid, sth_tree_size = sq + 1,
           sth_timestamp = logged_at (entries st ! unat sq), sth_root = rt, sth_signature = sig,
           sth_external_anchor = None\<rparr>\<rparr>)
      (sign_tree_head S op (canonical_bytes S lid (sq + 1) (logged_at (entries st ! unat sq)) rt)))"
    and a: "accepts_inclusion (leaf_hash D) (node_hash D) (commitment (entries st ! unat sq)) (unat sq)
      (Suc (unat sq)) p rt" by blast
  from r assms(3) obtain sig where
    sig: "sign_tree_head S op (canonical_bytes S lid (sq + 1) (logged_at (entries st ! unat sq)) rt) = Some sig"
    and rc: "rc = \<lparr>receipt_log_id = lid, receipt_record = entries st ! unat sq,
         inclusion = \<lparr>leaf_index = sq, proof_tree_size = sq + 1, path = p\<rparr>,
         tree_head = \<lparr>sth_log_id = lid, sth_tree_size = sq + 1,
           sth_timestamp = logged_at (entries st ! unat sq), sth_root = rt, sth_signature = sig,
           sth_external_anchor = None\<rparr>\<rparr>"
    by (cases "sign_tree_head S op (canonical_bytes S lid (sq + 1) (logged_at (entries st ! unat sq)) rt)")
      auto
  from reads.next_index [OF assms(1,2)] a sig
  show "receipt_record rc = entries st ! unat sq" "leaf_index (inclusion rc) = sq"
    "unat (proof_tree_size (inclusion rc)) = Suc (unat sq)"
    "sth_tree_size (tree_head rc) = proof_tree_size (inclusion rc)"
    "sth_external_anchor (tree_head rc) = None"
    "sign_tree_head S op (canonical_bytes S (sth_log_id (tree_head rc)) (sth_tree_size (tree_head rc))
        (sth_timestamp (tree_head rc)) (sth_root (tree_head rc))) = Some (sth_signature (tree_head rc))"
    "accepts_inclusion (leaf_hash D) (node_hash D) (commitment (receipt_record rc))
      (unat (leaf_index (inclusion rc))) (unat (sth_tree_size (tree_head rc))) (path (inclusion rc))
      (sth_root (tree_head rc))"
    by (simp_all add: rc)
qed

lemma receipt_of_signed:
  assumes "store_inv D st" and "unat sq < length (entries st)" and "\<forall>bs. sign_tree_head S op bs \<noteq> None"
  shows "\<exists>rc. receipt_of D S st sq lid op = Some (Some rc)"
proof -
  obtain f bs where "receipt_of D S st sq lid op = Some (map_option f (sign_tree_head S op bs))"
    using receipt_of_entry [OF assms(1,2), of S lid op] by blast
  moreover obtain sig where "sign_tree_head S op bs = Some sig" using assms(3) by blast
  ultimately show ?thesis by simp
qed

lemma receipt_of_missing:
  "store_inv D st \<Longrightarrow> length (entries st) \<le> unat sq \<Longrightarrow> receipt_of D S st sq lid op = Some None"
  by (simp add: receipt_of_def reads.lookup_ents)

lemma receipt_of_total: "store_inv D st \<Longrightarrow> receipt_of D S st sq lid op \<noteq> None"
  using receipt_of_entry [of D st sq S lid op] receipt_of_missing [of D st sq S lid op]
  by (cases "unat sq < length (entries st)") auto

lemma receipt_frozen:
  assumes "store_inv D st" and "store_inv D st'" and "entries st' = entries st @ rs"
    and "unat sq < length (entries st)"
  shows "receipt_of D S st' sq lid op = receipt_of D S st sq lid op"
  using reads.growth_frozen [OF assms(1-3)] reads.next_index [OF assms(1,4)] assms(4)
  by (simp add: receipt_of_def cong: option.case_cong)

text \<open>The current head is the tree head of the last entry's receipt.\<close>

lemma current_head_receipt:
  assumes inv: "store_inv D st" and ne: "entries st \<noteq> []"
  shows "current_head D S st lid op
    = map_option (map_option tree_head) (receipt_of D S st (store_size st - 1) lid op)"
proof -
  let ?n = "length (entries st)" and ?l = "store_size st - 1"
  have n: "unat (store_size st) = ?n" using inv by simp
  have pos: "0 < ?n" using ne by simp
  then have le: "1 \<le> store_size st" using n by (simp add: word_le_nat_alt Suc_le_eq)
  then have sub: "u64_sub (store_size st) 1 = Some ?l" and l: "unat ?l = ?n - 1"
    using n by (simp_all add: u64_sub_def unat_sub)
  then have lt: "unat ?l < ?n" using pos by simp
  have "store_root D st = Some (Some (mth (leaf_hash D) (node_hash D) (map commitment (entries st))))"
    using reads.root_at_pos [OF inv, of "store_size st"] n pos by (simp add: store_root_eq [OF inv])
  moreover have "store_record st ?l = Some (entries st ! (?n - 1))"
    using lt by (simp add: reads.lookup_ents [OF inv] l)
  moreover obtain p where "receipt_of D S st ?l lid op = Some (map_option
      (\<lambda>sig. \<lparr>receipt_log_id = lid, receipt_record = entries st ! (?n - 1),
         inclusion = \<lparr>leaf_index = ?l, proof_tree_size = ?l + 1, path = p\<rparr>,
         tree_head = \<lparr>sth_log_id = lid, sth_tree_size = ?l + 1,
           sth_timestamp = logged_at (entries st ! (?n - 1)),
           sth_root = mth (leaf_hash D) (node_hash D) (map commitment (entries st)), sth_signature = sig,
           sth_external_anchor = None\<rparr>\<rparr>)
      (sign_tree_head S op (canonical_bytes S lid (?l + 1) (logged_at (entries st ! (?n - 1)))
         (mth (leaf_hash D) (node_hash D) (map commitment (entries st))))))"
    using receipt_of_entry [OF inv lt, of S lid op] l pos by auto
  ultimately show ?thesis
    using sub by (simp add: current_head_def map_option_case split: option.split)
qed

lemma current_head_empty: "store_inv D st \<Longrightarrow> entries st = [] \<Longrightarrow> current_head D S st lid op = Some None"
  by (simp add: current_head_def store_size_def as_u64_def u64_sub_def word_le_nat_alt)

lemma current_head_total: "store_inv D st \<Longrightarrow> current_head D S st lid op \<noteq> None"
  using current_head_receipt [of D st S lid op] current_head_empty [of D st S lid op]
    receipt_of_total [of D st S "store_size st - 1" lid op]
  by (cases "entries st = []") auto

lemma current_head_fields:
  assumes h: "current_head D S st lid op = Some (Some sth)"
  shows "sth_tree_size sth = store_size st" and "sth_log_id sth = lid"
    and "store_root D st = Some (Some (sth_root sth))" and "sth_external_anchor sth = None"
proof -
  from h obtain l where l: "u64_sub (store_size st) 1 = Some l"
    by (cases "u64_sub (store_size st) 1") (simp_all add: current_head_def)
  with h obtain rt where rt: "store_root D st = Some (Some rt)"
    by (cases "store_root D st"; cases "the (store_root D st)") (simp_all add: current_head_def)
  with h l obtain r where r: "store_record st l = Some r"
    by (cases "store_record st l") (simp_all add: current_head_def)
  show "sth_tree_size sth = store_size st" "sth_log_id sth = lid"
    "store_root D st = Some (Some (sth_root sth))" "sth_external_anchor sth = None"
    using h l rt r
    by (cases "sign_tree_head S op (canonical_bytes S lid (store_size st) (logged_at r) rt)";
      auto simp: current_head_def)+
qed

section \<open>Heads of forked logs\<close>

text \<open>What a verifier checks of a head against a public key.\<close>

definition head_verifies ::
  "('h, 't, 'su, 'ki, 'kp, 'pk) signing \<Rightarrow> 'pk \<Rightarrow> ('h, 't, 'su, 'ki) signed_tree_head \<Rightarrow> bool" where
  "head_verifies S pk h \<longleftrightarrow> verify_tree_head S pk
     (canonical_bytes S (sth_log_id h) (sth_tree_size h) (sth_timestamp h) (sth_root h)) (sth_signature h)"

lemma receipt_head_verifies:
  assumes "store_inv D st" and "unat sq < length (entries st)"
    and "receipt_of D S st sq lid op = Some (Some rc)"
    and "\<And>bs sig. sign_tree_head S op bs = Some sig \<Longrightarrow> verify_tree_head S (public_of S op) bs sig"
  shows "head_verifies S (public_of S op) (tree_head rc)"
  using receipt_of_verifies(6) [OF assms(1-3)] assms(4) by (simp add: head_verifies_def)

lemma receipt_of_root:
  assumes "store_inv D st" and "unat sq < length (entries st)"
    and "receipt_of D S st sq lid op = Some (Some rc)"
  shows "sth_root (tree_head rc)
    = mth (leaf_hash D) (node_hash D) (take (Suc (unat sq)) (map commitment (entries st)))"
  using receipt_of_entry [OF assms(1,2), of S lid op] assms(3) by (auto simp: map_option_case split: option.splits)

text \<open>Two logs that agree but for their last commitments: their last heads have the same size.\<close>

lemma forked_receipts:
  assumes "store_inv D st" and "store_inv D st'"
    and "entries st = es @ [r]" and "entries st' = es @ [r']" and "commitment r \<noteq> commitment r'"
    and "receipt_of D S st (seq r) lid op = Some (Some rc)" and "receipt_of D S st' (seq r') lid op = Some (Some rc')"
  shows "sth_tree_size (tree_head rc) = sth_tree_size (tree_head rc')"
    and "sth_root (tree_head rc) \<noteq> sth_root (tree_head rc') \<or> collides (leaf_hash D) (node_hash D)
      (mth_inputs (leaf_hash D) (node_hash D) (map commitment (entries st))
        @ mth_inputs (leaf_hash D) (node_hash D) (map commitment (entries st')))"
proof -
  have u: "unat (seq x) = length es" "unat (seq x) < length (entries s)" "seq x = as_u64 (length es)"
    if "store_inv D s" "entries s = es @ [x]" for s x
    using store_inv_nth_seq [OF that(1), of "length es"] store_inv_bound [OF that(1)] that(2)
    by (simp_all add: as_u64_def unat_of_nat)
  note r = u [OF assms(1,3)] and r' = u [OF assms(2,4)]
  have "sth_tree_size (tree_head rc) = seq r + 1" "sth_tree_size (tree_head rc') = seq r' + 1"
    using receipt_of_entry [OF assms(1) r(2), of S lid op] receipt_of_entry [OF assms(2) r'(2), of S lid op]
      assms(6,7) by (auto simp: map_option_case split: option.splits)
  then show "sth_tree_size (tree_head rc) = sth_tree_size (tree_head rc')" using r(3) r'(3) by simp
  have "map commitment (entries st) \<noteq> map commitment (entries st')" using assms(3-5) by simp
  then show "sth_root (tree_head rc) \<noteq> sth_root (tree_head rc') \<or> collides (leaf_hash D) (node_hash D)
      (mth_inputs (leaf_hash D) (node_hash D) (map commitment (entries st))
        @ mth_inputs (leaf_hash D) (node_hash D) (map commitment (entries st')))"
    using receipt_of_root [OF assms(1) r(2) assms(6)] receipt_of_root [OF assms(2) r'(2) assms(7)]
      mth_inj [of "map commitment (entries st)" "map commitment (entries st')" "leaf_hash D" "node_hash D"]
      assms(3,4) r(1) r'(1) by auto
qed
section \<open>The wire is sufficient\<close>

definition sign_text_ok :: "('h, 't, 'su, 'ki, 'kp, 'pk) signing \<Rightarrow> bool" where
  "sign_text_ok S \<longleftrightarrow> (\<forall>s. suite_parse_token S (suite_as_str S s) = Inr s) \<and>
     (\<forall>k. key_id_new S (key_id_as_str S k) = Inr k)"

lemma sth_round_trip:
  assumes "text_forms_ok D" and "sign_text_ok S" and "signature_value (sth_signature sth) = Some bs"
  shows "sth_from_json D S (sth_json D S sth) = Some (Inr (sth\<lparr>sth_external_anchor := None\<rparr>))"
  using assms hex_round_trip [of bs]
  by (cases sth; cases "sth_signature sth")
    (simp add: sth_from_json_def sth_json_def signature_json_def json_u64_def fmlookup_of_list
      text_forms_ok_def sign_text_ok_def)

lemma node_round_trip:
  "text_forms_ok D \<Longrightarrow> node_from_json D (node_json D n) = Inr n"
  by (cases n; cases "side n")
    (simp_all add: node_from_json_def node_json_def text_forms_ok_def)

lemma nodes_round_trip:
  "text_forms_ok D \<Longrightarrow> nodes_from_json D (map (node_json D) ns) = Inr ns"
  by (induction ns) (simp_all add: node_round_trip)

lemma proof_round_trip:
  "text_forms_ok D \<Longrightarrow> proof_from_json D (proof_json D p com) = Inr p"
  by (cases p) (simp add: proof_from_json_def proof_json_def json_u64_def fmlookup_of_list nodes_round_trip)

text \<open>A receipt's JSON has the members of its record, and so reads back as the record.\<close>

lemma receipt_json_record:
  assumes "text_forms_ok D"
  shows "record_from_json D (receipt_to_json D S rc info) = Inr (receipt_record rc)"
  using assms
  by (cases "receipt_record rc"; cases "salt_ref (receipt_record rc)")
    (simp_all add: record_from_json_def receipt_to_json_def text_forms_ok_def json_u64_def fmlookup_of_list)

lemma receipt_wire:
  assumes "text_forms_ok D" and "sign_text_ok S" and "sth_external_anchor (tree_head rc) = None"
    and "signature_value (sth_signature (tree_head rc)) = Some bs"
  shows "\<exists>h i. get (receipt_to_json D S rc info) ''tree_head'' = Some h \<and>
    get (receipt_to_json D S rc info) ''inclusion'' = Some i \<and>
    sth_from_json D S h = Some (Inr (tree_head rc)) \<and> proof_from_json D i = Inr (inclusion rc) \<and>
    record_from_json D (receipt_to_json D S rc info) = Inr (receipt_record rc)"
  using sth_round_trip [OF assms(1,2,4)] proof_round_trip [OF assms(1)] assms(3) receipt_json_record [OF assms(1)]
  by (simp add: receipt_to_json_def Let_def)

end
