(* ===== verification/Der.thy ===== *)
theory Der
  imports Commit_Record
begin

text \<open>
  The DER reader and the offline check of a \<open>TimeStampResp\<close> of \<open>src/tsa.rs\<close> (lines
  125 to 200), with the panics of slicing and of adding lengths written out. Both are
  total, and acceptance is characterised exactly.
\<close>

section \<open>Slices\<close>

text \<open>\<open>&v[i..j]\<close>: panics unless \<open>i \<le> j \<le> len\<close>.\<close>

definition slice :: "'a list \<Rightarrow> nat \<Rightarrow> nat \<Rightarrow> 'a list checked" where
  "slice xs i j = (if i \<le> j \<and> j \<le> length xs then Some (take (j - i) (drop i xs)) else None)"

text \<open>\<open>a + b\<close> on \<open>usize\<close>: panics at \<open>2 ^ 64\<close>.\<close>

definition usize_add :: "nat \<Rightarrow> nat \<Rightarrow> nat checked" where
  "usize_add a b = (if a + b < 2 ^ 64 then Some (a + b) else None)"

section \<open>DER\<close>

record tlv =
  tag :: u8
  tlv_value :: bytes
  raw_len :: nat

text \<open>\<open>u16::from_be_bytes\<close> and \<open>u32::from_be_bytes\<close>, as \<open>usize\<close>.\<close>

definition be_value :: "bytes \<Rightarrow> nat" where
  "be_value = foldl (\<lambda>acc b. acc * 256 + unat b) 0"

text \<open>Content length and header length, from the length byte and what follows it.\<close>

definition der_lengths :: "bytes \<Rightarrow> (nat \<times> nat) option" where
  "der_lengths bs =
     (let l = unat (bs ! 1) in
      if l \<le> 0x7f then Some (l, 2)
      else if l = 0x81 \<and> 3 \<le> length bs then Some (unat (bs ! 2), 3)
      else if l = 0x82 \<and> 4 \<le> length bs then Some (be_value [bs ! 2, bs ! 3], 4)
      else if l = 0x83 \<and> 5 \<le> length bs then Some (be_value [0, bs ! 2, bs ! 3, bs ! 4], 5)
      else if l = 0x84 \<and> 6 \<le> length bs
        then Some (be_value [bs ! 2, bs ! 3, bs ! 4, bs ! 5], 6)
      else None)"

definition der_tlv :: "bytes \<Rightarrow> tlv option checked" where
  "der_tlv bs =
     (if length bs < 2 then Some None
      else (case der_lengths bs of
              None \<Rightarrow> Some None
            | Some (content_len, header_len) \<Rightarrow> do {
                total \<leftarrow> usize_add header_len content_len;
                if length bs < total then Some None
                else do {
                  v \<leftarrow> slice bs header_len total;
                  Some (Some \<lparr>tag = bs ! 0, tlv_value = v, raw_len = total\<rparr>) } }))"

text \<open>The scan for the digest as a 32-byte octet string, from \<open>offset\<close> on.\<close>

function scan_digest :: "bytes \<Rightarrow> bytes \<Rightarrow> nat \<Rightarrow> bool" where
  "scan_digest der needle offset =
     (if offset + 34 \<le> length der
      then (if der ! offset = 0x04 \<and> der ! (offset + 1) = 0x20
               \<and> take 32 (drop (offset + 2) der) = needle
            then True else scan_digest der needle (offset + 1))
      else False)"
  by pat_completeness auto
termination
  by (relation "measure (\<lambda>(der, needle, offset). length der - offset)") auto

declare scan_digest.simps [simp del]

definition verify_timestamp_response :: "bytes \<Rightarrow> bytes \<Rightarrow> (string + unit) checked" where
  "verify_timestamp_response der digest = do {
     t \<leftarrow> der_tlv der;
     case t of
       None \<Rightarrow> Some (Inl ''not a DER TimeStampResp (no top-level TLV)'')
     | Some outer \<Rightarrow>
         if tag outer \<noteq> 0x30
         then Some (Inl ''not a DER TimeStampResp (top level is not a SEQUENCE)'')
         else do {
           u \<leftarrow> der_tlv (tlv_value outer);
           case u of
             None \<Rightarrow> Some (Inl ''not a DER TimeStampResp (missing PKIStatusInfo)'')
           | Some status \<Rightarrow>
               if tag status \<noteq> 0x30
               then Some (Inl ''not a DER TimeStampResp (first element is not PKIStatusInfo)'')
               else do {
                 rest \<leftarrow> slice (tlv_value outer) (raw_len status) (length (tlv_value outer));
                 Some (if scan_digest der digest 0 then Inr ()
                       else Inl ''the response's messageImprint does not carry this head's digest'') } } }"

lemma der_lengths_bounds:
  assumes "der_lengths bs = Some (c, h)" and "2 \<le> length bs"
  shows "2 \<le> h" and "h \<le> length bs" and "c < 2 ^ 32" and "h \<le> 6"
proof -
  have b: "unat b < 256" for b :: u8 using unsigned_less [of b, where ?'a = nat] by simp
  have two: "unat x * 256 + unat y < 2 ^ 32" for x y :: u8 using b [of x] b [of y] by simp
  have three: "(unat x * 256 + unat y) * 256 + unat z < 2 ^ 32" for x y z :: u8
    using b [of x] b [of y] b [of z] by simp
  have four: "((unat x * 256 + unat y) * 256 + unat z) * 256 + unat w < 2 ^ 32" for x y z w :: u8
    using b [of x] b [of y] b [of z] b [of w] by simp
  show "2 \<le> h" and "h \<le> length bs" and "h \<le> 6"
    using assms by (auto simp: der_lengths_def Let_def split: if_splits)
  show "c < 2 ^ 32"
    using assms(1) two three four less_trans [OF b, of "2 ^ 32"]
    by (auto simp: der_lengths_def be_value_def Let_def split: if_splits)
qed

lemma der_tlv_Some:
  assumes "der_tlv bs = Some (Some t)"
  shows "2 \<le> raw_len t" and "raw_len t \<le> length bs" and "length (tlv_value t) + 2 \<le> raw_len t"
    and "tag t = bs ! 0"
    and "tlv_value t = drop (raw_len t - length (tlv_value t)) (take (raw_len t) bs)"
proof -
  from assms obtain c h where l: "2 \<le> length bs" "der_lengths bs = Some (c, h)"
    and t: "h + c \<le> length bs" "t = \<lparr>tag = bs ! 0, tlv_value = take c (drop h bs), raw_len = h + c\<rparr>"
    by (auto simp: der_tlv_def slice_def usize_add_def bind_eq_Some_conv split: if_splits option.splits)
  note b = der_lengths_bounds [OF l(2,1)]
  show "2 \<le> raw_len t" "raw_len t \<le> length bs" "length (tlv_value t) + 2 \<le> raw_len t" "tag t = bs ! 0"
    using b t by auto
  show "tlv_value t = drop (raw_len t - length (tlv_value t)) (take (raw_len t) bs)"
    using b t by (simp add: min_absorb2 drop_take)
qed

lemma der_tlv_total: "der_tlv bs \<noteq> None"
proof (cases "2 \<le> length bs")
  case True
  have "usize_add h c \<noteq> None \<and> (\<forall>tot. usize_add h c = Some tot \<and> tot \<le> length bs \<longrightarrow> slice bs h tot \<noteq> None)"
    if "der_lengths bs = Some (c, h)" for c h
    using der_lengths_bounds [OF that True] by (auto simp: usize_add_def slice_def)
  with True show ?thesis
    by (auto simp: der_tlv_def bind_eq_None_conv split: option.split)
qed (simp add: der_tlv_def)

definition digest_at :: "bytes \<Rightarrow> bytes \<Rightarrow> nat \<Rightarrow> bool" where
  "digest_at der needle i \<longleftrightarrow> i + 34 \<le> length der \<and> der ! i = 0x04 \<and> der ! (i + 1) = 0x20 \<and>
     take 32 (drop (i + 2) der) = needle"

lemma scan_digest_iff: "scan_digest der needle offset \<longleftrightarrow> (\<exists>i\<ge>offset. digest_at der needle i)"
proof (induction der needle offset rule: scan_digest.induct)
  case (1 der needle offset)
  have step: "(\<exists>i\<ge>offset. digest_at der needle i) \<longleftrightarrow>
      digest_at der needle offset \<or> (\<exists>i\<ge>offset + 1. digest_at der needle i)"
    by (metis Suc_eq_plus1 Suc_le_eq le_less)
  show ?case
  proof (cases "offset + 34 \<le> length der")
    case True
    with 1 show ?thesis unfolding step
      by (subst scan_digest.simps) (simp only: digest_at_def if_True if_False, metis)
  next
    case False
    then have "\<not> (\<exists>i\<ge>offset. digest_at der needle i)" by (auto simp: digest_at_def)
    with False show ?thesis by (subst scan_digest.simps) simp
  qed
qed

lemma verify_timestamp_response_total: "verify_timestamp_response der digest \<noteq> None"
proof -
  obtain t where t: "der_tlv der = Some t" using der_tlv_total [of der] by auto
  show ?thesis
  proof (cases t)
    case outer: (Some outer)
    obtain u where u: "der_tlv (tlv_value outer) = Some u" using der_tlv_total [of "tlv_value outer"] by auto
    have "raw_len status \<le> length (tlv_value outer)" if "u = Some status" for status
      using u that der_tlv_Some(2) by blast
    with t u outer show ?thesis
      by (cases u) (auto simp: verify_timestamp_response_def slice_def)
  qed (use t in \<open>simp add: verify_timestamp_response_def\<close>)
qed

text \<open>Acceptance, exactly: two nested SEQUENCE headers and the octets anywhere.\<close>

lemma verify_timestamp_response_iff:
  "verify_timestamp_response der digest = Some (Inr ()) \<longleftrightarrow>
     (\<exists>t u. der_tlv der = Some (Some t) \<and> tag t = 0x30 \<and> der_tlv (tlv_value t) = Some (Some u) \<and>
        tag u = 0x30 \<and> (\<exists>i. digest_at der digest i))"
proof (cases "\<exists>t u. der_tlv der = Some (Some t) \<and> der_tlv (tlv_value t) = Some (Some u)")
  case True
  then obtain t u where tu: "der_tlv der = Some (Some t)" "der_tlv (tlv_value t) = Some (Some u)" by blast
  then have "slice (tlv_value t) (raw_len u) (length (tlv_value t)) \<noteq> None"
    using der_tlv_Some(2) [OF tu(2)] by (simp add: slice_def)
  with tu show ?thesis
    by (auto simp: verify_timestamp_response_def scan_digest_iff)
next
  case False
  then show ?thesis
    by (cases "der_tlv der") (auto simp: verify_timestamp_response_def bind_eq_Some_conv
        split: option.splits if_splits)
qed

text \<open>A granted response that carries a digest.\<close>

definition granted_response :: "bytes \<Rightarrow> bytes" where
  "granted_response dg = [0x30, 0x27, 0x30, 0x03, 0x02, 0x01, 0x00, 0x04, 0x20] @ dg"

lemma granted_response_passes:
  assumes "length dg = 32"
  shows "verify_timestamp_response (granted_response dg) dg = Some (Inr ())"
proof -
  have "der_tlv (granted_response dg) = Some (Some \<lparr>tag = 0x30,
      tlv_value = [0x30, 0x03, 0x02, 0x01, 0x00, 0x04, 0x20] @ dg, raw_len = 41\<rparr>)"
    using assms by (simp add: granted_response_def der_tlv_def der_lengths_def usize_add_def slice_def)
  moreover have "der_tlv ([0x30, 0x03, 0x02, 0x01, 0x00, 0x04, 0x20] @ dg)
      = Some (Some \<lparr>tag = 0x30, tlv_value = [0x02, 0x01, 0x00], raw_len = 5\<rparr>)"
    by (simp add: der_tlv_def der_lengths_def usize_add_def slice_def)
  moreover have "digest_at (granted_response dg) dg 7" using assms by (simp add: granted_response_def digest_at_def)
  ultimately show ?thesis by (auto simp: verify_timestamp_response_iff)
qed

section \<open>The encoding the reader inverts\<close>

text \<open>Definite lengths of X.690: one byte up to 127, else the number of length bytes and the
  length in big-endian order, in as few bytes as it needs (up to four).\<close>

fun be_bytes :: "nat \<Rightarrow> nat \<Rightarrow> bytes" where
  "be_bytes 0 n = []"
| "be_bytes (Suc k) n = be_bytes k (n div 256) @ [of_nat n]"

definition der_length :: "nat \<Rightarrow> bytes" where
  "der_length n =
     (if n < 128 then [of_nat n]
      else if n < 2 ^ 8 then 0x81 # be_bytes 1 n
      else if n < 2 ^ 16 then 0x82 # be_bytes 2 n
      else if n < 2 ^ 24 then 0x83 # be_bytes 3 n
      else 0x84 # be_bytes 4 n)"

definition der_encode :: "u8 \<Rightarrow> bytes \<Rightarrow> bytes" where
  "der_encode tg v = tg # der_length (length v) @ v"

lemma length_be_bytes [simp]: "length (be_bytes k n) = k"
  by (induction k arbitrary: n) simp_all

lemma unat_of_nat_u8: "unat (of_nat n :: u8) = n mod 256"
  by (simp add: unat_of_nat)

lemma be_value_be_bytes: "n < 256 ^ k \<Longrightarrow> be_value (be_bytes k n) = n"
proof (induction k arbitrary: n)
  case (Suc k)
  then have "be_value (be_bytes k (n div 256)) = n div 256" by (intro Suc.IH) (simp add: less_mult_imp_div_less)
  then show ?case by (simp add: be_value_def unat_of_nat_u8)
qed (simp add: be_value_def)

lemma be_bytes_numeral:
  "be_bytes 1 n = [of_nat n]" "be_bytes 2 n = [of_nat (n div 256), of_nat n]"
  "be_bytes 3 n = [of_nat (n div 256 div 256), of_nat (n div 256), of_nat n]"
  "be_bytes 4 n = [of_nat (n div 256 div 256 div 256), of_nat (n div 256 div 256), of_nat (n div 256), of_nat n]"
proof -
  have n: "(1 :: nat) = Suc 0" "(2 :: nat) = Suc (Suc 0)" "(3 :: nat) = Suc (Suc (Suc 0))"
    "(4 :: nat) = Suc (Suc (Suc (Suc 0)))" by simp_all
  show "be_bytes 1 n = [of_nat n]" "be_bytes 2 n = [of_nat (n div 256), of_nat n]"
    "be_bytes 3 n = [of_nat (n div 256 div 256), of_nat (n div 256), of_nat n]"
    "be_bytes 4 n = [of_nat (n div 256 div 256 div 256), of_nat (n div 256 div 256), of_nat (n div 256), of_nat n]"
    unfolding n by (simp_all only: be_bytes.simps append.simps)
qed

lemma der_lengths_encoded:
  assumes "n < 2 ^ 32"
  shows "der_lengths (tg # der_length n @ rest) = Some (n, Suc (length (der_length n)))"
proof -
  note v = be_value_be_bytes [of n 1] be_value_be_bytes [of n 2] be_value_be_bytes [of n 3] be_value_be_bytes [of n 4]
  have z: "be_value (0 # bs) = be_value bs" for bs by (simp add: be_value_def)
  consider "n < 128" | "128 \<le> n" "n < 2 ^ 8" | "2 ^ 8 \<le> n" "n < 2 ^ 16" | "2 ^ 16 \<le> n" "n < 2 ^ 24"
    | "2 ^ 24 \<le> n" "n < 2 ^ 32" using assms by linarith
  then show ?thesis
  proof cases
    case 1
    then show ?thesis by (simp add: der_length_def der_lengths_def unat_of_nat_u8)
  next
    case 2
    then show ?thesis by (simp add: der_length_def der_lengths_def unat_of_nat_u8 be_bytes_numeral)
  next
    case 3
    then show ?thesis using v(2) by (simp add: der_length_def der_lengths_def be_bytes_numeral)
  next
    case 4
    then show ?thesis using v(3) z by (simp add: der_length_def der_lengths_def be_bytes_numeral)
  next
    case 5
    then show ?thesis using v(4) by (simp add: der_length_def der_lengths_def be_bytes_numeral)
  qed
qed

text \<open>A header that is cut short is not taken for a length.\<close>

lemma der_length_forms:
  assumes "2 \<le> length (der_length n)"
  shows "\<exists>j b. der_length n = b # be_bytes j n \<and> (b, j) \<in> {(0x81, 1), (0x82, 2), (0x83, 3), (0x84, 4)}"
  using assms by (auto simp: der_length_def)

lemma der_lengths_short:
  assumes "(bs ! 1, j) \<in> {(0x81, 1), (0x82, 2), (0x83, 3), (0x84, 4)}" and "length bs < 2 + j"
  shows "der_lengths bs = None"
  using assms by (auto simp: der_lengths_def)

lemma der_lengths_cut:
  assumes "2 \<le> k" and "k < Suc (length (der_length n))"
  shows "der_lengths (take k (tg # der_length n @ rest)) = None"
proof -
  have "2 \<le> length (der_length n)" using assms by simp
  then obtain j b where l: "der_length n = b # be_bytes j n" "(b, j) \<in> {(0x81, 1), (0x82, 2), (0x83, 3), (0x84, 4)}"
    using der_length_forms by blast
  let ?bs = "take k (tg # b # be_bytes j n @ rest)"
  have "?bs ! 1 = b" using assms(1) by simp
  moreover have "length ?bs < 2 + j" using assms(2) l(1) by simp
  ultimately show ?thesis using der_lengths_short [of ?bs j] l by simp
qed

lemma der_tlv_encoded:
  assumes "length v < 2 ^ 32"
  shows "der_tlv (der_encode tg v @ rest)
    = Some (Some \<lparr>tag = tg, tlv_value = v, raw_len = length (der_encode tg v)\<rparr>)"
proof -
  have "length (der_length (length v)) \<le> 5" "0 < length (der_length (length v))" by (simp_all add: der_length_def)
  then show ?thesis
    using der_lengths_encoded [OF assms, of tg "v @ rest"] assms
    by (simp add: der_tlv_def der_encode_def usize_add_def slice_def)
qed

lemma der_tlv_cut:
  assumes "length v < 2 ^ 32" and "k < length (der_encode tg v)"
  shows "der_tlv (take k (der_encode tg v)) = Some None"
proof (cases "2 \<le> k")
  case True
  let ?l = "der_length (length v)"
  show ?thesis
  proof (cases "k < Suc (length ?l)")
    case cut: True
    with der_lengths_cut [OF True cut, of tg v] assms(2) show ?thesis
      by (simp add: der_tlv_def der_encode_def)
  next
    case False
    then obtain d where d: "k = Suc (length ?l) + d" by (metis le_Suc_ex not_less)
    then have t: "take k (der_encode tg v) = tg # ?l @ take d v" by (simp add: der_encode_def)
    have "length (der_length (length v)) \<le> 5" "0 < length ?l" by (simp_all add: der_length_def)
    then show ?thesis
      using der_lengths_encoded [OF assms(1), of tg "take d v"] assms d unfolding t
      by (simp add: der_tlv_def der_encode_def usize_add_def)
  qed
next
  case False
  then have "length (take k (der_encode tg v)) < 2" by simp
  then show ?thesis unfolding der_tlv_def by (simp only: if_True)
qed

end
