(* ===== verification/Tcp.thy ===== *)
theory Tcp
  imports Commit_Record
begin

text \<open>
  The network half of \<open>http_post_binary\<close> in \<open>src/tsa.rs\<close> (lines 204 to 234): connect,
  two writes, the half-close, and the read to the end, each an operation of tokio's that
  completes after some time or never, and the time-outs around two of them.
\<close>

section \<open>Operations that take time\<close>

text \<open>An asynchronous operation: its result after so many milliseconds, or none ever.\<close>

datatype 'a future = Ready nat 'a | Never

fun map_result :: "('a \<Rightarrow> 'b) \<Rightarrow> 'a future \<Rightarrow> 'b future" where
  "map_result f (Ready t x) = Ready t (f x)"
| "map_result f Never = Never"

fun delayed :: "nat \<Rightarrow> 'a future \<Rightarrow> 'a future" where
  "delayed t (Ready u x) = Ready (t + u) x"
| "delayed t Never = Never"

text \<open>\<open>.await?\<close>: an error ends the sequence, a value goes on.\<close>

fun and_then :: "('e + 'a) future \<Rightarrow> ('a \<Rightarrow> ('e + 'b) future) \<Rightarrow> ('e + 'b) future" where
  "and_then (Ready t (Inl e)) k = Ready t (Inl e)"
| "and_then (Ready t (Inr x)) k = delayed t (k x)"
| "and_then Never k = Never"

text \<open>\<open>tokio::time::timeout\<close>: an operation that is ready at the deadline is in time.\<close>

fun timeout :: "nat \<Rightarrow> 'e \<Rightarrow> ('e + 'a) future \<Rightarrow> ('e + 'a) future" where
  "timeout d e (Ready t x) = (if t \<le> d then Ready t x else Ready d (Inl e))"
| "timeout d e Never = Ready d (Inl e)"

text \<open>What a caller that awaits it gets: a result, or none (a panic, or waiting for ever).\<close>

fun await :: "'a checked future \<Rightarrow> 'a checked" where
  "await (Ready t x) = x"
| "await Never = None"

text \<open>An operation ends in time.\<close>

definition ends_by :: "'a future \<Rightarrow> nat \<Rightarrow> bool" where
  "ends_by f d \<longleftrightarrow> (\<exists>t x. f = Ready t x \<and> t \<le> d)"

lemma ends_by_timeout: "ends_by (timeout d e f) d"
  by (cases f) (simp_all add: ends_by_def)

lemma ends_by_map_result [simp]: "ends_by (map_result f x) d \<longleftrightarrow> ends_by x d"
  by (cases x) (simp_all add: ends_by_def)

lemma ends_by_and_then:
  assumes "ends_by f c" and "\<And>x. ends_by (k x) d"
  shows "ends_by (and_then f k) (c + d)"
proof -
  obtain t r where f: "f = Ready t r" "t \<le> c" using assms(1) by (auto simp: ends_by_def)
  show ?thesis
  proof (cases r)
    case (Inl e)
    with f show ?thesis by (simp add: ends_by_def)
  next
    case (Inr x)
    obtain u y where "k x = Ready u y" "u \<le> d" using assms(2) [of x] by (auto simp: ends_by_def)
    with f Inr show ?thesis by (simp add: ends_by_def add_mono)
  qed
qed

section \<open>The conversation\<close>

text \<open>The peer at an address, as the five calls meet it; what was sent before is an
  argument of the later ones.\<close>

record tcp_peer =
  tcp_connect :: "(string + unit) future"
  tcp_write :: "bytes \<Rightarrow> (string + unit) future"
  tcp_write_body :: "bytes \<Rightarrow> bytes \<Rightarrow> (string + unit) future"
  tcp_shutdown :: "bytes \<Rightarrow> bytes \<Rightarrow> (string + unit) future"
  tcp_read :: "bytes \<Rightarrow> bytes \<Rightarrow> (string + bytes) future"

definition submit_timeout :: nat where
  "submit_timeout = 3000"

definition context_err :: "string \<Rightarrow> (string + 'a) future \<Rightarrow> (string + 'a) future" where
  "context_err what f = map_result (map_err (\<lambda>e. what @ e)) f"

definition exchange :: "tcp_peer \<Rightarrow> bytes \<Rightarrow> bytes \<Rightarrow> (string + bytes) future" where
  "exchange P request body =
     and_then (timeout submit_timeout ''connect timeout'' (context_err ''connect: '' (tcp_connect P))) (\<lambda>_.
     and_then (context_err ''write: '' (tcp_write P request)) (\<lambda>_.
     and_then (context_err ''write body: '' (tcp_write_body P request body)) (\<lambda>_.
     and_then (context_err ''shutdown: '' (tcp_shutdown P request body)) (\<lambda>_.
     timeout submit_timeout ''read timeout'' (context_err ''read: '' (tcp_read P request body))))))"

text \<open>The conversation ends when the calls without a time-out do.\<close>

lemma ends_by_context_err [simp]: "ends_by (context_err what f) d \<longleftrightarrow> ends_by f d"
  by (simp add: context_err_def)

lemma exchange_ends:
  assumes "ends_by (tcp_write P request) w" and "ends_by (tcp_write_body P request body) b"
    and "ends_by (tcp_shutdown P request body) s"
  shows "ends_by (exchange P request body) (2 * submit_timeout + w + b + s)"
proof -
  have "ends_by (exchange P request body) (submit_timeout + (w + (b + (s + submit_timeout))))"
    unfolding exchange_def
    by (intro ends_by_and_then ends_by_timeout) (use assms in simp_all)
  moreover have "submit_timeout + (w + (b + (s + submit_timeout))) = 2 * submit_timeout + w + b + s" by simp
  ultimately show ?thesis by (simp only:)
qed

text \<open>It ends, with what was read or with an error, as soon as the peer takes the request: the
  time-outs see to the two calls that the peer can hold up.\<close>

definition takes_requests :: "tcp_peer \<Rightarrow> bool" where
  "takes_requests P \<longleftrightarrow> (\<forall>request body. tcp_write P request \<noteq> Never \<and>
     tcp_write_body P request body \<noteq> Never \<and> tcp_shutdown P request body \<noteq> Never)"

lemma not_Never: "f \<noteq> Never \<longleftrightarrow> (\<exists>d. ends_by f d)"
  by (cases f) (auto simp: ends_by_def)

lemma and_then_Ready:
  "and_then f k = Ready t (Inr y) \<Longrightarrow> \<exists>u v x. f = Ready u (Inr x) \<and> k x = Ready v (Inr y)"
  by (induction f k rule: and_then.induct) (auto elim: delayed.elims)

lemma timeout_Ready: "timeout d e f = Ready t (Inr y) \<Longrightarrow> f = Ready t (Inr y)"
  by (cases f) (simp_all split: if_splits)

lemma context_err_Ready: "context_err what f = Ready t (Inr y) \<Longrightarrow> f = Ready t (Inr y)"
proof (cases f)
  case (Ready u r)
  then show "context_err what f = Ready t (Inr y) \<Longrightarrow> f = Ready t (Inr y)"
    by (cases r) (simp_all add: context_err_def)
qed (simp add: context_err_def)

lemma exchange_read:
  assumes "exchange P request body = Ready t (Inr reply)"
  shows "\<exists>u. tcp_read P request body = Ready u (Inr reply)"
  using assms unfolding exchange_def by (blast dest: and_then_Ready timeout_Ready context_err_Ready)

lemma exchange_returns:
  assumes "takes_requests P"
  shows "exchange P request body \<noteq> Never"
  using assms exchange_ends [of P request _ body] unfolding takes_requests_def not_Never by blast

text \<open>It waits for ever on a write that never completes.\<close>

lemma exchange_stalled:
  assumes "tcp_connect P = Ready t (Inr ())" and "t \<le> submit_timeout" and "tcp_write P request = Never"
  shows "exchange P request body = Never"
  using assms by (simp add: exchange_def context_err_def)

section \<open>Four peers\<close>

definition silent_peer :: tcp_peer where
  "silent_peer = \<lparr>tcp_connect = Ready 0 (Inr ()), tcp_write = (\<lambda>_. Never), tcp_write_body = (\<lambda>_ _. Never),
     tcp_shutdown = (\<lambda>_ _. Never), tcp_read = (\<lambda>_ _. Never)\<rparr>"

definition refusing_peer :: tcp_peer where
  "refusing_peer = silent_peer\<lparr>tcp_connect := Ready 0 (Inl ''refused'')\<rparr>"

definition answering_peer :: "bytes \<Rightarrow> tcp_peer" where
  "answering_peer reply = \<lparr>tcp_connect = Ready 0 (Inr ()), tcp_write = (\<lambda>_. Ready 0 (Inr ())),
     tcp_write_body = (\<lambda>_ _. Ready 0 (Inr ())), tcp_shutdown = (\<lambda>_ _. Ready 0 (Inr ())),
     tcp_read = (\<lambda>_ _. Ready 0 (Inr reply))\<rparr>"

definition absent_peer :: tcp_peer where
  "absent_peer = (answering_peer [])\<lparr>tcp_connect := Never, tcp_read := (\<lambda>_ _. Never)\<rparr>"

lemma absent_peer_takes: "takes_requests absent_peer"
  by (simp add: takes_requests_def absent_peer_def answering_peer_def)

lemma exchange_refused: "exchange refusing_peer request body = Ready 0 (Inl ''connect: refused'')"
  by (simp add: exchange_def refusing_peer_def context_err_def)

lemma exchange_answered: "exchange (answering_peer reply) request body = Ready 0 (Inr reply)"
  by (simp add: exchange_def answering_peer_def context_err_def)

end
