(* ===== verification/Http.thy ===== *)
theory Http
  imports Der Tcp
begin

text \<open>
  The HTTP half of \<open>src/tsa.rs\<close> (lines 202 to 314): the URL parser, the request, and
  the decoding of the response with its chunked bodies. The peer that a host and a port
  lead to is a field of the record \<open>tsa_env\<close>, as are the bytes of a hash and the seconds
  of a timestamp.
\<close>

record ('h, 't) tsa_env =
  hash_bytes :: "'h \<Rightarrow> bytes"
  ts_secs :: "'t \<Rightarrow> int"
  ts_from_secs :: "int \<Rightarrow> 't"
  peer :: "string \<Rightarrow> nat \<Rightarrow> tcp_peer"

section \<open>Text and bytes\<close>

text \<open>
  \<open>String::from_utf8_lossy\<close>: the ranges of the continuation bytes that may follow a
  leading byte; a maximal invalid part becomes one U+FFFD.
\<close>

definition utf8_tail :: "nat \<Rightarrow> (nat \<times> nat) list option" where
  "utf8_tail b =
     (let c = (0x80, 0xBF) in
      if b < 0x80 then Some []
      else if 0xC2 \<le> b \<and> b \<le> 0xDF then Some [c]
      else if b = 0xE0 then Some [(0xA0, 0xBF), c]
      else if b = 0xED then Some [(0x80, 0x9F), c]
      else if 0xE1 \<le> b \<and> b \<le> 0xEF then Some [c, c]
      else if b = 0xF0 then Some [(0x90, 0xBF), c, c]
      else if 0xF1 \<le> b \<and> b \<le> 0xF3 then Some [c, c, c]
      else if b = 0xF4 then Some [(0x80, 0x8F), c, c]
      else None)"

fun tail_match :: "(nat \<times> nat) list \<Rightarrow> bytes \<Rightarrow> nat" where
  "tail_match ((lo, hi) # rs) (b # bs) =
     (if lo \<le> unat b \<and> unat b \<le> hi then Suc (tail_match rs bs) else 0)"
| "tail_match _ _ = 0"

function utf8_lossy :: "bytes \<Rightarrow> string" where
  "utf8_lossy [] = []"
| "utf8_lossy (b # bs) =
     (case utf8_tail (unat b) of
        None \<Rightarrow> to_str [0xEF, 0xBF, 0xBD] @ utf8_lossy bs
      | Some rs \<Rightarrow>
          (let n = tail_match rs bs in
           (if n = length rs then to_str (b # take n bs) else to_str [0xEF, 0xBF, 0xBD])
             @ utf8_lossy (drop n bs)))"
  by pat_completeness auto
termination
  by (relation "measure length") auto

text \<open>\<open>windows(n).position(..)\<close>: the first occurrence.\<close>

definition find_subsequence :: "bytes \<Rightarrow> bytes \<Rightarrow> nat option" where
  "find_subsequence haystack needle =
     (if needle = [] \<or> length haystack < length needle then None
      else find (\<lambda>i. take (length needle) (drop i haystack) = needle)
             [0..<length haystack - length needle + 1])"

lemma find_subsequence_Some:
  assumes "find_subsequence h w = Some i"
  shows "i + length w \<le> length h" and "take (length w) (drop i h) = w"
    and "\<forall>j<i. take (length w) (drop j h) \<noteq> w"
  using assms
  by (auto simp: find_subsequence_def find_Some_iff nth_upt simp del: upt_Suc split: if_splits)

lemma find_subsequence_None:
  assumes "find_subsequence h w = None" and "w \<noteq> []" and "i + length w \<le> length h"
  shows "take (length w) (drop i h) \<noteq> w"
proof -
  have "i \<in> set [0..<length h - length w + 1]" using assms(3) by (simp del: upt_Suc)
  then show ?thesis
    using assms by (fastforce simp: find_subsequence_def find_None_iff simp del: upt_Suc split: if_splits)
qed

section \<open>URLs\<close>

definition parse_http_url :: "string \<Rightarrow> string + (string \<times> nat \<times> string)" where
  "parse_http_url url =
     rbind (ok_or (strip_prefix ''http://'' url)
              (''`'' @ url @ ''`: only plain http:// TSA endpoints (terminate TLS at a proxy)'')) (\<lambda>rest.
     let (authority, pth) = (case split_once (CHR ''/'') rest of
           Some (a, p) \<Rightarrow> (a, ''/'' @ p) | None \<Rightarrow> (rest, ''/'')) in
     rbind (case rsplit_once (CHR '':'') authority of
              Some (host, port) \<Rightarrow>
                rbind (ok_or (from_str_radix 16 10 port) (''bad port in `'' @ url @ ''`'')) (\<lambda>n. Inr (host, n))
            | None \<Rightarrow> Inr (authority, 80)) (\<lambda>(host, port).
     if host = [] then Inl (''`'' @ url @ ''`: no host'') else Inr (host, port, pth)))"

text \<open>Composed URLs are taken apart again, and only those are accepted.\<close>

lemma parse_http_url_rest:
  "parse_http_url (''http://'' @ rest) =
    (let (authority, pth) = (case split_once (CHR ''/'') rest of
           Some (a, p) \<Rightarrow> (a, ''/'' @ p) | None \<Rightarrow> (rest, ''/'')) in
     rbind (case rsplit_once (CHR '':'') authority of
              Some (host, port) \<Rightarrow>
                rbind (ok_or (from_str_radix 16 10 port) (''bad port in `'' @ (''http://'' @ rest) @ ''`''))
                  (\<lambda>n. Inr (host, n))
            | None \<Rightarrow> Inr (authority, 80)) (\<lambda>(host, port).
     if host = [] then Inl (''`'' @ (''http://'' @ rest) @ ''`: no host'') else Inr (host, port, pth)))"
  unfolding parse_http_url_def strip_prefix_append by (simp only: ok_or_simps rbind_simps)

lemma parse_http_url_port:
  assumes "host \<noteq> []" and "CHR ''/'' \<notin> set host" and "port < 2 ^ 16"
  shows "parse_http_url (''http://'' @ host @ '':'' @ show_nat port @ ''/'' @ p)
    = Inr (host, port, ''/'' @ p)"
proof -
  have n: "CHR ''/'' \<notin> set (show_nat port)" "CHR '':'' \<notin> set (show_nat port)"
    by (rule show_nat_not_in, simp)+
  have "split_once (CHR ''/'') ((host @ '':'' @ show_nat port) @ CHR ''/'' # p)
      = Some (host @ '':'' @ show_nat port, p)"
    using n assms(2) by (intro split_once_append) simp
  moreover have "rsplit_once (CHR '':'') (host @ CHR '':'' # show_nat port) = Some (host, show_nat port)"
    using n by (intro rsplit_once_append)
  ultimately show ?thesis
    using assms(1) from_str_radix_show_nat [OF assms(3)]
    unfolding parse_http_url_rest by simp
qed

lemma parse_http_url_default:
  assumes "host \<noteq> []" and "CHR ''/'' \<notin> set host" and "CHR '':'' \<notin> set host"
  shows "parse_http_url (''http://'' @ host) = Inr (host, 80, ''/'')"
  using assms unfolding parse_http_url_rest by (simp add: split_once_None rsplit_once_None)

lemma parse_http_url_Inr:
  assumes "parse_http_url url = Inr (host, port, pth)"
  shows "host \<noteq> []" and "CHR ''/'' \<notin> set host" and "port < 2 ^ 16"
    and "\<exists>p. pth = ''/'' @ p" and "\<exists>rest. url = ''http://'' @ rest"
proof -
  from assms obtain rest where rest: "url = ''http://'' @ rest"
    by (auto simp: parse_http_url_def rbind_eq_Inr_iff ok_or_eq_Inr_iff strip_prefix_eq_Some_iff)
  then show "\<exists>rest. url = ''http://'' @ rest" by blast
  obtain au p where ap: "(case split_once (CHR ''/'') rest of Some (a, p) \<Rightarrow> (a, ''/'' @ p)
      | None \<Rightarrow> (rest, ''/'')) = (au, p)" by fastforce
  then have au: "CHR ''/'' \<notin> set au" and p: "\<exists>q. p = ''/'' @ q"
    by (auto dest: split_once_Some(2) set_takeWhileD simp: split_once_def split: option.splits if_splits)
  from assms have h: "pth = p" "host \<noteq> []"
    "(case rsplit_once (CHR '':'') au of
              Some (host, port) \<Rightarrow>
                rbind (ok_or (from_str_radix 16 10 port) (''bad port in `'' @ url @ ''`'')) (\<lambda>n. Inr (host, n))
            | None \<Rightarrow> Inr (au, 80)) = Inr (host, port)"
    unfolding rest parse_http_url_rest ap
    by (auto simp: rbind_eq_Inr_iff simp del: append.simps split: if_splits)
  show "host \<noteq> []" "\<exists>q. pth = ''/'' @ q" using h p by auto
  show "CHR ''/'' \<notin> set host" "port < 2 ^ 16"
    using h(3) au
    by (auto simp: rbind_eq_Inr_iff ok_or_eq_Inr_iff dest!: rsplit_once_Some from_str_radix_less
        split: option.splits)
qed

section \<open>The HTTP response\<close>

definition crlf :: bytes where
  "crlf = [0x0D, 0x0A]"

primrec split_on :: "char \<Rightarrow> string \<Rightarrow> string list" where
  "split_on c [] = [[]]"
| "split_on c (x # xs) =
     (if x = c then [] # split_on c xs
      else (case split_on c xs of [] \<Rightarrow> [[x]] | p # ps \<Rightarrow> (x # p) # ps))"

text \<open>The \<open>while let\<close> over the chunks of a chunked body.\<close>

function decode_chunks :: "bytes \<Rightarrow> bytes \<Rightarrow> (string + bytes) checked" where
  "decode_chunks rest joined =
     (case find_subsequence rest crlf of
        None \<Rightarrow> Some (Inr joined)
      | Some line_end \<Rightarrow>
          (case from_str_radix 64 16
                  (takeWhile (\<lambda>c. c \<noteq> CHR '';'') (trim (utf8_lossy (take line_end rest)))) of
             None \<Rightarrow> Some (Inl ''bad chunk size'')
           | Some sz \<Rightarrow>
               if sz = 0 then Some (Inr joined)
               else do {
                 start \<leftarrow> usize_add line_end 2;
                 stop \<leftarrow> usize_add start sz;
                 if length rest < stop then Some (Inl ''truncated chunk'')
                 else do {
                   chunk \<leftarrow> slice rest start stop;
                   rest' \<leftarrow> slice rest stop (length rest);
                   decode_chunks (if starts_with crlf rest' then drop 2 rest' else rest')
                     (joined @ chunk) } }))"
  by pat_completeness auto
termination
  by (relation "measure (\<lambda>(rest, joined). length rest)")
    (auto simp: usize_add_def slice_def split: if_splits)

declare decode_chunks.simps [simp del]

definition content_length :: "string \<Rightarrow> nat option" where
  "content_length headers =
     Option.bind (find (\<lambda>l. starts_with ''content-length:'' (map ascii_lower l)) (raw_lines headers)) (\<lambda>l.
     Option.bind (get_opt (split_on (CHR '':'') l) 1) (\<lambda>v. from_str_radix 64 10 (trim v)))"

definition decode_http_response :: "bytes \<Rightarrow> (string + bytes) checked" where
  "decode_http_response resp =
     (case find_subsequence resp (crlf @ crlf) of
        None \<Rightarrow> Some (Inl ''malformed HTTP response (no header terminator)'')
      | Some header_end \<Rightarrow>
          (let headers = utf8_lossy (take header_end resp);
               status_line = (case raw_lines headers of [] \<Rightarrow> [] | l # _ \<Rightarrow> l)
           in case Option.bind (nth_word 1 status_line) (from_str_radix 16 10) of
                None \<Rightarrow> Some (Inl ''malformed HTTP status line'')
              | Some status \<Rightarrow>
                  if status \<noteq> 200 then Some (Inl (''TSA returned HTTP '' @ show_nat status))
                  else let body = drop (header_end + 4) resp in
                    if contains ''transfer-encoding: chunked'' (map ascii_lower headers)
                    then decode_chunks body []
                    else Some (Inr (case content_length headers of
                           Some n \<Rightarrow> if n \<le> length body then take n body else body
                         | None \<Rightarrow> body))))"

definition crlf_str :: string where
  "crlf_str = [CHR 0x0D, CHR 0x0A]"

definition http_request :: "string \<Rightarrow> string \<Rightarrow> string \<Rightarrow> nat \<Rightarrow> string" where
  "http_request host pth content_type len =
     ''POST '' @ pth @ '' HTTP/1.1'' @ crlf_str @ ''Host: '' @ host @ crlf_str @
     ''Content-Type: '' @ content_type @ crlf_str @ ''Content-Length: '' @ show_nat len @ crlf_str @
     ''Connection: close'' @ crlf_str @ ''Accept: application/timestamp-reply'' @ crlf_str @ crlf_str"

definition http_post_binary ::
  "('h, 't) tsa_env \<Rightarrow> string \<Rightarrow> string \<Rightarrow> bytes \<Rightarrow> (string + bytes) checked future" where
  "http_post_binary E url content_type body =
     (case parse_http_url url of
        Inl e \<Rightarrow> Ready 0 (Some (Inl e))
      | Inr (host, port, pth) \<Rightarrow>
          map_result (\<lambda>r. case r of Inl e \<Rightarrow> Some (Inl e) | Inr resp \<Rightarrow> decode_http_response resp)
            (exchange (peer E host port)
               (of_str (http_request host pth content_type (length body))) body))"

section \<open>Bodies in chunks\<close>

text \<open>The size a chunk's first line gives, and one chunk on the wire.\<close>

definition chunk_size :: "bytes \<Rightarrow> nat option" where
  "chunk_size l = from_str_radix 64 16 (takeWhile (\<lambda>c. c \<noteq> CHR '';'') (trim (utf8_lossy l)))"

definition chunk_frame :: "bytes \<times> bytes \<Rightarrow> bytes" where
  "chunk_frame c = fst c @ crlf @ snd c @ crlf"

definition chunk_ok :: "bytes \<times> bytes \<Rightarrow> bool" where
  "chunk_ok c \<longleftrightarrow> 0x0D \<notin> set (fst c) \<and> snd c \<noteq> [] \<and> chunk_size (fst c) = Some (length (snd c))"

lemma find_subsequence_first:
  assumes "i + length w \<le> length h" and "take (length w) (drop i h) = w" and "w \<noteq> []"
    and "\<And>j. j < i \<Longrightarrow> take (length w) (drop j h) \<noteq> w"
  shows "find_subsequence h w = Some i"
proof (cases "find_subsequence h w")
  case None
  then show ?thesis using find_subsequence_None [OF None assms(3,1)] assms(2) by simp
next
  case (Some k)
  then show ?thesis
    using find_subsequence_Some [OF Some] assms(2,4) by (metis linorder_neqE_nat)
qed

lemma crlf_simps [simp]: "length crlf = 2" "drop 2 crlf = []" "starts_with crlf (crlf @ r)"
  by (simp_all add: crlf_def starts_with_def)

lemma find_crlf:
  assumes "0x0D \<notin> set l"
  shows "find_subsequence (l @ crlf @ rest) crlf = Some (length l)"
proof (rule find_subsequence_first)
  fix j assume j: "j < length l"
  then have "hd (take (length crlf) (drop j (l @ crlf @ rest))) = l ! j"
    by (simp add: crlf_def hd_append hd_drop_conv_nth nth_append)
  moreover have "l ! j \<noteq> 0x0D" using j assms by (metis nth_mem)
  ultimately show "take (length crlf) (drop j (l @ crlf @ rest)) \<noteq> crlf"
    by (auto simp: crlf_def)
qed (simp_all add: crlf_def)

lemma decode_chunks_step:
  assumes "0x0D \<notin> set l"
  shows "decode_chunks (l @ crlf @ rest) acc =
    (case chunk_size l of
       None \<Rightarrow> Some (Inl ''bad chunk size'')
     | Some n \<Rightarrow>
         if n = 0 then Some (Inr acc)
         else if 2 ^ 64 \<le> length l + 2 + n then None
         else if length rest < n then Some (Inl ''truncated chunk'')
         else decode_chunks (if starts_with crlf (drop n rest) then drop 2 (drop n rest) else drop n rest)
                (acc @ take n rest))"
proof -
  have d: "drop (Suc (Suc (length l + k))) (l @ crlf @ rest) = drop k rest"
     for k by (simp add: crlf_def)
  have t: "take k (drop (Suc (Suc (length l))) (l @ crlf @ rest)) = take k rest"
     for k by (simp add: crlf_def)
  have n: "length (l @ crlf @ rest) = length l + 2 + length rest" by (simp add: crlf_def)
  show ?thesis
    by (subst decode_chunks.simps)
      (simp add: find_crlf [OF assms] chunk_size_def [symmetric] usize_add_def slice_def d t n
        split: option.split)
qed

lemma decode_chunks_frames:
  assumes "\<forall>c\<in>set cs. chunk_ok c" and "0x0D \<notin> set l" and "chunk_size l = Some 0"
    and "length (concat (map chunk_frame cs)) < 2 ^ 64"
  shows "decode_chunks (concat (map chunk_frame cs) @ l @ crlf @ rest) acc
    = Some (Inr (acc @ concat (map snd cs)))"
  using assms(1,4)
proof (induction cs arbitrary: acc)
  case Nil
  then show ?case using assms(2,3) by (simp add: decode_chunks_step)
next
  case (Cons c cs)
  obtain s b where c: "c = (s, b)" by (cases c)
  with Cons.prems have s: "0x0D \<notin> set s" "b \<noteq> []" "chunk_size s = Some (length b)"
    by (auto simp: chunk_ok_def)
  have "length s + 2 + length b < 2 ^ 64"
    using Cons.prems(2) by (simp add: c chunk_frame_def crlf_def)
  moreover have "decode_chunks (concat (map chunk_frame cs) @ l @ crlf @ rest) (acc @ b)
    = Some (Inr ((acc @ b) @ concat (map snd cs)))"
    using Cons.prems by (intro Cons.IH) simp_all
  ultimately show ?case
    using s decode_chunks_step [OF s(1), of "b @ crlf @ concat (map chunk_frame cs) @ l @ crlf @ rest" acc]
    by (simp add: c chunk_frame_def [of "(s, b)"])
qed

lemma decode_chunks_Inr:
  assumes "decode_chunks rest joined = Some (Inr b)"
  shows "b = joined \<or> (\<exists>i n rest'. i + 2 + n \<le> length rest \<and> 0 < n \<and>
    length rest' \<le> length rest - (i + 2 + n) \<and>
    decode_chunks rest' (joined @ take n (drop (i + 2) rest)) = Some (Inr b))"
proof -
  note un = assms [unfolded decode_chunks.simps [of rest joined] chunk_size_def [symmetric]]
  show ?thesis
  proof (cases "find_subsequence rest crlf")
    case None
    with un show ?thesis by simp
  next
    case i: (Some i)
    obtain n where n: "chunk_size (take i rest) = Some n"
      using un i by (cases "chunk_size (take i rest)") auto
    show ?thesis
    proof (cases "n = 0")
      case False
      let ?r = "drop (i + 2 + n) rest"
      let ?r' = "if starts_with crlf ?r then drop 2 ?r else ?r"
      have b: "i + 2 + n \<le> length rest"
        and d: "decode_chunks ?r' (joined @ take n (drop (i + 2) rest)) = Some (Inr b)"
        using un i n False by (auto simp: usize_add_def slice_def bind_eq_Some_conv split: if_splits)
      have "length ?r' \<le> length rest - (i + 2 + n)" by auto
      with b d False show ?thesis by blast
    qed (use un i n in simp)
  qed
qed

lemma decode_chunks_length:
  "decode_chunks rest acc = Some (Inr b) \<Longrightarrow> length b \<le> length acc + length rest"
proof (induction "length rest" arbitrary: rest acc rule: less_induct)
  case less
  from decode_chunks_Inr [OF less.prems] show ?case
  proof (elim disjE exE conjE)
    fix i n rest'
    assume r: "i + 2 + n \<le> length rest" "0 < n" "length rest' \<le> length rest - (i + 2 + n)"
      "decode_chunks rest' (acc @ take n (drop (i + 2) rest)) = Some (Inr b)"
    then have "length b \<le> length (acc @ take n (drop (i + 2) rest)) + length rest'"
      by (intro less.hyps) auto
    moreover have "length (take n (drop (i + 2) rest)) = n" using r(1) by simp
    ultimately show ?thesis using r(1,3) by simp
  qed simp
qed

text \<open>ASCII text survives the lossy decoding, and header lines are found again.\<close>

lemma of_str_bytes:
  assumes "\<forall>c\<in>set s. (of_char c :: nat) < 128" and "b \<in> set (of_str s)"
  shows "unat b < 128" and "b = 0x0D \<Longrightarrow> CHR 0x0D \<in> set s"
proof -
  from assms obtain c where c: "c \<in> set s" "(of_char c :: nat) < 128" "b = word_of_nat (of_char c)"
    by (auto simp: of_str_def)
  then have u: "unat b = of_char c" by (simp add: unat_of_nat)
  then show "unat b < 128" using c(2) by simp
  assume "b = 0x0D"
  then have "of_char c = (0x0D :: nat)" using u by simp
  also have "\<dots> = of_char (CHR 0x0D)" by simp
  finally have "c = CHR 0x0D" by (simp only: of_char_eq_iff)
  with c(1) show "CHR 0x0D \<in> set s" by simp
qed

lemma to_str_of_str: "to_str (of_str s) = s"
proof -
  have "char_of (unat (word_of_nat (of_char c) :: u8)) = c" for c :: char
    by (simp add: unat_of_nat)
  then show ?thesis by (simp add: to_str_def of_str_def map_idI)
qed

lemma utf8_lossy_ascii: "\<forall>b\<in>set bs. unat b < 128 \<Longrightarrow> utf8_lossy bs = to_str bs"
  by (induction bs) (simp_all add: utf8_tail_def to_str_def)

lemma utf8_lossy_of_str: "\<forall>c\<in>set s. (of_char c :: nat) < 128 \<Longrightarrow> utf8_lossy (of_str s) = s"
  using of_str_bytes(1) [of s] by (simp add: utf8_lossy_ascii to_str_of_str)

lemma of_str_append: "of_str (s @ t) = of_str s @ of_str t"
  by (simp add: of_str_def)

lemma of_str_crlf: "of_str crlf_str = crlf"
  by (simp add: of_str_def crlf_str_def crlf_def)

primrec join_lines :: "string list \<Rightarrow> string" where
  "join_lines [] = []"
| "join_lines (l # ls) = (if ls = [] then l else l @ crlf_str @ join_lines ls)"

definition header_line :: "string \<Rightarrow> bool" where
  "header_line l \<longleftrightarrow> l \<noteq> [] \<and> (\<forall>c\<in>set l. (of_char c :: nat) < 128 \<and> c \<noteq> CHR 0x0D \<and> c \<noteq> CHR 0x0A)"

lemma raw_lines_join:
  "\<forall>l\<in>set ls. header_line l \<Longrightarrow> raw_lines (join_lines ls) = ls"
proof (induction ls)
  case Nil
  then show ?case by (simp add: raw_lines_def)
next
  case (Cons l ls)
  then have l: "newline \<notin> set l" "l \<noteq> []" by (auto simp: header_line_def newline_def)
  show ?case
  proof (cases "ls = []")
    case True
    then show ?thesis using l by (simp add: raw_lines_last)
  next
    case False
    have "newline \<notin> set (l @ [CHR 0x0D])" using l by (simp add: newline_def)
    from raw_lines_line [OF this, of "join_lines ls"] False Cons show ?thesis
      by (simp add: crlf_str_def newline_def strip_cr_def)
  qed
qed

definition lone_cr :: "bytes \<Rightarrow> bool" where
  "lone_cr h \<longleftrightarrow> (\<forall>j<length h. h ! j = 0x0D \<longrightarrow> j + 2 < length h \<and> h ! (j + 2) \<noteq> 0x0D)"

lemma lone_cr_line:
  assumes "0x0D \<notin> set l" and "m \<noteq> []" and "hd m \<noteq> 0x0D" and "lone_cr m"
  shows "lone_cr (l @ crlf @ m)"
  unfolding lone_cr_def
proof (intro allI impI)
  fix j assume j: "j < length (l @ crlf @ m)" and c: "(l @ crlf @ m) ! j = 0x0D"
  have "\<not> j < length l" using c assms(1) by (metis nth_append nth_mem)
  moreover have "j \<noteq> length l + 1" using c by (auto simp: nth_append crlf_def)
  moreover have m: "(l @ crlf @ m) ! (length l + 2 + k) = m ! k" for k by (simp add: nth_append)
  ultimately consider "j = length l" | "length l + 2 \<le> j" by linarith
  then show "j + 2 < length (l @ crlf @ m) \<and> (l @ crlf @ m) ! (j + 2) \<noteq> 0x0D"
  proof cases
    case 1
    then show ?thesis using assms(2,3) m [of 0] by (simp add: hd_conv_nth)
  next
    case 2
    then obtain k where "j = length l + 2 + k" by (auto simp: le_iff_add)
    then show ?thesis using j assms(4) c m [of k] m [of "k + 2"] by (auto simp: lone_cr_def)
  qed
qed

lemma find_blank_line:
  assumes "lone_cr h"
  shows "find_subsequence (h @ crlf @ crlf @ rest) (crlf @ crlf) = Some (length h)"
proof (rule find_subsequence_first)
  fix j assume j: "j < length h"
  let ?t = "take (length (crlf @ crlf)) (drop j (h @ crlf @ crlf @ rest))"
  have "?t ! 0 = h ! j" using j by (simp add: nth_append)
  moreover have "?t ! 2 = h ! (j + 2)" if "j + 2 < length h"
  proof -
    have "2 < length h - j" using that by arith
    then show ?thesis using that by (simp add: nth_append)
  qed
  ultimately show "?t \<noteq> crlf @ crlf"
    using assms j by (auto simp: lone_cr_def crlf_def)
qed (simp_all add: crlf_def)

lemma header_line_bytes:
  assumes "header_line l"
  shows "0x0D \<notin> set (of_str l)" and "of_str l \<noteq> []" and "hd (of_str l) \<noteq> 0x0D"
proof -
  show a: "0x0D \<notin> set (of_str l)"
    using of_str_bytes(2) [of l] assms by (auto simp: header_line_def)
  show "of_str l \<noteq> []" using assms by (simp add: header_line_def of_str_def)
  then show "hd (of_str l) \<noteq> 0x0D" using a by (metis hd_in_set)
qed

lemma lone_cr_join: "\<forall>l\<in>set ls. header_line l \<Longrightarrow> lone_cr (of_str (join_lines ls))"
proof (induction ls)
  case Nil
  then show ?case by (simp add: lone_cr_def of_str_def)
next
  case (Cons l ls)
  note l = header_line_bytes [of l]
  show ?case
  proof (cases ls)
    case Nil
    then show ?thesis using Cons.prems l(1) by (auto simp: lone_cr_def dest: nth_mem)
  next
    case (Cons m ms)
    then have "\<exists>r. of_str (join_lines ls) = of_str m @ r" by (auto simp: of_str_append)
    then have "hd (of_str (join_lines ls)) \<noteq> 0x0D" "of_str (join_lines ls) \<noteq> []"
      using header_line_bytes(2,3) [of m] Cons Cons.prems by auto
    then have "lone_cr (of_str l @ crlf @ of_str (join_lines ls))"
      using Cons.prems Cons.IH l(1) by (intro lone_cr_line) simp_all
    then show ?thesis using Cons by (simp add: of_str_append of_str_crlf)
  qed
qed

lemma ascii_join: "\<forall>l\<in>set ls. header_line l \<Longrightarrow> c \<in> set (join_lines ls) \<Longrightarrow> (of_char c :: nat) < 128"
proof (induction ls)
  case (Cons l ls)
  have "\<forall>c\<in>set l. (of_char c :: nat) < 128" using Cons.prems(1) by (simp add: header_line_def)
  moreover have "\<forall>c\<in>set crlf_str. (of_char c :: nat) < 128" by (simp add: crlf_str_def)
  moreover have "c \<in> set l \<or> c \<in> set crlf_str \<or> c \<in> set (join_lines ls)"
    using Cons.prems(2) by (cases "ls = []") simp_all
  moreover have "\<forall>l\<in>set ls. header_line l" using Cons.prems(1) by simp
  ultimately show ?case using Cons.IH by blast
qed simp

text \<open>What the header lines decide about the body.\<close>

lemma decode_http_response_lines:
  assumes "\<forall>l\<in>set (l # ls). header_line l"
    and "Option.bind (nth_word 1 l) (from_str_radix 16 10) = Some 200"
  shows "decode_http_response (of_str (join_lines (l # ls)) @ crlf @ crlf @ body) =
    (if contains ''transfer-encoding: chunked'' (map ascii_lower (join_lines (l # ls)))
     then decode_chunks body []
     else Some (Inr (case content_length (join_lines (l # ls)) of
         Some n \<Rightarrow> if n \<le> length body then take n body else body
       | None \<Rightarrow> body)))"
proof -
  let ?h = "join_lines (l # ls)"
  have "find_subsequence (of_str ?h @ crlf @ crlf @ body) (crlf @ crlf) = Some (length (of_str ?h))"
    by (rule find_blank_line [OF lone_cr_join [OF assms(1)]])
  moreover have "utf8_lossy (of_str ?h) = ?h"
    using ascii_join [OF assms(1)] by (intro utf8_lossy_of_str) blast
  moreover have "drop 4 (crlf @ crlf @ body) = body" by (simp add: crlf_def)
  ultimately show ?thesis
    using assms(2) raw_lines_join [OF assms(1)]
    by (simp add: decode_http_response_def Let_def del: join_lines.simps)
qed

lemma decode_http_response_chunked:
  assumes "\<forall>l\<in>set (l # ls). header_line l"
    and "Option.bind (nth_word 1 l) (from_str_radix 16 10) = Some 200"
    and "contains ''transfer-encoding: chunked'' (map ascii_lower (join_lines (l # ls)))"
  shows "decode_http_response (of_str (join_lines (l # ls)) @ crlf @ crlf @ body) = decode_chunks body []"
  unfolding decode_http_response_lines [OF assms(1,2)] using assms(3) by simp

text \<open>A body of announced length; a shorter one is taken as it is.\<close>

lemma split_on_absent: "c \<notin> set s \<Longrightarrow> split_on c s = [s]"
  by (induction s) auto

lemma split_on_append: "c \<notin> set s \<Longrightarrow> split_on c (s @ c # t) = s # split_on c t"
  by (induction s) auto

definition length_line :: "string \<Rightarrow> bool" where
  "length_line l \<longleftrightarrow> starts_with ''content-length:'' (map ascii_lower l)"

lemma content_length_line:
  assumes "\<forall>l\<in>set (ls @ (''Content-Length: '' @ show_nat n) # ls'). header_line l"
    and "\<forall>l\<in>set ls. \<not> length_line l" and "n < 2 ^ 64"
  shows "content_length (join_lines (ls @ (''Content-Length: '' @ show_nat n) # ls')) = Some n"
proof -
  let ?l = "''Content-Length: '' @ show_nat n"
  have "map ascii_lower ''Content-Length:'' = ''content-length:''" by code_simp
  then have "length_line ?l" by (simp add: length_line_def starts_with_def)
  then have "find length_line (ls @ ?l # ls') = Some ?l"
    using assms(2) by (induction ls) auto
  moreover have "CHR '':'' \<notin> set (CHR '' '' # show_nat n)" using show_nat_not_in [of "CHR '':''" n] by simp
  then have "split_on (CHR '':'') ?l = [''Content-Length'', CHR '' '' # show_nat n]"
    using split_on_append [of "CHR '':''" "''Content-Length''"] by (simp add: split_on_absent)
  ultimately show ?thesis using raw_lines_join [OF assms(1)] from_str_radix_show_nat [OF assms(3)]
    by (simp add: content_length_def length_line_def [abs_def, symmetric] get_opt_def trim_space)
qed

lemma content_length_absent:
  "\<forall>l\<in>set ls. header_line l \<and> \<not> length_line l \<Longrightarrow> content_length (join_lines ls) = None"
  using raw_lines_join [of ls] find_None_iff [of length_line ls]
  by (auto simp: content_length_def length_line_def [abs_def, symmetric])

lemma decode_http_response_plain:
  assumes "\<forall>l\<in>set (l # ls). header_line l"
    and "Option.bind (nth_word 1 l) (from_str_radix 16 10) = Some 200"
    and "\<not> contains ''transfer-encoding: chunked'' (map ascii_lower (join_lines (l # ls)))"
  shows "decode_http_response (of_str (join_lines (l # ls)) @ crlf @ crlf @ body) =
    Some (Inr (case content_length (join_lines (l # ls)) of Some n \<Rightarrow> take n body | None \<Rightarrow> body))"
  unfolding decode_http_response_lines [OF assms(1,2)] using assms(3) by (auto split: option.split)

text \<open>A chunk size at the top of \<open>usize\<close> makes the addition of its offset overflow.\<close>

lemma chunk_size_max: "chunk_size (of_str ''ffffffffffffffff'') = Some (2 ^ 64 - 1)"
proof -
  have "trim ''ffffffffffffffff'' = ''ffffffffffffffff''" by code_simp
  moreover have "utf8_lossy (of_str ''ffffffffffffffff'') = ''ffffffffffffffff''"
    by (rule utf8_lossy_of_str) simp
  ultimately show ?thesis by (simp add: chunk_size_def from_str_radix_def digits_val_def digit_val_def)
qed

lemma decode_chunks_overflow:
  "0x0D \<notin> set l \<Longrightarrow> chunk_size l = Some n \<Longrightarrow> n \<noteq> 0 \<Longrightarrow> 2 ^ 64 \<le> length l + 2 + n \<Longrightarrow>
     decode_chunks (l @ crlf @ rest) acc = None"
  by (simp add: decode_chunks_step)

lemma status_200_line: "Option.bind (nth_word 1 ''HTTP/1.1 200 OK'') (from_str_radix 16 10) = Some 200"
proof -
  have "nth_word 1 ''HTTP/1.1 200 OK'' = Some ''200''" by code_simp
  then show ?thesis by (simp add: from_str_radix_def digits_val_def digit_val_def)
qed

text \<open>A response of that kind, and what becomes of it.\<close>

definition oversized_reply :: "bytes \<Rightarrow> bytes" where
  "oversized_reply rest = of_str (join_lines [''HTTP/1.1 200 OK'', ''Transfer-Encoding: chunked'']) @ crlf @ crlf
     @ of_str ''ffffffffffffffff'' @ crlf @ rest"

lemma decode_oversized_reply: "decode_http_response (oversized_reply rest) = None"
proof -
  have "decode_http_response (oversized_reply rest) = decode_chunks (of_str ''ffffffffffffffff'' @ crlf @ rest) []"
    unfolding oversized_reply_def
  proof (rule decode_http_response_chunked)
    show "contains ''transfer-encoding: chunked''
       (map ascii_lower (join_lines [''HTTP/1.1 200 OK'', ''Transfer-Encoding: chunked'']))" by code_simp
  qed (use status_200_line in \<open>simp_all add: header_line_def\<close>)
  also have "\<dots> = None"
    by (rule decode_chunks_overflow [OF _ chunk_size_max]) (simp_all add: of_str_def)
  finally show ?thesis .
qed

text \<open>A reply with a body of no announced length, and replies that do not make the client panic.\<close>

definition plain_reply :: "bytes \<Rightarrow> bytes" where
  "plain_reply body = of_str (join_lines [''HTTP/1.1 200 OK'']) @ crlf @ crlf @ body"

lemma decode_plain_reply: "decode_http_response (plain_reply body) = Some (Inr body)"
proof -
  have h: "\<forall>l\<in>set [''HTTP/1.1 200 OK'']. header_line l" by (simp add: header_line_def)
  moreover have "\<not> contains ''transfer-encoding: chunked'' (map ascii_lower (join_lines [''HTTP/1.1 200 OK'']))"
    by code_simp
  moreover have "\<not> length_line ''HTTP/1.1 200 OK''" by code_simp
  then have "content_length (join_lines [''HTTP/1.1 200 OK'']) = None"
    using h by (intro content_length_absent) simp_all
  ultimately show ?thesis
    unfolding plain_reply_def using decode_http_response_plain [OF _ status_200_line, of "[]" body] by simp
qed

definition replies_decode :: "tcp_peer \<Rightarrow> bool" where
  "replies_decode P \<longleftrightarrow> (\<forall>request body t reply.
     tcp_read P request body = Ready t (Inr reply) \<longrightarrow> decode_http_response reply \<noteq> None)"

lemma http_post_returns:
  assumes "\<And>host port pth. parse_http_url url = Inr (host, port, pth) \<Longrightarrow>
      takes_requests (peer E host port) \<and> replies_decode (peer E host port)"
  shows "await (http_post_binary E url content_type body) \<noteq> None"
proof (cases "parse_http_url url")
  case (Inr x)
  obtain host port pth where x: "x = (host, port, pth)" by (cases x)
  let ?f = "exchange (peer E host port) (of_str (http_request host pth content_type (length body))) body"
  have ok: "takes_requests (peer E host port)" "replies_decode (peer E host port)"
    using assms Inr x by blast+
  obtain t res where f: "?f = Ready t res" using exchange_returns [OF ok(1)] by (cases ?f) auto
  show ?thesis
  proof (cases res)
    case reply: (Inr reply)
    with exchange_read [of "peer E host port"] f ok(2) have "decode_http_response reply \<noteq> None"
      unfolding replies_decode_def by blast
    with reply f Inr x show ?thesis by (simp add: http_post_binary_def)
  qed (use f Inr x in \<open>simp add: http_post_binary_def\<close>)
qed (simp add: http_post_binary_def)

end
