(* ===== verification/Base64.thy ===== *)
theory Base64
  imports Commit_Record
begin

text \<open>
  \<open>base64\<close> of \<open>src/tsa.rs\<close> (lines 316 to 338), on 32-bit words as in the source, with
  a decoder of RFC 4648 as its specification: decoding gives the bytes back.
\<close>

definition base64_alphabet :: string where
  "base64_alphabet = ''ABCDEFGHIJKLMNOPQRSTUVWXYZabcdefghijklmnopqrstuvwxyz0123456789+/''"

definition base64_char :: "u32 \<Rightarrow> char" where
  "base64_char w = base64_alphabet ! unat (w AND 63)"

definition base64_triple :: "u8 \<Rightarrow> u8 \<Rightarrow> u8 \<Rightarrow> u32" where
  "base64_triple b0 b1 b2 = push_bit 16 (ucast b0) OR push_bit 8 (ucast b1) OR ucast b2"

fun base64 :: "bytes \<Rightarrow> string" where
  "base64 [] = []"
| "base64 [b0] = (let t = base64_triple b0 0 0 in
     [base64_char (drop_bit 18 t), base64_char (drop_bit 12 t), CHR ''='', CHR ''=''])"
| "base64 [b0, b1] = (let t = base64_triple b0 b1 0 in
     [base64_char (drop_bit 18 t), base64_char (drop_bit 12 t), base64_char (drop_bit 6 t), CHR ''=''])"
| "base64 (b0 # b1 # b2 # bs) = (let t = base64_triple b0 b1 b2 in
     [base64_char (drop_bit 18 t), base64_char (drop_bit 12 t), base64_char (drop_bit 6 t),
      base64_char t] @ base64 bs)"

definition base64_index :: "char \<Rightarrow> u32" where
  "base64_index c = word_of_nat (length (takeWhile (\<lambda>x. x \<noteq> c) base64_alphabet))"

text \<open>RFC 4648 decoding of padded text, the specification of the encoder.\<close>

fun unbase64 :: "string \<Rightarrow> bytes" where
  "unbase64 (a # b # c # d # rest) =
     (let t = push_bit 18 (base64_index a) OR push_bit 12 (base64_index b) in
      if c = CHR ''='' then [ucast (drop_bit 16 t)]
      else let t = t OR push_bit 6 (base64_index c) in
        if d = CHR ''='' then [ucast (drop_bit 16 t), ucast (drop_bit 8 t)]
        else let t = t OR base64_index d in
          [ucast (drop_bit 16 t), ucast (drop_bit 8 t), ucast t] @ unbase64 rest)"
| "unbase64 _ = []"

lemma base64_alphabet_facts:
  "length base64_alphabet = 64" "distinct base64_alphabet" "CHR ''='' \<notin> set base64_alphabet"
  by code_simp+

lemma takeWhile_nth_distinct:
  "distinct xs \<Longrightarrow> i < length xs \<Longrightarrow> length (takeWhile (\<lambda>x. x \<noteq> xs ! i) xs) = i"
proof (induction xs arbitrary: i)
  case (Cons x xs)
  then show ?case by (cases i) auto
qed simp

lemma and_63: "(w :: u32) AND 63 = take_bit 6 w"
proof -
  have "(63 :: u32) = mask 6" by (simp add: mask_eq_exp_minus_1)
  then show ?thesis by (simp only: take_bit_eq_mask)
qed

lemma unat_and_63: "unat ((w :: u32) AND 63) < 64"
  unfolding and_63 using take_bit_nat_less_exp [of 6 "unat w"] by (simp add: unsigned_take_bit_eq)

lemma base64_index_char: "base64_index (base64_char w) = take_bit 6 w"
  using takeWhile_nth_distinct [of base64_alphabet "unat (w AND 63)"] base64_alphabet_facts unat_and_63 [of w]
  by (simp add: base64_index_def base64_char_def and_63)

lemma base64_char_not_pad: "base64_char w \<noteq> CHR ''=''"
  using base64_alphabet_facts unat_and_63 [of w] unfolding base64_char_def by (metis nth_mem)

lemma triple_bytes:
  "ucast (drop_bit 16 (base64_triple b0 b1 b2)) = b0"
  "ucast (drop_bit 8 (base64_triple b0 b1 b2)) = b1"
  "ucast (base64_triple b0 b1 b2) = b2"
  by (rule bit_eqI; auto simp: base64_triple_def bit_simps dest: bit_imp_le_length)+

lemma sextets:
  fixes t :: u32
  defines "s \<equiv> \<lambda>k. take_bit 6 (drop_bit k t)"
  shows "(ucast (drop_bit 16 (push_bit 18 (s 18) OR push_bit 12 (s 12))) :: u8) = ucast (drop_bit 16 t)"
    and "(ucast (drop_bit 16 (push_bit 18 (s 18) OR push_bit 12 (s 12) OR push_bit 6 (s 6))) :: u8)
           = ucast (drop_bit 16 t)"
    and "(ucast (drop_bit 8 (push_bit 18 (s 18) OR push_bit 12 (s 12) OR push_bit 6 (s 6))) :: u8)
           = ucast (drop_bit 8 t)"
    and "(ucast (drop_bit 16 (push_bit 18 (s 18) OR push_bit 12 (s 12) OR push_bit 6 (s 6) OR take_bit 6 t)) :: u8)
           = ucast (drop_bit 16 t)"
    and "(ucast (drop_bit 8 (push_bit 18 (s 18) OR push_bit 12 (s 12) OR push_bit 6 (s 6) OR take_bit 6 t)) :: u8)
           = ucast (drop_bit 8 t)"
    and "(ucast (push_bit 18 (s 18) OR push_bit 12 (s 12) OR push_bit 6 (s 6) OR take_bit 6 t) :: u8)
           = ucast t"
  unfolding s_def by (rule bit_eqI; auto simp: bit_simps)+

lemma base64_full:
  "unbase64 (base64 (b0 # b1 # b2 # bs)) = [b0, b1, b2] @ unbase64 (base64 bs)"
  using sextets [of "base64_triple b0 b1 b2"] triple_bytes [of b0 b1 b2]
  by (simp add: Let_def base64_index_char base64_char_not_pad or.assoc del: drop_bit_or)

lemma base64_round_trip: "unbase64 (base64 bs) = bs"
proof (induction bs rule: base64.induct)
  case (2 b0)
  then show ?case
    using sextets [of "base64_triple b0 0 0"] triple_bytes [of b0 0 0]
    by (simp add: Let_def base64_index_char base64_char_not_pad or.assoc del: drop_bit_or)
next
  case (3 b0 b1)
  then show ?case
    using sextets [of "base64_triple b0 b1 0"] triple_bytes [of b0 b1 0]
    by (simp add: Let_def base64_index_char base64_char_not_pad or.assoc del: drop_bit_or)
next
  case (4 b0 b1 b2 bs)
  then show ?case by (simp only: base64_full) simp
qed simp

lemma length_base64: "length (base64 bs) = 4 * ((length bs + 2) div 3)"
proof (induction bs rule: base64.induct)
  case (4 b0 b1 b2 bs)
  moreover have "(5 + length bs) div 3 = Suc ((length bs + 2) div 3)" by presburger
  ultimately show ?case by (simp add: Let_def)
qed (simp_all add: Let_def)

end
