(* ===== verification/Tsa.thy ===== *)
theory Tsa
  imports Receipt Http Base64
begin

text \<open>
  The submission flow of \<open>src/tsa.rs\<close> (lines 30 to 123): the record of the latest
  external time-stamp submission, its wire view, and \<open>submit_anchor\<close> with its two
  outcomes.
\<close>

definition retry_after_secs :: int where
  "retry_after_secs = 60"

section \<open>The submission record\<close>

record ('h, 't) tsa_record =
  tr_tree_size :: u64
  tr_digest :: 'h
  tr_status :: string
  tr_tsa_url :: string
  tr_response :: "bytes option"
  tr_submitted_at :: 't
  tr_retry_at :: "'t option"

definition record_now :: "'h \<Rightarrow> string \<Rightarrow> 't \<Rightarrow> ('h, 't) tsa_record" where
  "record_now digest url now =
     \<lparr>tr_tree_size = 0, tr_digest = digest, tr_status = [], tr_tsa_url = url, tr_response = None,
      tr_submitted_at = now, tr_retry_at = None\<rparr>"

text \<open>\<open>now.secs + RETRY_AFTER_SECS\<close> on \<open>i64\<close>: panics on overflow.\<close>

definition i64_add :: "int \<Rightarrow> int \<Rightarrow> int checked" where
  "i64_add a b = (if - (2 ^ 63) \<le> a + b \<and> a + b < 2 ^ 63 then Some (a + b) else None)"

definition degraded ::
  "('h, 't) tsa_env \<Rightarrow> 'h \<Rightarrow> string \<Rightarrow> 't \<Rightarrow> ('h, 't) tsa_record checked" where
  "degraded E digest url now = do {
     s \<leftarrow> i64_add (ts_secs E now) retry_after_secs;
     Some \<lparr>tr_tree_size = 0, tr_digest = digest, tr_status = ''unreachable'', tr_tsa_url = url,
           tr_response = None, tr_submitted_at = now, tr_retry_at = Some (ts_from_secs E s)\<rparr> }"

definition submit_anchor ::
  "('h, 't) tsa_env \<Rightarrow> 'h external_anchor \<Rightarrow> string \<Rightarrow> 't \<Rightarrow> ('h, 't) tsa_record checked" where
  "submit_anchor E anchor url now =
     (let digest = anchor_digest anchor; base = record_now digest url now in do {
        outcome \<leftarrow> await (http_post_binary E url ''application/timestamp-query'' (anchor_payload anchor));
        case outcome of
          Inr response \<Rightarrow> do {
            verdict \<leftarrow> verify_timestamp_response response (hash_bytes E digest);
            case verdict of
              Inr _ \<Rightarrow> Some (base\<lparr>tr_status := ''anchored'', tr_response := Some response\<rparr>)
            | Inl why \<Rightarrow> degraded E digest url now }
        | Inl why \<Rightarrow> degraded E digest url now })"

lemma degraded_Some:
  "degraded E dg url now = Some r \<Longrightarrow> tr_digest r = dg \<and> tr_tsa_url r = url \<and> tr_submitted_at r = now \<and>
     tr_tree_size r = 0 \<and> tr_status r = ''unreachable'' \<and> tr_response r = None \<and>
     tr_retry_at r = Some (ts_from_secs E (ts_secs E now + 60))"
  by (auto simp: degraded_def i64_add_def retry_after_secs_def split: if_splits)

lemma submit_anchor_outcome:
  assumes "submit_anchor E a url now = Some r"
  shows "tr_digest r = anchor_digest a" and "tr_tsa_url r = url" and "tr_submitted_at r = now"
    and "(\<exists>resp. tr_status r = ''anchored'' \<and> tr_response r = Some resp \<and> tr_retry_at r = None \<and>
            await (http_post_binary E url ''application/timestamp-query'' (anchor_payload a)) = Some (Inr resp) \<and>
            verify_timestamp_response resp (hash_bytes E (anchor_digest a)) = Some (Inr ())) \<or>
         tr_status r = ''unreachable'' \<and> tr_response r = None \<and>
            tr_retry_at r = Some (ts_from_secs E (ts_secs E now + 60))"
proof -
  from assms obtain oc where oc:
    "await (http_post_binary E url ''application/timestamp-query'' (anchor_payload a)) = Some oc"
    by (auto simp: submit_anchor_def Let_def bind_eq_Some_conv)
  have "tr_digest r = anchor_digest a \<and> tr_tsa_url r = url \<and> tr_submitted_at r = now \<and>
    ((\<exists>resp. tr_status r = ''anchored'' \<and> tr_response r = Some resp \<and> tr_retry_at r = None \<and>
            oc = Inr resp \<and> verify_timestamp_response resp (hash_bytes E (anchor_digest a)) = Some (Inr ())) \<or>
         tr_status r = ''unreachable'' \<and> tr_response r = None \<and>
            tr_retry_at r = Some (ts_from_secs E (ts_secs E now + 60)))"
  proof (cases oc)
    case (Inl e)
    then show ?thesis
      using assms oc degraded_Some [of E "anchor_digest a" url now r]
      by (simp add: submit_anchor_def Let_def)
  next
    case (Inr resp)
    obtain v where v: "verify_timestamp_response resp (hash_bytes E (anchor_digest a)) = Some v"
      using verify_timestamp_response_total by fastforce
    then show ?thesis
      using assms oc Inr degraded_Some [of E "anchor_digest a" url now r]
      by (cases v) (auto simp: submit_anchor_def Let_def record_now_def)
  qed
  then show "tr_digest r = anchor_digest a" "tr_tsa_url r = url" "tr_submitted_at r = now"
    "(\<exists>resp. tr_status r = ''anchored'' \<and> tr_response r = Some resp \<and> tr_retry_at r = None \<and>
            await (http_post_binary E url ''application/timestamp-query'' (anchor_payload a)) = Some (Inr resp) \<and>
            verify_timestamp_response resp (hash_bytes E (anchor_digest a)) = Some (Inr ())) \<or>
         tr_status r = ''unreachable'' \<and> tr_response r = None \<and>
            tr_retry_at r = Some (ts_from_secs E (ts_secs E now + 60))"
    using oc by auto
qed

definition tsa_to_wire :: "('h, 't) deps \<Rightarrow> ('h, 't) tsa_record \<Rightarrow> json" where
  "tsa_to_wire D r = json_object
     [(''status'', JString (tr_status r)),
      (''tsa_url'', JString (tr_tsa_url r)),
      (''tree_size'', json_u64 (tr_tree_size r)),
      (''digest'', JString (hash_hex D (tr_digest r))),
      (''submitted_at'', JString (ts_to_string D (tr_submitted_at r))),
      (''retry_at'', (case tr_retry_at r of Some t \<Rightarrow> JString (ts_to_string D t) | None \<Rightarrow> JNull)),
      (''response'', (case tr_response r of Some bs \<Rightarrow> JString (base64 bs) | None \<Rightarrow> JNull))]"

end
