(* ===== verification/Keyring.thy ===== *)
theory Keyring
  imports Receipt
begin

text \<open>
  \<open>src/keyring.rs\<close>: the operator's configuration from the environment, the operator
  derived from it, and its public description. The environment is a function from
  names to values (\<open>None\<close> when unset or not Unicode); key derivation and the forms of
  public keys belong to the signatif crate and are the record \<open>key_api\<close>.
\<close>

record ('su, 'ki, 'kp, 'pk) key_api =
  ed25519 :: 'su
  seeded :: "'su \<Rightarrow> bytes \<Rightarrow> string + 'kp"
  key_id_of :: "'kp \<Rightarrow> 'ki"
  public_bytes :: "'pk \<Rightarrow> bytes"
  public_to_string :: "'pk \<Rightarrow> string"

record 'su operator_config =
  oc_log_id :: string
  oc_suite :: 'su
  oc_seed :: string

type_synonym environment = "string \<Rightarrow> string option"

definition id_env :: string where "id_env = ''UNIDPP_LOG_ID''"

definition suite_env :: string where "suite_env = ''UNIDPP_LOG_SUITE''"

definition seed_env :: string where "seed_env = ''UNIDPP_LOG_SEED''"

definition default_log_id :: string where "default_log_id = ''unidpp-log-1''"

definition default_dev_seed :: string where "default_dev_seed = ''unidpp-log-dev-seed-v1''"

definition parse_suite :: "('h, 't, 'su, 'ki, 'kp, 'pk) signing \<Rightarrow> string \<Rightarrow> string + 'su" where
  "parse_suite S token = map_err (\<lambda>e. ''`'' @ suite_env @ ''`: '' @ e) (suite_parse_token S token)"

text \<open>\<open>u8::is_ascii_graphic\<close>.\<close>

definition is_ascii_graphic :: "char \<Rightarrow> bool" where
  "is_ascii_graphic c \<longleftrightarrow> 0x21 \<le> (of_char c :: nat) \<and> (of_char c :: nat) \<le> 0x7E"

text \<open>\<open>env::var(k).ok().filter(p).unwrap_or_else(d)\<close>.\<close>

definition env_or :: "environment \<Rightarrow> string \<Rightarrow> (string \<Rightarrow> bool) \<Rightarrow> string \<Rightarrow> string" where
  "env_or env k p d = (case env k of Some s \<Rightarrow> if p s then s else d | None \<Rightarrow> d)"

definition operator_from_env ::
  "('h, 't, 'su, 'ki, 'kp, 'pk) signing \<Rightarrow> ('su, 'ki, 'kp, 'pk) key_api \<Rightarrow> environment
     \<Rightarrow> string + 'su operator_config" where
  "operator_from_env S K env =
     (let log_id = env_or env id_env (\<lambda>s. trim s \<noteq> []) default_log_id in
      if 64 < length log_id \<or> \<not> list_all (\<lambda>b. is_ascii_graphic b \<or> b = CHR '' '') log_id
      then Inl (''`'' @ id_env @ ''` must be 1-64 printable ASCII characters'')
      else
        rbind (case env suite_env of
                 Some s \<Rightarrow> if trim s \<noteq> [] then parse_suite S s else Inr (ed25519 K)
               | None \<Rightarrow> Inr (ed25519 K)) (\<lambda>su.
        Inr \<lparr>oc_log_id = log_id, oc_suite = su,
             oc_seed = env_or env seed_env (\<lambda>s. s \<noteq> []) default_dev_seed\<rparr>))"

section \<open>The operator\<close>

record ('su, 'kp, 'pk) operator =
  op_config :: "'su operator_config"
  op_key :: 'kp
  op_public :: 'pk

definition operator_from_config ::
  "('h, 't, 'su, 'ki, 'kp, 'pk) signing \<Rightarrow> ('su, 'ki, 'kp, 'pk) key_api \<Rightarrow> 'su operator_config
     \<Rightarrow> string + ('su, 'kp, 'pk) operator" where
  "operator_from_config S K c =
     rbind (map_err (\<lambda>e. ''could not derive the operator key: '' @ e)
              (seeded K (oc_suite c) (of_str (oc_seed c)))) (\<lambda>key.
     Inr \<lparr>op_config = c, op_key = key, op_public = public_of S key\<rparr>)"

definition op_log_id :: "('su, 'kp, 'pk) operator \<Rightarrow> string" where
  "op_log_id op = oc_log_id (op_config op)"

definition operator_info ::
  "('h, 't, 'su, 'ki, 'kp, 'pk) signing \<Rightarrow> ('su, 'ki, 'kp, 'pk) key_api \<Rightarrow> ('su, 'kp, 'pk) operator
     \<Rightarrow> json" where
  "operator_info S K op = json_object
     [(''log_id'', JString (op_log_id op)),
      (''suite'', JString (suite_as_str S (oc_suite (op_config op)))),
      (''key_id'', JString (key_id_as_str S (key_id_of K (op_key op)))),
      (''public_key_hex'', JString (concat (map hex_byte (public_bytes K (op_public op))))),
      (''fingerprint'', JString (public_to_string K (op_public op)))]"

section \<open>What the configuration guarantees\<close>

lemma env_or_cases: "p d \<Longrightarrow> p (env_or env k p d)"
  by (simp add: env_or_def split: option.split)

lemma default_log_id_trim: "trim default_log_id \<noteq> []"
  by code_simp

lemma operator_from_env_Inr:
  assumes "operator_from_env S K env = Inr c"
  shows "length (oc_log_id c) \<le> 64" and "trim (oc_log_id c) \<noteq> []" and "oc_seed c \<noteq> []"
    and "\<forall>b\<in>set (oc_log_id c). is_ascii_graphic b \<or> b = CHR '' ''"
proof -
  have "oc_log_id c = env_or env id_env (\<lambda>s. trim s \<noteq> []) default_log_id"
    and "oc_seed c = env_or env seed_env (\<lambda>s. s \<noteq> []) default_dev_seed"
    and "length (oc_log_id c) \<le> 64" and "\<forall>b\<in>set (oc_log_id c). is_ascii_graphic b \<or> b = CHR '' ''"
    using assms by (auto simp: operator_from_env_def Let_def rbind_eq_Inr_iff list_all_iff split: if_splits)
  then show "length (oc_log_id c) \<le> 64" "\<forall>b\<in>set (oc_log_id c). is_ascii_graphic b \<or> b = CHR '' ''"
    "trim (oc_log_id c) \<noteq> []" "oc_seed c \<noteq> []"
    using env_or_cases [of "\<lambda>s. trim s \<noteq> []" default_log_id] default_log_id_trim
      env_or_cases [of "\<lambda>s. s \<noteq> []" default_dev_seed]
    by (simp_all add: default_dev_seed_def)
qed

text \<open>The published key decodes back to the public key of the signing key.\<close>

lemma operator_info_key:
  assumes "operator_from_config S K c = Inr op"
  shows "\<exists>s. get (operator_info S K op) ''public_key_hex'' = Some (JString s) \<and>
    hex_decode s = Some (Some (public_bytes K (public_of S (op_key op))))"
    and "get (operator_info S K op) ''log_id'' = Some (JString (oc_log_id c))"
    and "seeded K (oc_suite c) (of_str (oc_seed c)) = Inr (op_key op)"
  using assms hex_round_trip [unfolded hex_encode_def]
  by (auto simp: operator_from_config_def operator_info_def op_log_id_def rbind_eq_Inr_iff)

end
