(* ===== verification/Api.thy ===== *)
theory Api
  imports Tsa Keyring
begin

text \<open>
  \<open>src/api.rs\<close>: the configuration, the shared state, the response helpers, the parsing
  of request bodies, and the handlers. A handler is a function of the state, the
  request's parts as axum hands them over, and what its environment answers (clock,
  journal write, network); \<open>None\<close> is a panic. The record \<open>api_env\<close> collects the
  external functions of all components.
\<close>

record ('h, 't, 'su, 'ki, 'kp, 'pk, 'ad) api_env =
  dp :: "('h, 't) deps"
  sg :: "('h, 't, 'su, 'ki, 'kp, 'pk) signing"
  ky :: "('su, 'ki, 'kp, 'pk) key_api"
  ts :: "('h, 't) tsa_env"
  parse_addr :: "string \<Rightarrow> 'ad option"
  to_string_pretty :: "json \<Rightarrow> string + string"
  anchored_externally :: "('h, 't, 'su, 'ki) signed_tree_head \<Rightarrow> string \<Rightarrow> ('h, 't, 'su, 'ki) signed_tree_head"
  file_at :: "string \<Rightarrow> journal_file"
  pkg_version :: string
  build_id :: "string option"

section \<open>Configuration and state\<close>

record ('ad, 'su) config =
  bind_addr :: 'ad
  operator_cfg :: "'su operator_config"
  append_token :: "string option"
  state_file :: "string option"
  external_tsa_url :: "string option"

definition default_config ::
  "('h, 't, 'su, 'ki, 'kp, 'pk, 'ad) api_env \<Rightarrow> ('ad, 'su) config checked" where
  "default_config A = do {
     addr \<leftarrow> parse_addr A ''127.0.0.1:8092'';
     Some \<lparr>bind_addr = addr,
           operator_cfg = \<lparr>oc_log_id = default_log_id, oc_suite = ed25519 (ky A),
                           oc_seed = default_dev_seed\<rparr>,
           append_token = None, state_file = None, external_tsa_url = None\<rparr> }"

definition config_from_env ::
  "('h, 't, 'su, 'ki, 'kp, 'pk, 'ad) api_env \<Rightarrow> environment \<Rightarrow> (string + ('ad, 'su) config) checked" where
  "config_from_env A env = do {
     c0 \<leftarrow> default_config A;
     let c1 = (case env ''UNIDPP_LOG_BIND'' of
          Some b \<Rightarrow> (case parse_addr A b of Some addr \<Rightarrow> c0\<lparr>bind_addr := addr\<rparr> | None \<Rightarrow> c0)
        | None \<Rightarrow> c0);
     Some (rbind (operator_from_env (sg A) (ky A) env) (\<lambda>oc.
       let c2 = c1\<lparr>operator_cfg := oc\<rparr>;
           c3 = (case env ''UNIDPP_LOG_APPEND_TOKEN'' of
               Some t \<Rightarrow> if t \<noteq> [] then c2\<lparr>append_token := Some t\<rparr> else c2 | None \<Rightarrow> c2);
           c4 = (case env ''UNIDPP_LOG_STATE_FILE'' of
               Some p \<Rightarrow> if p \<noteq> [] then c3\<lparr>state_file := Some p\<rparr> else c3 | None \<Rightarrow> c3);
           c5 = (case env ''UNIDPP_LOG_EXTERNAL_TSA_URL'' of
               Some u \<Rightarrow> if trim u \<noteq> [] then c4\<lparr>external_tsa_url := Some (trim u)\<rparr> else c4
             | None \<Rightarrow> c4)
       in Inr c5)) }"

record ('h, 't, 'su, 'kp, 'pk, 'ad) app_state =
  app_config :: "('ad, 'su) config"
  app_operator :: "('su, 'kp, 'pk) operator"
  app_store :: "('h, 't) log_store"
  app_tsa :: "('h, 't) tsa_record option"

definition app_new ::
  "('h, 't, 'su, 'ki, 'kp, 'pk, 'ad) api_env \<Rightarrow> ('ad, 'su) config
     \<Rightarrow> (store_error + ('h, 't, 'su, 'kp, 'pk, 'ad) app_state) checked" where
  "app_new A c =
     (case map_err Journal (operator_from_config (sg A) (ky A) (operator_cfg c)) of
        Inl e \<Rightarrow> Some (Inl e)
      | Inr op \<Rightarrow> do {
          res \<leftarrow> open_store (dp A) (map_option (file_at A) (state_file c));
          Some (rbind res (\<lambda>st.
            Inr \<lparr>app_config = c, app_operator = op, app_store = st, app_tsa = None\<rparr>)) })"

section \<open>Responses\<close>

record http_response =
  resp_status :: nat
  resp_headers :: "(string \<times> string) list"
  resp_body :: string

definition build_response :: "nat \<Rightarrow> (string \<times> string) list \<Rightarrow> string \<Rightarrow> http_response" where
  "build_response st hs b = \<lparr>resp_status = st, resp_headers = hs, resp_body = b\<rparr>"

definition json_response ::
  "('h, 't, 'su, 'ki, 'kp, 'pk, 'ad) api_env \<Rightarrow> nat \<Rightarrow> json \<Rightarrow> http_response checked" where
  "json_response A st v =
     (case to_string_pretty A v of
        Inl e \<Rightarrow> None
      | Inr s \<Rightarrow> Some (build_response st [(''content-type'', ''application/json'')] s))"

definition error_response ::
  "('h, 't, 'su, 'ki, 'kp, 'pk, 'ad) api_env \<Rightarrow> nat \<Rightarrow> string \<Rightarrow> http_response checked" where
  "error_response A st msg = json_response A st (json_object [(''error'', JString msg)])"

definition bad_request ::
  "('h, 't, 'su, 'ki, 'kp, 'pk, 'ad) api_env \<Rightarrow> string \<Rightarrow> http_response checked" where
  "bad_request A msg = error_response A 400 msg"

definition not_found ::
  "('h, 't, 'su, 'ki, 'kp, 'pk, 'ad) api_env \<Rightarrow> string \<Rightarrow> http_response checked" where
  "not_found A msg = error_response A 404 msg"

definition unauthorized ::
  "('h, 't, 'su, 'ki, 'kp, 'pk, 'ad) api_env \<Rightarrow> http_response checked" where
  "unauthorized A = error_response A 401 ''unauthorized''"

definition store_error_response ::
  "('h, 't, 'su, 'ki, 'kp, 'pk, 'ad) api_env \<Rightarrow> store_error \<Rightarrow> http_response checked" where
  "store_error_response A e = error_response A 500 (store_error_to_string e)"

section \<open>Request bodies\<close>

text \<open>\<open>Result<_, Response>\<close>: the left values are responses ready to be returned.\<close>

definition parse_body ::
  "('h, 't, 'su, 'ki, 'kp, 'pk, 'ad) api_env \<Rightarrow> string \<Rightarrow> http_response checked + json" where
  "parse_body A body =
     map_err (\<lambda>e. bad_request A (''invalid JSON body: '' @ e)) (json_from_str (dp A) body)"

definition req_str ::
  "('h, 't, 'su, 'ki, 'kp, 'pk, 'ad) api_env \<Rightarrow> json \<Rightarrow> string \<Rightarrow> http_response checked + string" where
  "req_str A v key =
     (case map_option trim (Option.bind (get v key) as_str) of
        Some s \<Rightarrow> if s \<noteq> [] then Inr s else Inl (bad_request A (''`'' @ key @ ''` is required''))
      | None \<Rightarrow> Inl (bad_request A (''`'' @ key @ ''` is required'')))"

definition opt_u64 ::
  "('h, 't, 'su, 'ki, 'kp, 'pk, 'ad) api_env \<Rightarrow> json \<Rightarrow> string \<Rightarrow> http_response checked + u64 option" where
  "opt_u64 A v key =
     (case get v key of
        None \<Rightarrow> Inr None
      | Some JNull \<Rightarrow> Inr None
      | Some (JNumber n) \<Rightarrow>
          ok_or (map_option Some (number_as_u64 n))
            (bad_request A (''`'' @ key @ ''` must be an unsigned integer''))
      | Some _ \<Rightarrow> Inl (bad_request A (''`'' @ key @ ''` must be an unsigned integer'')))"

definition req_commitment ::
  "('h, 't, 'su, 'ki, 'kp, 'pk, 'ad) api_env \<Rightarrow> json \<Rightarrow> http_response checked + 'h" where
  "req_commitment A v =
     rbind (req_str A v ''commitment'') (\<lambda>s.
     ok_or (hash_from_hex (dp A) s)
       (bad_request A ''`commitment` must be a 64-character hex SHA-256 value''))"

text \<open>\<open>headers k\<close>: the first value of a header that is visible ASCII.\<close>

definition require_append ::
  "('h, 't, 'su, 'ki, 'kp, 'pk, 'ad) api_env \<Rightarrow> ('h, 't, 'su, 'kp, 'pk, 'ad) app_state
     \<Rightarrow> (string \<Rightarrow> string option) \<Rightarrow> http_response checked option" where
  "require_append A app headers =
     (case append_token (app_config app) of
        None \<Rightarrow> None
      | Some token \<Rightarrow>
          if Option.bind (headers ''authorization'') (strip_prefix ''Bearer '') = Some token
          then None else Some (unauthorized A))"

end
