(* ===== verification/Handlers.thy ===== *)
theory Handlers
  imports Api
begin

text \<open>
  The handlers of \<open>src/api.rs\<close> (lines 216 to 456) and the route table. \<open>commit\<close> is
  composed of the sections that the source runs without giving up the state's lock:
  the request checks, the append with its receipt, the read of the head, the
  submission and the write of its record.
\<close>

definition operator_view ::
  "('h, 't, 'su, 'ki, 'kp, 'pk, 'ad) api_env \<Rightarrow> ('h, 't, 'su, 'kp, 'pk, 'ad) app_state \<Rightarrow> json" where
  "operator_view A app = operator_info (sg A) (ky A) (app_operator app)"

abbreviation log_id_of :: "('h, 't, 'su, 'kp, 'pk, 'ad) app_state \<Rightarrow> string" where
  "log_id_of app \<equiv> op_log_id (app_operator app)"

abbreviation key_of :: "('h, 't, 'su, 'kp, 'pk, 'ad) app_state \<Rightarrow> 'kp" where
  "key_of app \<equiv> op_key (app_operator app)"

definition healthz :: http_response where
  "healthz = build_response 200 [(''content-type'', ''text/plain'')] ''ok''"

definition discovery ::
  "('h, 't, 'su, 'ki, 'kp, 'pk, 'ad) api_env \<Rightarrow> ('h, 't, 'su, 'kp, 'pk, 'ad) app_state
     \<Rightarrow> http_response checked" where
  "discovery A app = json_response A 200 (json_object
     [(''service'', JString ''unidpp-log''),
      (''version'', JString (pkg_version A)),
      (''build_id'', JString (case build_id A of Some b \<Rightarrow> b | None \<Rightarrow> ''dev'')),
      (''description'', JString ''UniDPP transparency-log anchor: sequenced Merkle commitments with signed inclusion receipts and monotonic signed tree heads''),
      (''log_id'', JString (log_id_of app)),
      (''tree'', JString ''RFC 6962 Merkle tree over sequenced commitment leaves (Confium transparency-log constants 0x01/0x02, via unidpp-signatif)''),
      (''endpoints'', json_object
        [(''commit'', JString ''POST /commitments''),
         (''tree_head'', JString ''GET /tree/head''),
         (''consistency'', JString ''GET /tree/consistency?from=''),
         (''receipt'', JString ''GET /receipt/{seq}''),
         (''health'', JString ''GET /healthz'')]),
      (''operator'', operator_view A app),
      (''receipt_verification'', JArray
        [JString ''1. verify tree_head.signature against the operator public key (this document)'',
         JString ''2. verify the inclusion proof reconstructs tree_head.root from the anchored commitment'',
         JString ''3. as the tree grows, GET /tree/consistency?from=<receipt tree_size> and verify it ties the receipt's pinned root to the current head'']),
      (''invariants'', json_object
        [(''sequencing'', JString ''sequence numbers are strictly monotonic (0, 1, 2, ...); the journal replays with the same discipline''),
         (''heads'', JString ''a head is signed at append time over tree_size + root + timestamp; heads never move backwards''),
         (''enumeration'', JString ''none (I12): no endpoint lists subjects or commitments; the log is verifiable without being browsable'')]),
      (''quorum'', json_object
        [(''now'', JString (''M=1 of K=1 '' @ map char_of [0xE2, 0x80, 0x94 :: nat] @ '' one honest operator (see README)'')),
         (''later'', JString ''M-of-K log-of-logs per the UniDPP operator model 6; unidpp-signatif already implements the master quorum verification''),
         (''deployment'', JString ''Durable Objects (sequencing) + R2 segments on Cloudflare is the documented succession path'')])])"

section \<open>Appending\<close>

type_synonym ('h) commit_request = "string \<times> 'h \<times> u64 option"

definition check_commit ::
  "('h, 't, 'su, 'ki, 'kp, 'pk, 'ad) api_env \<Rightarrow> ('h, 't, 'su, 'kp, 'pk, 'ad) app_state
     \<Rightarrow> (string \<Rightarrow> string option) \<Rightarrow> string \<Rightarrow> http_response checked + 'h commit_request" where
  "check_commit A app headers body =
     (case require_append A app headers of
        Some deny \<Rightarrow> Inl deny
      | None \<Rightarrow>
          rbind (parse_body A body) (\<lambda>v.
          rbind (req_str A v ''subject'') (\<lambda>sub.
          if 512 < length sub then Inl (bad_request A ''`subject` must be at most 512 characters'')
          else
            rbind (req_commitment A v) (\<lambda>com.
            rbind (opt_u64 A v ''salt_ref'') (\<lambda>salt.
            Inr (sub, com, salt))))))"

text \<open>Under the store's lock: append, then the receipt of the entry; a receipt that
  cannot be derived is a panic (\<open>expect\<close>).\<close>

definition commit_append ::
  "('h, 't, 'su, 'ki, 'kp, 'pk, 'ad) api_env \<Rightarrow> write_outcome \<Rightarrow> 't
     \<Rightarrow> ('h, 't, 'su, 'kp, 'pk, 'ad) app_state \<Rightarrow> 'h commit_request
     \<Rightarrow> (('h, 't, 'su, 'kp, 'pk, 'ad) app_state \<times> (store_error + json)) checked" where
  "commit_append A w now app rq = (case rq of (sub, com, salt) \<Rightarrow> do {
     (st', res) \<leftarrow> store_append (dp A) w (app_store app) sub com salt now;
     let app' = app\<lparr>app_store := st'\<rparr>;
     case res of
       Inl e \<Rightarrow> Some (app', Inl e)
     | Inr r \<Rightarrow> do {
         ro \<leftarrow> receipt_of (dp A) (sg A) st' (seq r) (log_id_of app) (key_of app);
         rc \<leftarrow> ro;
         Some (app', Inr (receipt_to_json (dp A) (sg A) rc (operator_view A app))) } })"

text \<open>The state in which that \<open>expect\<close> panics: the record has been appended. An append that
  panics itself (in a log of \<open>2 ^ 64\<close> entries) is not of interest here.\<close>

definition commit_append_panic ::
  "('h, 't, 'su, 'ki, 'kp, 'pk, 'ad) api_env \<Rightarrow> write_outcome \<Rightarrow> 't
     \<Rightarrow> ('h, 't, 'su, 'kp, 'pk, 'ad) app_state \<Rightarrow> 'h commit_request
     \<Rightarrow> ('h, 't, 'su, 'kp, 'pk, 'ad) app_state option" where
  "commit_append_panic A w now app rq = (case rq of (sub, com, salt) \<Rightarrow>
     (case store_append (dp A) w (app_store app) sub com salt now of
        Some (st', Inr r) \<Rightarrow>
          (case receipt_of (dp A) (sg A) st' (seq r) (log_id_of app) (key_of app) of
             Some (Some rc) \<Rightarrow> None
           | _ \<Rightarrow> Some (app\<lparr>app_store := st'\<rparr>))
      | _ \<Rightarrow> None))"

definition read_head ::
  "('h, 't, 'su, 'ki, 'kp, 'pk, 'ad) api_env \<Rightarrow> ('h, 't, 'su, 'kp, 'pk, 'ad) app_state
     \<Rightarrow> ('h, 't, 'su, 'ki) signed_tree_head option checked" where
  "read_head A app = current_head (dp A) (sg A) (app_store app) (log_id_of app) (key_of app)"

definition submit_head ::
  "('h, 't, 'su, 'ki, 'kp, 'pk, 'ad) api_env \<Rightarrow> 't \<Rightarrow> string \<Rightarrow> ('h, 't, 'su, 'ki) signed_tree_head
     \<Rightarrow> ('h, 't) tsa_record checked" where
  "submit_head A now url sth = do {
     anchor \<leftarrow> sth_external_anchor (anchored_externally A sth url);
     r \<leftarrow> submit_anchor (ts A) anchor url now;
     Some (r\<lparr>tr_tree_size := sth_tree_size sth\<rparr>) }"

definition commit_response ::
  "('h, 't, 'su, 'ki, 'kp, 'pk, 'ad) api_env \<Rightarrow> store_error + json \<Rightarrow> http_response checked" where
  "commit_response A res =
     (case res of
        Inr rc \<Rightarrow> json_response A 201 rc
      | Inl e \<Rightarrow> store_error_response A e)"

text \<open>One request running alone; \<open>now\<close> and \<open>now'\<close> are the clock at the append and at
  the submission.\<close>

definition commit ::
  "('h, 't, 'su, 'ki, 'kp, 'pk, 'ad) api_env \<Rightarrow> write_outcome \<Rightarrow> 't \<Rightarrow> 't
     \<Rightarrow> ('h, 't, 'su, 'kp, 'pk, 'ad) app_state \<Rightarrow> (string \<Rightarrow> string option) \<Rightarrow> string
     \<Rightarrow> (('h, 't, 'su, 'kp, 'pk, 'ad) app_state \<times> http_response) checked" where
  "commit A w now now' app headers body =
     (case check_commit A app headers body of
        Inl resp \<Rightarrow> do { rs \<leftarrow> resp; Some (app, rs) }
      | Inr rq \<Rightarrow> do {
          (app1, res) \<leftarrow> commit_append A w now app rq;
          app2 \<leftarrow> (case external_tsa_url (app_config app) of
             None \<Rightarrow> Some app1
           | Some url \<Rightarrow> do {
               head \<leftarrow> read_head A app1;
               case head of
                 None \<Rightarrow> Some app1
               | Some sth \<Rightarrow> do {
                   r \<leftarrow> submit_head A now' url sth;
                   Some (app1\<lparr>app_tsa := Some r\<rparr>) } });
          rs \<leftarrow> commit_response A res;
          Some (app2, rs) })"

section \<open>Reading\<close>

definition external_anchor_view ::
  "('h, 't, 'su, 'ki, 'kp, 'pk, 'ad) api_env \<Rightarrow> ('h, 't, 'su, 'kp, 'pk, 'ad) app_state
     \<Rightarrow> ('h, 't, 'su, 'ki) signed_tree_head \<Rightarrow> json" where
  "external_anchor_view A app sth =
     (case app_tsa app of
        None \<Rightarrow> json_object [(''status'', JString ''not-configured'')]
      | Some r \<Rightarrow>
          if tr_tree_size r \<noteq> sth_tree_size sth
          then json_object
            [(''status'', JString ''stale''),
             (''anchored_tree_size'', json_u64 (tr_tree_size r)),
             (''detail'', JString ''the record anchors an earlier head'')]
          else json_object
            [(''method'', JString ''rfc3161''),
             (''digest'', JString (hash_hex (dp A) (tr_digest r))),
             (''submission'', tsa_to_wire (dp A) r)])"

definition tree_head_body ::
  "('h, 't, 'su, 'ki, 'kp, 'pk, 'ad) api_env \<Rightarrow> ('h, 't, 'su, 'kp, 'pk, 'ad) app_state
     \<Rightarrow> ('h, 't, 'su, 'ki) signed_tree_head option \<Rightarrow> json" where
  "tree_head_body A app outcome =
     (case outcome of
        Some sth \<Rightarrow> json_object
          [(''log_id'', JString (sth_log_id sth)),
           (''tree_size'', json_u64 (sth_tree_size sth)),
           (''timestamp'', JString (ts_to_string (dp A) (sth_timestamp sth))),
           (''root'', JString (hash_hex (dp A) (sth_root sth))),
           (''signature'', json_object
             [(''suite'', JString (suite_as_str (sg A) (suite (sth_signature sth)))),
              (''key_id'', JString (key_id_as_str (sg A) (key_id (sth_signature sth)))),
              (''value'', JString (case signature_value (sth_signature sth) of
                 Some v \<Rightarrow> hex_encode v | None \<Rightarrow> []))]),
           (''external_anchor'', external_anchor_view A app sth),
           (''operator'', operator_view A app)]
      | None \<Rightarrow> json_object
          [(''log_id'', JString (log_id_of app)),
           (''tree_size'', json_u64 0),
           (''timestamp'', JNull),
           (''root'', JNull),
           (''signature'', JNull),
           (''operator'', operator_view A app)])"

definition tree_head_handler ::
  "('h, 't, 'su, 'ki, 'kp, 'pk, 'ad) api_env \<Rightarrow> ('h, 't, 'su, 'kp, 'pk, 'ad) app_state
     \<Rightarrow> http_response checked" where
  "tree_head_handler A app = do {
     outcome \<leftarrow> read_head A app;
     json_response A 200 (tree_head_body A app outcome) }"

text \<open>\<open>s.parse::<u64>()\<close>.\<close>

definition parse_u64 :: "string \<Rightarrow> u64 option" where
  "parse_u64 s = map_option as_u64 (from_str_radix 64 10 s)"

definition hex_or_null :: "('h, 't) deps \<Rightarrow> 'h option \<Rightarrow> json" where
  "hex_or_null D h = (case h of Some x \<Rightarrow> JString (hash_hex D x) | None \<Rightarrow> JNull)"

definition tree_consistency ::
  "('h, 't, 'su, 'ki, 'kp, 'pk, 'ad) api_env \<Rightarrow> ('h, 't, 'su, 'kp, 'pk, 'ad) app_state
     \<Rightarrow> (string \<Rightarrow> string option) \<Rightarrow> http_response checked" where
  "tree_consistency A app params =
     (let missing = bad_request A ''`from` is required (the pinned tree size)'' in
      case map_option trim (params ''from'') of
        None \<Rightarrow> missing
      | Some s \<Rightarrow>
          if s = [] then missing
          else (case parse_u64 s of
              None \<Rightarrow> bad_request A ''`from` must be an unsigned integer''
            | Some from_n \<Rightarrow>
                if store_size (app_store app) < from_n
                then bad_request A (''`from` ('' @ show_nat (unat from_n)
                  @ '') is larger than the current tree size (''
                  @ show_nat (unat (store_size (app_store app))) @ '')'')
                else do {
                  rt \<leftarrow> store_root (dp A) (app_store app);
                  old \<leftarrow> store_root_at_size (dp A) (app_store app) from_n;
                  pth \<leftarrow> store_consistency_path (dp A) (app_store app) from_n;
                  json_response A 200 (json_object
                    [(''log_id'', JString (log_id_of app)),
                     (''old_size'', json_u64 from_n),
                     (''old_root'', hex_or_null (dp A) old),
                     (''new_size'', json_u64 (store_size (app_store app))),
                     (''new_root'', hex_or_null (dp A) rt),
                     (''path'', JArray (map (\<lambda>h. JString (hash_hex (dp A) h)) pth)),
                     (''operator'', operator_view A app)]) }))"

definition receipt_handler ::
  "('h, 't, 'su, 'ki, 'kp, 'pk, 'ad) api_env \<Rightarrow> ('h, 't, 'su, 'kp, 'pk, 'ad) app_state
     \<Rightarrow> string \<Rightarrow> http_response checked" where
  "receipt_handler A app sq =
     (case parse_u64 (trim sq) of
        None \<Rightarrow> bad_request A ''`seq` must be an unsigned integer''
      | Some n \<Rightarrow> do {
          outcome \<leftarrow> receipt_of (dp A) (sg A) (app_store app) n (log_id_of app) (key_of app);
          case outcome of
            Some r \<Rightarrow> json_response A 200 (receipt_to_json (dp A) (sg A) r (operator_view A app))
          | None \<Rightarrow> not_found A (''no receipt for seq '' @ show_nat (unat n)) })"

lemma parse_u64_show_nat [simp]: "parse_u64 (show_nat (unat n)) = Some n"
  using from_str_radix_show_nat [of "unat n" 64] unat_u64_less [of n] by (simp add: parse_u64_def as_u64_def)

section \<open>Requests\<close>

text \<open>With a token configured, nothing but the matching header lets a request through.\<close>

lemma check_commit_denied:
  assumes "append_token (app_config app) = Some token"
    and "headers ''authorization'' \<noteq> Some (''Bearer '' @ token)"
  shows "check_commit A app headers body = Inl (unauthorized A)"
proof -
  have "Option.bind (headers ''authorization'') (strip_prefix ''Bearer '') \<noteq> Some token"
    using assms(2) strip_prefix_eq_Some_iff [of "''Bearer ''" _ token]
    by (auto simp: bind_eq_Some_conv)
  with assms(1) show ?thesis by (simp add: check_commit_def require_append_def)
qed

lemma check_commit_Inr:
  assumes "check_commit A app headers body = Inr (sub, com, salt)"
  shows "\<exists>v s c. json_from_str (dp A) body = Inr v \<and> get v ''subject'' = Some (JString s) \<and> sub = trim s \<and>
      sub \<noteq> [] \<and> length sub \<le> 512 \<and> get v ''commitment'' = Some (JString c) \<and>
      hash_from_hex (dp A) (trim c) = Some com \<and>
      (salt = None \<and> get v ''salt_ref'' \<in> {None, Some JNull} \<or>
       (\<exists>n. salt = Some n \<and> get v ''salt_ref'' = Some (JNumber (PosInt n))))"
proof -
  from assms obtain v where v: "json_from_str (dp A) body = Inr v"
    and s: "req_str A v ''subject'' = Inr sub" "length sub \<le> 512"
    and c: "req_commitment A v = Inr com" and n: "opt_u64 A v ''salt_ref'' = Inr salt"
    by (auto simp: check_commit_def parse_body_def rbind_eq_Inr_iff split: option.splits if_splits)
  have str: "\<exists>t. get v k = Some (JString t) \<and> x = trim t \<and> x \<noteq> []" if "req_str A v k = Inr x" for k x
    using that by (auto simp: req_str_def as_str_Some_iff bind_eq_Some_conv split: option.splits if_splits)
  have "salt = None \<and> get v ''salt_ref'' \<in> {None, Some JNull} \<or>
      (\<exists>k. salt = Some k \<and> get v ''salt_ref'' = Some (JNumber (PosInt k)))"
    using n by (auto simp: opt_u64_def ok_or_eq_Inr_iff split: option.splits json.splits
        elim: number_as_u64.elims)
  moreover obtain t where "req_str A v ''commitment'' = Inr t" "hash_from_hex (dp A) t = Some com"
    using c by (auto simp: req_commitment_def rbind_eq_Inr_iff ok_or_eq_Inr_iff)
  ultimately show ?thesis using v s str by blast
qed

section \<open>Appends and receipts\<close>

definition app_inv ::
  "('h, 't, 'su, 'ki, 'kp, 'pk, 'ad) api_env \<Rightarrow> ('h, 't, 'su, 'kp, 'pk, 'ad) app_state \<Rightarrow> bool" where
  "app_inv A app \<longleftrightarrow> store_inv (dp A) (app_store app)"

definition can_sign ::
  "('h, 't, 'su, 'ki, 'kp, 'pk, 'ad) api_env \<Rightarrow> ('h, 't, 'su, 'kp, 'pk, 'ad) app_state \<Rightarrow> bool" where
  "can_sign A app \<longleftrightarrow> (\<forall>bs. sign_tree_head (sg A) (key_of app) bs \<noteq> None)"

text \<open>The receipt's JSON for a sequence number, as every handler derives it.\<close>

definition receipt_view ::
  "('h, 't, 'su, 'ki, 'kp, 'pk, 'ad) api_env \<Rightarrow> ('h, 't, 'su, 'kp, 'pk, 'ad) app_state \<Rightarrow> u64
     \<Rightarrow> json option checked" where
  "receipt_view A app sq = map_option (map_option
       (\<lambda>rc. receipt_to_json (dp A) (sg A) rc (operator_view A app)))
     (receipt_of (dp A) (sg A) (app_store app) sq (log_id_of app) (key_of app))"

definition grown ::
  "('h, 't, 'su, 'ki, 'kp, 'pk, 'ad) api_env \<Rightarrow> ('h, 't, 'su, 'kp, 'pk, 'ad) app_state
     \<Rightarrow> ('h, 't, 'su, 'kp, 'pk, 'ad) app_state \<Rightarrow> bool" where
  "grown A app app' \<longleftrightarrow> app_inv A app' \<and> app_operator app' = app_operator app \<and>
     app_config app' = app_config app \<and> (\<exists>rs. entries (app_store app') = entries (app_store app) @ rs)"

lemma grown_trans: "grown A a b \<Longrightarrow> grown A b c \<Longrightarrow> grown A a c"
  by (auto simp: grown_def)

lemma grown_refl: "app_inv A a \<Longrightarrow> grown A a a"
  by (simp add: grown_def)

lemma receipt_view_frozen:
  assumes "app_inv A app" and "grown A app app'" and "unat sq < length (entries (app_store app))"
  shows "receipt_view A app' sq = receipt_view A app sq"
proof -
  from assms obtain rs where "store_inv (dp A) (app_store app)" "store_inv (dp A) (app_store app')"
    "entries (app_store app') = entries (app_store app) @ rs" "app_operator app' = app_operator app"
    by (auto simp: app_inv_def grown_def)
  with receipt_frozen [OF this(1-3) assms(3), of "sg A" "log_id_of app" "key_of app"] show ?thesis
    by (simp add: receipt_view_def operator_view_def)
qed

text \<open>The two ways in which the section under the store's lock returns.\<close>

lemma commit_append_cases:
  assumes "commit_append A w now ap rq = Some (ap', res)"
  obtains (failed) sub com salt st' e where "rq = (sub, com, salt)"
      "store_append (dp A) w (app_store ap) sub com salt now = Some (st', Inl e)"
      "ap' = ap\<lparr>app_store := st'\<rparr>" "res = Inl e"
    | (sequenced) sub com salt st' r rc where "rq = (sub, com, salt)"
      "store_append (dp A) w (app_store ap) sub com salt now = Some (st', Inr r)"
      "receipt_of (dp A) (sg A) st' (seq r) (log_id_of ap) (key_of ap) = Some (Some rc)"
      "ap' = ap\<lparr>app_store := st'\<rparr>" "res = Inr (receipt_to_json (dp A) (sg A) rc (operator_view A ap))"
proof -
  obtain sub com salt where rq: "rq = (sub, com, salt)" by (cases rq)
  from assms rq obtain st' res' where
    st': "store_append (dp A) w (app_store ap) sub com salt now = Some (st', res')"
    and rest: "(case res' of Inl e \<Rightarrow> Some (ap\<lparr>app_store := st'\<rparr>, Inl e)
       | Inr r \<Rightarrow> do {
           ro \<leftarrow> receipt_of (dp A) (sg A) st' (seq r) (log_id_of ap) (key_of ap);
           rc \<leftarrow> ro;
           Some (ap\<lparr>app_store := st'\<rparr>, Inr (receipt_to_json (dp A) (sg A) rc (operator_view A ap))) })
       = Some (ap', res)"
    by (auto simp: commit_append_def Let_def bind_eq_Some_conv)
  show ?thesis
  proof (cases res')
    case (Inl e)
    with failed [OF rq] st' rest show ?thesis by simp
  next
    case (Inr r)
    with sequenced [OF rq] st' rest show ?thesis by (auto simp: bind_eq_Some_conv)
  qed
qed

lemma commit_append_spec:
  assumes inv: "app_inv A app" and room: "has_room (app_store app)" and sign: "can_sign A app"
  shows "\<exists>app' res. commit_append A w now app rq = Some (app', res) \<and> grown A app app' \<and>
    app_tsa app' = app_tsa app \<and>
    (case res of
       Inl e \<Rightarrow> entries (app_store app') = entries (app_store app)
     | Inr j \<Rightarrow> entries (app_store app') = entries (app_store app)
           @ [next_record (app_store app) (fst rq) (fst (snd rq)) (snd (snd rq)) now] \<and>
         receipt_view A app' (store_size (app_store app)) = Some (Some j))"
proof -
  obtain sub com salt where rq: "rq = (sub, com, salt)" by (cases rq)
  from inv have sinv: "store_inv (dp A) (app_store app)" by (simp add: app_inv_def)
  from store_append_inv [OF this room] obtain st' res where
    st': "store_append (dp A) w (app_store app) sub com salt now = Some (st', res)" "store_inv (dp A) st'"
    and res: "case res of Inl e \<Rightarrow> entries st' = entries (app_store app) \<and> tree st' = tree (app_store app)
       | Inr r \<Rightarrow> r = \<lparr>seq = store_size (app_store app), logged_at = now, subject = sub, commitment = com,
                        salt_ref = salt\<rparr> \<and> entries st' = entries (app_store app) @ [r]" by blast
  show ?thesis
  proof (cases res)
    case (Inl e)
    with res st' rq show ?thesis by (simp add: commit_append_def grown_def app_inv_def)
  next
    case (Inr r)
    with res have r: "r = next_record (app_store app) sub com salt now"
      and e: "entries st' = entries (app_store app) @ [r]" by (simp_all add: next_record_def)
    have "unat (seq r) < length (entries st')" using e sinv r by (simp add: next_record_def)
    from receipt_of_signed [OF st'(2) this sign [unfolded can_sign_def], of "log_id_of app"]
    obtain rc where "receipt_of (dp A) (sg A) st' (seq r) (log_id_of app) (key_of app) = Some (Some rc)"
      by blast
    with Inr st' rq r e show ?thesis
      by (simp add: commit_append_def grown_def app_inv_def receipt_view_def operator_view_def next_record_def)
  qed
qed

text \<open>The way in which it does not return.\<close>

lemma commit_append_panicE:
  assumes "commit_append_panic A w now ap rq = Some ap'"
  obtains sub com salt st' r where "rq = (sub, com, salt)"
    "store_append (dp A) w (app_store ap) sub com salt now = Some (st', Inr r)"
    "ap' = ap\<lparr>app_store := st'\<rparr>"
    "\<forall>rc. receipt_of (dp A) (sg A) st' (seq r) (log_id_of ap) (key_of ap) \<noteq> Some (Some rc)"
proof -
  obtain sub com salt where rq: "rq = (sub, com, salt)" by (cases rq)
  from assms rq obtain st' r where st': "store_append (dp A) w (app_store ap) sub com salt now = Some (st', Inr r)"
    by (auto simp: commit_append_panic_def split: option.splits sum.splits)
  with assms rq have "ap' = ap\<lparr>app_store := st'\<rparr>"
    "\<forall>rc. receipt_of (dp A) (sg A) st' (seq r) (log_id_of ap) (key_of ap) \<noteq> Some (Some rc)"
    by (auto simp: commit_append_panic_def split: option.splits)
  with rq st' show thesis by (rule that)
qed

lemma commit_append_panic_grown:
  assumes "app_inv A ap" and "commit_append_panic A w now ap rq = Some ap'"
  shows "grown A ap ap'" and "app_tsa ap' = app_tsa ap" and "\<not> can_sign A ap"
    and "\<exists>r. entries (app_store ap') = entries (app_store ap) @ [r] \<and> (subject r, commitment r, salt_ref r) = rq"
proof -
  from assms(2) obtain sub com salt st' r where rq: "rq = (sub, com, salt)"
    and st': "store_append (dp A) w (app_store ap) sub com salt now = Some (st', Inr r)"
    and ap': "ap' = ap\<lparr>app_store := st'\<rparr>"
    and no: "\<forall>rc. receipt_of (dp A) (sg A) st' (seq r) (log_id_of ap) (key_of ap) \<noteq> Some (Some rc)"
    by (rule commit_append_panicE)
  have inv: "store_inv (dp A) (app_store ap)" using assms(1) by (simp add: app_inv_def)
  from store_append_Some_inv [OF inv st'] have s: "store_inv (dp A) st'"
    "entries st' = entries (app_store ap) @ [r]" "seq r = store_size (app_store ap)" by simp_all
  then show "grown A ap ap'" "app_tsa ap' = app_tsa ap" by (simp_all add: ap' grown_def app_inv_def)
  show "\<exists>r. entries (app_store ap') = entries (app_store ap) @ [r] \<and> (subject r, commitment r, salt_ref r) = rq"
    using s(2) store_append_Inr_record [OF st'] rq by (intro exI [of _ r]) (simp add: ap' next_record_def)
  have "unat (seq r) < length (entries st')" using s inv by simp
  from receipt_of_signed [OF s(1) this, of "sg A" "key_of ap" "log_id_of ap"] no
  show "\<not> can_sign A ap" unfolding can_sign_def by blast
qed

text \<open>One or the other: with room, the section returns or panics at that point.\<close>

lemma commit_append_or_panic:
  assumes "app_inv A ap" and "has_room (app_store ap)" and "commit_append A w now ap rq = None"
  shows "commit_append_panic A w now ap rq \<noteq> None"
proof -
  obtain sub com salt where rq: "rq = (sub, com, salt)" by (cases rq)
  have "store_inv (dp A) (app_store ap)" using assms(1) by (simp add: app_inv_def)
  from store_append_inv [OF this assms(2), of w sub com salt now] obtain st' res where
    st': "store_append (dp A) w (app_store ap) sub com salt now = Some (st', res)" by blast
  show ?thesis
  proof (cases res)
    case (Inl e)
    with st' rq assms(3) show ?thesis by (simp add: commit_append_def)
  next
    case (Inr r)
    with st' rq assms(3) show ?thesis
      by (auto simp: commit_append_def commit_append_panic_def bind_eq_None_conv split: option.split)
  qed
qed

lemma receipt_handler_view:
  "receipt_view A app n = Some (Some j) \<Longrightarrow>
     receipt_handler A app (show_nat (unat n)) = json_response A 200 j"
  by (auto simp: receipt_handler_def receipt_view_def)

lemma receipt_handler_unknown:
  fixes n :: u64
  assumes "app_inv A app" and "length (entries (app_store app)) \<le> unat n"
  shows "receipt_handler A app (show_nat (unat n))
    = not_found A (''no receipt for seq '' @ show_nat (unat n))"
  using assms by (simp add: receipt_handler_def app_inv_def receipt_of_missing)

section \<open>Heads and consistency\<close>

definition consistency_body ::
  "('h, 't, 'su, 'ki, 'kp, 'pk, 'ad) api_env \<Rightarrow> ('h, 't, 'su, 'kp, 'pk, 'ad) app_state
     \<Rightarrow> u64 \<Rightarrow> 'h option \<Rightarrow> 'h option \<Rightarrow> 'h list \<Rightarrow> json" where
  "consistency_body A app n old new pth = json_object
     [(''log_id'', JString (log_id_of app)),
      (''old_size'', json_u64 n),
      (''old_root'', hex_or_null (dp A) old),
      (''new_size'', json_u64 (store_size (app_store app))),
      (''new_root'', hex_or_null (dp A) new),
      (''path'', JArray (map (\<lambda>h. JString (hash_hex (dp A) h)) pth)),
      (''operator'', operator_view A app)]"

lemma tree_consistency_served:
  assumes inv: "app_inv A app" and n: "unat n \<le> length (entries (app_store app))" and pos: "0 < unat n"
    and req: "params ''from'' = Some (show_nat (unat n))"
  shows "\<exists>old new pth.
    tree_consistency A app params
      = json_response A 200 (consistency_body A app n (Some old) (Some new) pth) \<and>
    old = mth (leaf_hash (dp A)) (node_hash (dp A))
      (take (unat n) (map commitment (entries (app_store app)))) \<and>
    new = mth (leaf_hash (dp A)) (node_hash (dp A)) (map commitment (entries (app_store app))) \<and>
    accepts_consistency (node_hash (dp A)) (unat n) old (length (entries (app_store app))) new pth"
proof -
  let ?st = "app_store app" and ?D = "dp A"
  let ?es = "map commitment (entries ?st)"
  from inv have sinv: "store_inv ?D ?st" by (simp add: app_inv_def)
  have ne: "entries ?st \<noteq> []" using n pos by auto
  have sz: "\<not> store_size ?st < n" using n sinv by (simp add: word_less_nat_alt)
  have "store_root ?D ?st = Some (Some (mth (leaf_hash ?D) (node_hash ?D) ?es))"
    using reads.root_at_pos [OF sinv, of "store_size ?st"] n pos sinv ne by (simp add: store_root_eq)
  moreover have "store_root_at_size ?D ?st n
      = Some (Some (mth (leaf_hash ?D) (node_hash ?D) (take (unat n) ?es)))"
    using reads.root_at_pos [OF sinv n pos] by simp
  moreover have "store_consistency_path ?D ?st n
      = Some (consistency_proof (leaf_hash ?D) (node_hash ?D) (unat n) ?es)"
    using reads.cons_ents [OF sinv n] .
  moreover have "accepts_consistency (node_hash ?D) (unat n)
      (mth (leaf_hash ?D) (node_hash ?D) (take (unat n) ?es)) (length ?es)
      (mth (leaf_hash ?D) (node_hash ?D) ?es)
      (consistency_proof (leaf_hash ?D) (node_hash ?D) (unat n) ?es)"
    using n pos by (intro consistency_proof_accepted) simp_all
  ultimately show ?thesis
    using req sz by (auto simp: tree_consistency_def consistency_body_def)
qed

lemma tree_consistency_too_large:
  fixes n :: u64
  assumes "app_inv A app" and "length (entries (app_store app)) < unat n"
    and "params ''from'' = Some (show_nat (unat n))"
  shows "tree_consistency A app params = bad_request A (''`from` ('' @ show_nat (unat n)
    @ '') is larger than the current tree size (''
    @ show_nat (length (entries (app_store app))) @ '')'')"
  using assms by (simp add: tree_consistency_def app_inv_def word_less_nat_alt)

lemma read_head_total: "app_inv A app \<Longrightarrow> read_head A app \<noteq> None"
  by (simp add: read_head_def app_inv_def current_head_total)

text \<open>The head, as a function of the entries it covers.\<close>

definition head_at ::
  "('h, 't, 'su, 'ki, 'kp, 'pk, 'ad) api_env \<Rightarrow> ('h, 't, 'su, 'kp, 'pk, 'ad) app_state \<Rightarrow> u64
     \<Rightarrow> ('h, 't, 'su, 'ki) signed_tree_head option checked" where
  "head_at A app n = map_option (map_option tree_head)
     (receipt_of (dp A) (sg A) (app_store app) (n - 1) (log_id_of app) (key_of app))"

lemma read_head_at:
  assumes "app_inv A app" and "entries (app_store app) \<noteq> []"
  shows "read_head A app = head_at A app (store_size (app_store app))"
  using assms by (simp add: read_head_def head_at_def app_inv_def current_head_receipt)

lemma unat_minus_1_less: "0 < unat n \<Longrightarrow> unat n \<le> k \<Longrightarrow> unat (n - 1 :: u64) < k"
  by (simp add: unat_sub word_le_nat_alt Suc_le_eq)

lemma head_at_frozen:
  assumes "app_inv A app" and "grown A app app'" and "0 < unat n"
    and "unat n \<le> length (entries (app_store app))"
  shows "head_at A app' n = head_at A app n"
proof -
  from assms obtain rs where r: "store_inv (dp A) (app_store app)" "store_inv (dp A) (app_store app')"
    "entries (app_store app') = entries (app_store app) @ rs" "app_operator app' = app_operator app"
    by (auto simp: app_inv_def grown_def)
  have "unat (n - 1) < length (entries (app_store app))"
    using assms(3,4) by (rule unat_minus_1_less)
  from receipt_frozen [OF r(1-3) this, of "sg A" "log_id_of app" "key_of app"] r(4)
  show ?thesis by (simp add: head_at_def)
qed

lemma read_head_size:
  assumes "app_inv A app" and "read_head A app = Some (Some sth)"
  shows "sth_tree_size sth = store_size (app_store app)" and "entries (app_store app) \<noteq> []"
    and "sth_log_id sth = log_id_of app"
proof -
  show ne: "entries (app_store app) \<noteq> []"
    using assms current_head_empty [of "dp A" "app_store app" "sg A" "log_id_of app" "key_of app"]
    by (auto simp: read_head_def app_inv_def)
  from current_head_fields [OF assms(2) [unfolded read_head_def]]
  show "sth_tree_size sth = store_size (app_store app)" "sth_log_id sth = log_id_of app" by simp_all
qed

text \<open>The heads that the log answers with in a state: the current one and those in the receipts.\<close>

definition issues_head ::
  "('h, 't, 'su, 'ki, 'kp, 'pk, 'ad) api_env \<Rightarrow> ('h, 't, 'su, 'kp, 'pk, 'ad) app_state
     \<Rightarrow> ('h, 't, 'su, 'ki) signed_tree_head \<Rightarrow> bool" where
  "issues_head A ap h \<longleftrightarrow> read_head A ap = Some (Some h) \<or>
     (\<exists>sq rc. receipt_of (dp A) (sg A) (app_store ap) sq (log_id_of ap) (key_of ap) = Some (Some rc) \<and>
       h = tree_head rc)"

lemma issues_head_iff:
  assumes "app_inv A ap"
  shows "issues_head A ap h \<longleftrightarrow> (\<exists>sq rc. unat sq < length (entries (app_store ap)) \<and>
    receipt_of (dp A) (sg A) (app_store ap) sq (log_id_of ap) (key_of ap) = Some (Some rc) \<and> h = tree_head rc)"
proof -
  have inv: "store_inv (dp A) (app_store ap)" using assms by (simp add: app_inv_def)
  have in_range: "unat sq < length (entries (app_store ap))"
    if "receipt_of (dp A) (sg A) (app_store ap) sq (log_id_of ap) (key_of ap) = Some (Some rc)" for sq rc
    using receipt_of_missing [OF inv, of sq "sg A" "log_id_of ap" "key_of ap"] that not_le by fastforce
  have "\<exists>sq rc. receipt_of (dp A) (sg A) (app_store ap) sq (log_id_of ap) (key_of ap) = Some (Some rc) \<and>
      h = tree_head rc" if "read_head A ap = Some (Some h)"
  proof -
    have "head_at A ap (store_size (app_store ap)) = Some (Some h)"
      using read_head_at [OF assms read_head_size(2) [OF assms that]] that by simp
    then show ?thesis by (auto simp: head_at_def)
  qed
  then show ?thesis using in_range unfolding issues_head_def by blast
qed

lemma issued_head_fields:
  assumes "app_inv A ap" and "issues_head A ap h"
  shows "0 < unat (sth_tree_size h)" and "unat (sth_tree_size h) \<le> length (entries (app_store ap))"
    and "head_at A ap (sth_tree_size h) = Some (Some h)"
    and "sth_root h = mth (leaf_hash (dp A)) (node_hash (dp A))
      (take (unat (sth_tree_size h)) (map commitment (entries (app_store ap))))"
proof -
  have inv: "store_inv (dp A) (app_store ap)" using assms(1) by (simp add: app_inv_def)
  obtain sq rc where sq: "unat sq < length (entries (app_store ap))"
    and rc: "receipt_of (dp A) (sg A) (app_store ap) sq (log_id_of ap) (key_of ap) = Some (Some rc)"
    and h: "h = tree_head rc" using assms issues_head_iff [OF assms(1)] by blast
  have n: "unat (sth_tree_size h) = Suc (unat sq)" using receipt_of_verifies(3,4) [OF inv sq rc] h by simp
  then have "sth_tree_size h - 1 = sq" using reads.next_index(2) [OF inv sq] by (metis add_diff_cancel_right' u64_eq_iff)
  then show "head_at A ap (sth_tree_size h) = Some (Some h)" using rc h by (simp add: head_at_def)
  show "0 < unat (sth_tree_size h)" "unat (sth_tree_size h) \<le> length (entries (app_store ap))"
    using n sq by simp_all
  show "sth_root h = mth (leaf_hash (dp A)) (node_hash (dp A))
      (take (unat (sth_tree_size h)) (map commitment (entries (app_store ap))))"
    using receipt_of_root [OF inv sq rc] h n by simp
qed

text \<open>A head that was issued once is issued for good, and one head is issued per size.\<close>

lemma issued_head_grown:
  assumes "app_inv A ap" and "grown A ap ap'" and "issues_head A ap h"
  shows "issues_head A ap' h"
proof -
  note f = issued_head_fields [OF assms(1,3)]
  have "head_at A ap' (sth_tree_size h) = Some (Some h)"
    using head_at_frozen [OF assms(1,2) f(1,2)] f(3) by simp
  then show ?thesis by (auto simp: head_at_def issues_head_def)
qed

lemma issued_heads_unique:
  assumes "app_inv A ap" and "issues_head A ap h" and "issues_head A ap h'"
    and "sth_tree_size h = sth_tree_size h'"
  shows "h = h'"
  using issued_head_fields(3) [OF assms(1,2)] issued_head_fields(3) [OF assms(1,3)]
  unfolding assms(4) by (metis option.inject)

lemma issued_heads_consistent:
  assumes "app_inv A ap" and "issues_head A ap h" and "issues_head A ap h'"
    and "sth_tree_size h \<le> sth_tree_size h'"
  shows "\<exists>pth. accepts_consistency (node_hash (dp A)) (unat (sth_tree_size h)) (sth_root h)
    (unat (sth_tree_size h')) (sth_root h') pth"
proof -
  let ?all = "map commitment (entries (app_store ap))" and ?m = "unat (sth_tree_size h)"
  let ?es = "take (unat (sth_tree_size h')) ?all"
  note f = issued_head_fields [OF assms(1,2)] and f' = issued_head_fields [OF assms(1,3)]
  have m: "?m \<le> unat (sth_tree_size h')" using assms(4) by (simp add: word_le_nat_alt)
  have len: "length ?es = unat (sth_tree_size h')" using f'(2) by simp
  have pre: "take ?m ?es = take ?m ?all" using m by (simp add: min_def)
  show ?thesis
    using consistency_proof_accepted [of ?m ?es "node_hash (dp A)" "leaf_hash (dp A)"] m
    unfolding len pre f(4) [symmetric] f'(4) [symmetric] by blast
qed

section \<open>A whole request\<close>

lemma same_json_body:
  "json_response A m j = Some resp \<Longrightarrow>
     \<exists>resp'. json_response A n j = Some resp' \<and> resp_status resp' = n \<and> resp_body resp' = resp_body resp"
  by (auto simp: json_response_def build_response_def split: sum.splits)

lemma error_response_status: "error_response A n msg = Some resp \<Longrightarrow> resp_status resp = n"
  by (auto simp: error_response_def json_response_def build_response_def split: sum.splits)

lemma check_commit_Inl:
  assumes "check_commit A ap headers body = Inl x"
  shows "x = unauthorized A \<or> (\<exists>msg. x = bad_request A msg)"
proof -
  have a: "require_append A ap headers = Some y \<Longrightarrow> y = unauthorized A" for y
    by (auto simp: require_append_def split: option.splits if_splits)
  have b: "\<exists>msg. y = bad_request A msg" if "parse_body A body = Inl y" for y
    using that by (cases "json_from_str (dp A) body") (auto simp: parse_body_def)
  have c: "\<exists>msg. y = bad_request A msg" if "req_str A v k = Inl y" for v k y
    using that by (auto simp: req_str_def split: option.splits if_splits)
  have d: "\<exists>msg. y = bad_request A msg" if "req_commitment A v = Inl y" for v y
    using that c by (cases "req_str A v ''commitment''")
      (auto simp: req_commitment_def ok_or_def split: option.splits)
  have e: "\<exists>msg. y = bad_request A msg" if "opt_u64 A v k = Inl y" for v k y
    using that by (auto simp: opt_u64_def ok_or_def split: option.splits json.splits)
  show ?thesis
  proof (cases "require_append A ap headers")
    case (Some y)
    with a assms show ?thesis by (simp add: check_commit_def)
  next
    case None
    show ?thesis
      using assms None b c d e
      by (auto simp: check_commit_def rbind_def split: sum.splits if_splits)
  qed
qed

lemma check_commit_refusal:
  assumes "check_commit A ap headers body = Inl (Some resp)"
  shows "resp_status resp \<in> {400, 401}"
  using check_commit_Inl [OF assms] error_response_status
  by (metis bad_request_def insertCI unauthorized_def)

lemma commit_response_201:
  assumes "commit_response A res = Some resp" and "resp_status resp = 201"
  shows "\<exists>j. res = Inr j \<and> json_response A 201 j = Some resp"
  using assms error_response_status [of A 500 _ resp]
  by (cases res) (auto simp: commit_response_def store_error_response_def)

text \<open>A 201 answers exactly the requests that sequenced their entry.\<close>

lemma commit_201:
  assumes "app_inv A ap" and "has_room (app_store ap)" and "can_sign A ap"
    and "commit A w now now' ap headers body = Some (ap', resp)" and "resp_status resp = 201"
  shows "\<exists>r j. entries (app_store ap') = entries (app_store ap) @ [r] \<and> seq r = store_size (app_store ap) \<and>
    receipt_view A ap' (seq r) = Some (Some j) \<and> json_response A 201 j = Some resp \<and> app_inv A ap'"
proof (cases "check_commit A ap headers body")
  case (Inl x)
  with assms(4) have "check_commit A ap headers body = Inl (Some resp)"
    by (auto simp: commit_def bind_eq_Some_conv)
  from check_commit_refusal [OF this] assms(5) show ?thesis by simp
next
  case (Inr rq)
  from commit_append_spec [OF assms(1-3), of w now rq] obtain ap1 res where
    a: "commit_append A w now ap rq = Some (ap1, res)" "grown A ap ap1"
    and res: "case res of
       Inl e \<Rightarrow> entries (app_store ap1) = entries (app_store ap)
     | Inr j \<Rightarrow> entries (app_store ap1) = entries (app_store ap)
           @ [next_record (app_store ap) (fst rq) (fst (snd rq)) (snd (snd rq)) now] \<and>
         receipt_view A ap1 (store_size (app_store ap)) = Some (Some j)" by blast
  from assms(4) Inr a(1) obtain x where x: "ap' = ap1\<lparr>app_tsa := x\<rparr>" and resp: "commit_response A res = Some resp"
  proof -
    assume that: "\<And>x. ap' = ap1\<lparr>app_tsa := x\<rparr> \<Longrightarrow> commit_response A res = Some resp \<Longrightarrow> thesis"
    have keep: "ap1\<lparr>app_tsa := app_tsa ap1\<rparr> = ap1" by simp
    show thesis
      using assms(4) Inr a(1) that [of "app_tsa ap1", unfolded keep] that
      by (auto simp: commit_def bind_eq_Some_conv split: option.splits)
  qed
  from commit_response_201 [OF resp assms(5)] obtain j where j: "res = Inr j" "json_response A 201 j = Some resp"
    by blast
  with res a(2) x show ?thesis
    by (auto simp: next_record_def receipt_view_def operator_view_def grown_def app_inv_def)
qed

end
