(* ===== verification/Interleaving.thy ===== *)
theory Interleaving
  imports Handlers
begin

text \<open>
  Concurrent \<open>POST /commitments\<close> requests: each request is a task that runs the
  sections of \<open>commit\<close> (\<open>src/api.rs\<close>, lines 261 to 325) one after the other. A
  section holds the store's lock, or the lock of the submission record, and is one
  step; sections of different tasks interleave freely. The network exchange of a
  submission is chosen anew at each step. At its only \<open>await\<close> a task may end without an
  answer: the executor drops it, or the submission panics. A section that panics under
  the store's lock leaves what it did and poisons the lock: every later section that
  asks for it panics at once (\<open>expect\<close>), and its task ends without an answer.
\<close>

section \<open>Tasks\<close>

datatype ('h, 't, 'su, 'ki) task =
    Accepted "'h commit_request"
  | Sequenced "store_error + json"
  | Head_Read "store_error + json" "('h, 't, 'su, 'ki) signed_tree_head"
  | Submitted "store_error + json" "('h, 't) tsa_record"
  | Recorded "store_error + json"
  | Answered http_response
  | Dropped

record ('h, 't, 'su, 'ki, 'kp, 'pk, 'ad) system =
  app :: "('h, 't, 'su, 'kp, 'pk, 'ad) app_state"
  tasks :: "nat \<Rightarrow> ('h, 't, 'su, 'ki) task option"
  poisoned :: bool

definition set_task ::
  "nat \<Rightarrow> ('h, 't, 'su, 'ki) task \<Rightarrow> ('h, 't, 'su, 'ki, 'kp, 'pk, 'ad) system
     \<Rightarrow> ('h, 't, 'su, 'ki, 'kp, 'pk, 'ad) system" where
  "set_task i t s = s\<lparr>tasks := (tasks s)(i \<mapsto> t)\<rparr>"

text \<open>No head is read for submission: no authority, or (with the lock) no head.\<close>

definition nothing_to_submit ::
  "('h, 't, 'su, 'ki, 'kp, 'pk, 'ad) api_env \<Rightarrow> ('h, 't, 'su, 'ki, 'kp, 'pk, 'ad) system \<Rightarrow> bool" where
  "nothing_to_submit A s \<longleftrightarrow> external_tsa_url (app_config (app s)) = None \<or>
     \<not> poisoned s \<and> read_head A (app s) = Some None"

text \<open>The points where a task may end without an answer: waiting for the authority, asking
  for a poisoned lock, or printing a response that does not print.\<close>

definition gives_up ::
  "('h, 't, 'su, 'ki, 'kp, 'pk, 'ad) api_env \<Rightarrow> ('h, 't, 'su, 'ki, 'kp, 'pk, 'ad) system
     \<Rightarrow> ('h, 't, 'su, 'ki) task \<Rightarrow> bool" where
  "gives_up A s t = (case t of
       Accepted rq \<Rightarrow> poisoned s
     | Sequenced res \<Rightarrow> (if nothing_to_submit A s then commit_response A res = None else poisoned s)
     | Head_Read res sth \<Rightarrow> True
     | Recorded res \<Rightarrow> commit_response A res = None
     | _ \<Rightarrow> False)"

inductive commit_step ::
  "('h, 't, 'su, 'ki, 'kp, 'pk, 'ad) api_env \<Rightarrow> ('h, 't, 'su, 'ki, 'kp, 'pk, 'ad) system
     \<Rightarrow> ('h, 't, 'su, 'ki, 'kp, 'pk, 'ad) system \<Rightarrow> bool" for A where
  accept: "tasks s i = None \<Longrightarrow> check_commit A (app s) headers body = Inr rq \<Longrightarrow>
     commit_step A s (set_task i (Accepted rq) s)"
| refuse: "tasks s i = None \<Longrightarrow> check_commit A (app s) headers body = Inl (Some resp) \<Longrightarrow>
     commit_step A s (set_task i (Answered resp) s)"
| sequence: "\<not> poisoned s \<Longrightarrow> tasks s i = Some (Accepted rq) \<Longrightarrow> commit_append A w now (app s) rq = Some (app', res) \<Longrightarrow>
     commit_step A s (set_task i (Sequenced res) (s\<lparr>app := app'\<rparr>))"
| panic: "\<not> poisoned s \<Longrightarrow> tasks s i = Some (Accepted rq) \<Longrightarrow>
     commit_append_panic A w now (app s) rq = Some app' \<Longrightarrow>
     commit_step A s (set_task i Dropped (s\<lparr>app := app', poisoned := True\<rparr>))"
| read: "\<not> poisoned s \<Longrightarrow> tasks s i = Some (Sequenced res) \<Longrightarrow> external_tsa_url (app_config (app s)) = Some url \<Longrightarrow>
     read_head A (app s) = Some (Some sth) \<Longrightarrow> commit_step A s (set_task i (Head_Read res sth) s)"
| submit: "tasks s i = Some (Head_Read res sth) \<Longrightarrow> external_tsa_url (app_config (app s)) = Some url \<Longrightarrow>
     hash_bytes E = hash_bytes (ts A) \<Longrightarrow> submit_head (A\<lparr>ts := E\<rparr>) now url sth = Some r \<Longrightarrow>
     commit_step A s (set_task i (Submitted res r) s)"
| give_up: "tasks s i = Some t \<Longrightarrow> gives_up A s t \<Longrightarrow> commit_step A s (set_task i Dropped s)"
| finish: "tasks s i = Some (Submitted res r) \<Longrightarrow>
     commit_step A s (set_task i (Recorded res) (s\<lparr>app := (app s)\<lparr>app_tsa := Some r\<rparr>\<rparr>))"
| answer: "tasks s i = Some (Recorded res) \<Longrightarrow> commit_response A res = Some resp \<Longrightarrow>
     commit_step A s (set_task i (Answered resp) s)"
| answer_unanchored: "tasks s i = Some (Sequenced res) \<Longrightarrow> nothing_to_submit A s \<Longrightarrow>
     commit_response A res = Some resp \<Longrightarrow> commit_step A s (set_task i (Answered resp) s)"

inductive_cases commit_stepE: "commit_step A s s'"

abbreviation commit_run ::
  "('h, 't, 'su, 'ki, 'kp, 'pk, 'ad) api_env \<Rightarrow> ('h, 't, 'su, 'ki, 'kp, 'pk, 'ad) system
     \<Rightarrow> ('h, 't, 'su, 'ki, 'kp, 'pk, 'ad) system \<Rightarrow> bool" where
  "commit_run A \<equiv> (commit_step A)\<^sup>*\<^sup>*"

lemma task_simps [simp]:
  "app (set_task i t s) = app s" "tasks (set_task i t s) = (tasks s)(i \<mapsto> t)"
  "poisoned (set_task i t s) = poisoned s"
  by (simp_all add: set_task_def)

section \<open>The invariant\<close>

text \<open>A receipt held for a client is the one the log serves for some entry.\<close>

definition held_receipt ::
  "('h, 't, 'su, 'ki, 'kp, 'pk, 'ad) api_env \<Rightarrow> ('h, 't, 'su, 'kp, 'pk, 'ad) app_state
     \<Rightarrow> store_error + json \<Rightarrow> bool" where
  "held_receipt A ap res \<longleftrightarrow> (\<forall>j. res = Inr j \<longrightarrow>
     (\<exists>n. unat n < length (entries (app_store ap)) \<and> receipt_view A ap n = Some (Some j)))"

definition held_head ::
  "('h, 't, 'su, 'ki, 'kp, 'pk, 'ad) api_env \<Rightarrow> ('h, 't, 'su, 'kp, 'pk, 'ad) app_state
     \<Rightarrow> ('h, 't, 'su, 'ki) signed_tree_head \<Rightarrow> bool" where
  "held_head A ap sth \<longleftrightarrow> 0 < unat (sth_tree_size sth) \<and>
     unat (sth_tree_size sth) \<le> length (entries (app_store ap)) \<and>
     head_at A ap (sth_tree_size sth) = Some (Some sth)"

text \<open>A submission's record covers the head of its size, and says what happened.\<close>

definition covers_head ::
  "('h, 't, 'su, 'ki, 'kp, 'pk, 'ad) api_env \<Rightarrow> ('h, 't, 'su, 'kp, 'pk, 'ad) app_state
     \<Rightarrow> ('h, 't) tsa_record \<Rightarrow> bool" where
  "covers_head A ap r \<longleftrightarrow> (\<exists>sth url a. held_head A ap sth \<and> sth_tree_size sth = tr_tree_size r \<and>
     sth_external_anchor (anchored_externally A sth url) = Some a \<and> tr_digest r = anchor_digest a \<and>
     external_tsa_url (app_config ap) = Some url \<and> tr_tsa_url r = url \<and>
     (tr_status r = ''anchored'' \<and> (\<exists>resp. tr_response r = Some resp \<and>
         verify_timestamp_response resp (hash_bytes (ts A) (tr_digest r)) = Some (Inr ())) \<or>
      tr_status r = ''unreachable'' \<and> tr_response r = None \<and> tr_retry_at r \<noteq> None))"

definition task_ok ::
  "('h, 't, 'su, 'ki, 'kp, 'pk, 'ad) api_env \<Rightarrow> ('h, 't, 'su, 'kp, 'pk, 'ad) app_state
     \<Rightarrow> ('h, 't, 'su, 'ki) task \<Rightarrow> bool" where
  "task_ok A ap t \<longleftrightarrow> (case t of
       Accepted rq \<Rightarrow> True
     | Sequenced res \<Rightarrow> held_receipt A ap res
     | Head_Read res sth \<Rightarrow> held_receipt A ap res \<and> held_head A ap sth
     | Submitted res r \<Rightarrow> held_receipt A ap res \<and> covers_head A ap r
     | Recorded res \<Rightarrow> held_receipt A ap res
     | Answered resp \<Rightarrow> True
     | Dropped \<Rightarrow> True)"

lemma task_ok_simps [simp]:
  "task_ok A ap (Accepted rq)"
  "task_ok A ap (Sequenced res) \<longleftrightarrow> held_receipt A ap res"
  "task_ok A ap (Head_Read res sth) \<longleftrightarrow> held_receipt A ap res \<and> held_head A ap sth"
  "task_ok A ap (Submitted res r) \<longleftrightarrow> held_receipt A ap res \<and> covers_head A ap r"
  "task_ok A ap (Recorded res) \<longleftrightarrow> held_receipt A ap res"
  "task_ok A ap (Answered resp)"
  "task_ok A ap Dropped"
  by (simp_all add: task_ok_def)

definition system_inv ::
  "('h, 't, 'su, 'ki, 'kp, 'pk, 'ad) api_env \<Rightarrow> ('h, 't, 'su, 'ki, 'kp, 'pk, 'ad) system \<Rightarrow> bool" where
  "system_inv A s \<longleftrightarrow> app_inv A (app s) \<and> (\<forall>i t. tasks s i = Some t \<longrightarrow> task_ok A (app s) t) \<and>
     (\<forall>r. app_tsa (app s) = Some r \<longrightarrow> covers_head A (app s) r)"

text \<open>All of it survives the growth of the log.\<close>

lemma held_receipt_grown:
  assumes "app_inv A ap" and "grown A ap ap'" and "held_receipt A ap res"
  shows "held_receipt A ap' res"
  unfolding held_receipt_def
proof (intro allI impI)
  fix j assume "res = Inr j"
  then obtain n where n: "unat n < length (entries (app_store ap))" "receipt_view A ap n = Some (Some j)"
    using assms(3) by (auto simp: held_receipt_def)
  moreover have "length (entries (app_store ap)) \<le> length (entries (app_store ap'))"
    using assms(2) by (auto simp: grown_def)
  ultimately show "\<exists>n. unat n < length (entries (app_store ap')) \<and> receipt_view A ap' n = Some (Some j)"
    using receipt_view_frozen [OF assms(1,2) n(1)] by (intro exI [of _ n]) simp
qed

lemma held_head_grown:
  assumes "app_inv A ap" and "grown A ap ap'" and "held_head A ap sth"
  shows "held_head A ap' sth"
  using assms head_at_frozen [OF assms(1,2), of "sth_tree_size sth"]
  by (auto simp: held_head_def grown_def)

lemma covers_head_grown:
  assumes "app_inv A ap" and "grown A ap ap'" and "covers_head A ap r"
  shows "covers_head A ap' r"
  using assms(3) held_head_grown [OF assms(1,2)] assms(2) unfolding covers_head_def grown_def by metis

lemma task_ok_grown:
  assumes "app_inv A ap" and "grown A ap ap'" and "task_ok A ap t"
  shows "task_ok A ap' t"
  using assms(3) held_receipt_grown [OF assms(1,2)] held_head_grown [OF assms(1,2)]
    covers_head_grown [OF assms(1,2)]
  by (auto simp: task_ok_def split: task.splits)

lemma grown_tsa: "app_inv A ap \<Longrightarrow> grown A ap (ap\<lparr>app_tsa := x\<rparr>)"
  by (simp add: grown_def app_inv_def)

lemma system_inv_grown:
  assumes "system_inv A s" and "grown A (app s) ap'" and "task_ok A ap' t"
    and "\<forall>r. app_tsa ap' = Some r \<longrightarrow> covers_head A ap' r"
  shows "system_inv A (set_task i t (s\<lparr>app := ap'\<rparr>))"
  using assms task_ok_grown [of A "app s" ap'] by (auto simp: system_inv_def grown_def)

lemma system_inv_poisoned [simp]: "system_inv A (s\<lparr>poisoned := b\<rparr>) \<longleftrightarrow> system_inv A s"
  by (simp add: system_inv_def)

lemma set_task_poisoned: "set_task i t (s\<lparr>app := ap, poisoned := b\<rparr>) = (set_task i t (s\<lparr>app := ap\<rparr>))\<lparr>poisoned := b\<rparr>"
  by (simp add: set_task_def)

lemma system_inv_task:
  assumes "system_inv A s" and "task_ok A (app s) t"
  shows "system_inv A (set_task i t s)"
  using assms by (auto simp: system_inv_def)

section \<open>Every step keeps it\<close>

text \<open>An append that sequences adds one record at the end and nothing else.\<close>

lemma commit_append_Some:
  assumes inv: "app_inv A ap" and step: "commit_append A w now ap rq = Some (ap', res)"
  shows "grown A ap ap'" and "app_tsa ap' = app_tsa ap" and "held_receipt A ap' res"
proof -
  from inv have sinv: "store_inv (dp A) (app_store ap)" by (simp add: app_inv_def)
  have "grown A ap ap' \<and> app_tsa ap' = app_tsa ap \<and> held_receipt A ap' res"
    using step
  proof (cases rule: commit_append_cases)
    case (failed sub com salt st' e)
    from store_append_Some_inv [OF sinv failed(2)] failed(3,4) show ?thesis
      by (simp add: grown_def app_inv_def held_receipt_def)
  next
    case (sequenced sub com salt st' r rc)
    from store_append_Some_inv [OF sinv sequenced(2)] have
      inv': "store_inv (dp A) st'" "entries st' = entries (app_store ap) @ [r]" and
      r: "seq r = store_size (app_store ap)" by simp_all
    then have "unat (seq r) < length (entries st')" using sinv by simp
    with sequenced(3-5) inv' show ?thesis
      by (auto simp: grown_def app_inv_def held_receipt_def receipt_view_def operator_view_def
          intro!: exI [of _ "seq r"])
  qed
  then show "grown A ap ap'" "app_tsa ap' = app_tsa ap" "held_receipt A ap' res" by blast+
qed

lemma read_head_held:
  assumes "app_inv A ap" and "read_head A ap = Some (Some sth)"
  shows "held_head A ap sth"
  using assms read_head_size [OF assms] read_head_at [OF assms(1)]
  by (simp add: held_head_def app_inv_def)

lemma submit_head_covers:
  assumes "held_head A ap sth" and "external_tsa_url (app_config ap) = Some url"
    and "hash_bytes E = hash_bytes (ts A)" and "submit_head (A\<lparr>ts := E\<rparr>) now url sth = Some r"
  shows "covers_head A ap r"
proof -
  from assms(4) obtain a r0 where a: "sth_external_anchor (anchored_externally A sth url) = Some a"
    and r0: "submit_anchor E a url now = Some r0" and r: "r = r0\<lparr>tr_tree_size := sth_tree_size sth\<rparr>"
    by (auto simp: submit_head_def bind_eq_Some_conv)
  with submit_anchor_outcome [OF r0] assms(1-3) show ?thesis
    unfolding covers_head_def by (intro exI [of _ sth] exI [of _ url] exI [of _ a]) auto
qed

lemma system_inv_taskD: "system_inv A s \<Longrightarrow> tasks s i = Some t \<Longrightarrow> task_ok A (app s) t"
  by (simp add: system_inv_def)

lemma system_inv_appD: "system_inv A s \<Longrightarrow> app_inv A (app s)"
  by (simp add: system_inv_def)

lemma commit_step_inv:
  assumes "commit_step A s s'" and "system_inv A s"
  shows "system_inv A s' \<and> grown A (app s) (app s')"
  using assms
proof (induction rule: commit_step.induct)
  case (accept s i headers body rq)
  then show ?case by (simp add: system_inv_task grown_refl system_inv_appD)
next
  case (refuse s i headers body resp)
  then show ?case by (simp add: system_inv_task grown_refl system_inv_appD)
next
  case (sequence s i rq w now app' res)
  note inv = system_inv_appD [OF sequence.prems]
  note g = commit_append_Some [OF inv sequence(3)]
  have "\<forall>r. app_tsa app' = Some r \<longrightarrow> covers_head A app' r"
    using sequence.prems g(2) covers_head_grown [OF inv g(1)] by (auto simp: system_inv_def)
  with system_inv_grown [OF sequence.prems g(1), of "Sequenced res" i] g show ?case by simp
next
  case (panic s i rq w now app')
  note inv = system_inv_appD [OF panic.prems]
  note g = commit_append_panic_grown [OF inv panic(3)]
  have "\<forall>r. app_tsa app' = Some r \<longrightarrow> covers_head A app' r"
    using panic.prems g(2) covers_head_grown [OF inv g(1)] by (auto simp: system_inv_def)
  with system_inv_grown [OF panic.prems g(1), of Dropped i] g(1) show ?case by (simp add: set_task_poisoned)
next
  case (read s i res url sth)
  note ok = system_inv_taskD [OF read.prems read(2)] system_inv_appD [OF read.prems]
  have "system_inv A (set_task i (Head_Read res sth) s)"
    using read.prems ok read_head_held [OF ok(2) read(4)] by (intro system_inv_task) simp_all
  with ok show ?case by (simp add: grown_refl)
next
  case (submit s i res sth url E now r)
  note ok = system_inv_taskD [OF submit.prems submit(1)] system_inv_appD [OF submit.prems]
  have "system_inv A (set_task i (Submitted res r) s)"
    using submit.prems ok submit_head_covers [OF _ submit(2-4)] by (intro system_inv_task) simp_all
  with ok show ?case by (simp add: grown_refl)
next
  case (give_up s i t)
  then show ?case by (simp add: system_inv_task grown_refl system_inv_appD)
next
  case (finish s i res r)
  note ok = system_inv_taskD [OF finish.prems finish(1)] system_inv_appD [OF finish.prems]
  note g = grown_tsa [OF ok(2), of "Some r"]
  from system_inv_grown [OF finish.prems g, of "Recorded res" i] g ok
    held_receipt_grown [OF ok(2) g] covers_head_grown [OF ok(2) g]
  show ?case by simp
next
  case (answer s i res resp)
  then show ?case by (simp add: system_inv_task grown_refl system_inv_appD)
next
  case (answer_unanchored s i res resp)
  then show ?case by (simp add: system_inv_task grown_refl system_inv_appD)
qed

lemma commit_run_inv:
  "commit_run A s s' \<Longrightarrow> system_inv A s \<Longrightarrow> system_inv A s' \<and> grown A (app s) (app s')"
proof (induction rule: rtranclp_induct)
  case base
  then show ?case by (simp add: system_inv_def grown_refl)
next
  case (step s1 s2)
  then show ?case using commit_step_inv [of A s1 s2] grown_trans by blast
qed

section \<open>Starting, and running alone\<close>

lemma open_store_inv:
  assumes "open_store D jf = Some (Inr st)"
  shows "store_inv D st"
proof (cases jf)
  case None
  then show ?thesis using assms by (simp add: open_store_def)
next
  case (Some f)
  show ?thesis
  proof (cases "contents f")
    case None
    then show ?thesis using assms Some by (auto simp: open_store_def split: option.splits if_splits)
  next
    case (Some body)
    then show ?thesis using open_store_sound [of D f st body] assms \<open>jf = Some f\<close> by simp
  qed
qed

lemma app_new_inv:
  assumes "app_new A c = Some (Inr ap)"
  shows "app_inv A ap \<and> app_config ap = c \<and> app_tsa ap = None \<and>
    open_store (dp A) (map_option (file_at A) (state_file c)) = Some (Inr (app_store ap)) \<and>
    operator_from_config (sg A) (ky A) (operator_cfg c) = Inr (app_operator ap)"
proof (cases "operator_from_config (sg A) (ky A) (operator_cfg c)")
  case (Inl e)
  then show ?thesis using assms by (simp add: app_new_def)
next
  case (Inr op)
  with assms obtain st where "open_store (dp A) (map_option (file_at A) (state_file c)) = Some (Inr st)"
    "ap = \<lparr>app_config = c, app_operator = op, app_store = st, app_tsa = None\<rparr>"
    by (auto simp: app_new_def bind_eq_Some_conv rbind_eq_Inr_iff)
  with Inr open_store_inv show ?thesis by (auto simp: app_inv_def)
qed

definition idle ::
  "('h, 't, 'su, 'kp, 'pk, 'ad) app_state \<Rightarrow> ('h, 't, 'su, 'ki, 'kp, 'pk, 'ad) system" where
  "idle ap = \<lparr>app = ap, tasks = (\<lambda>_. None), poisoned = False\<rparr>"

lemma system_inv_idle: "app_inv A ap \<Longrightarrow> app_tsa ap = None \<Longrightarrow> system_inv A (idle ap)"
  by (simp add: system_inv_def idle_def)

lemma set_task_twice [simp]:
  "set_task i t' ((set_task i t s)\<lparr>app := ap\<rparr>) = set_task i t' (s\<lparr>app := ap\<rparr>)"
  "set_task i t' (set_task i t s) = set_task i t' s"
  by (simp_all add: set_task_def)

text \<open>The sequential handler is one of the schedules.\<close>

lemmas run_step = rtranclp.rtrancl_into_rtrancl [of "commit_step A" for A]

lemma commit_append_config:
  "commit_append A w now ap rq = Some (ap', res) \<Longrightarrow> app_config ap' = app_config ap"
  by (elim commit_append_cases) simp_all

lemma commit_append_panic_config:
  "commit_append_panic A w now ap rq = Some ap' \<Longrightarrow> app_config ap' = app_config ap"
  by (elim commit_append_panicE) simp

lemma sequenced_answers:
  assumes ap1: "app s = ap1" and ok: "\<not> poisoned s" and t: "tasks s i = Some (Sequenced res)" and resp: "commit_response A res = Some resp"
    and rest: "(case external_tsa_url (app_config ap1) of
        None \<Rightarrow> Some ap1
      | Some url \<Rightarrow> do {
          head \<leftarrow> read_head A ap1;
          case head of
            None \<Rightarrow> Some ap1
          | Some sth \<Rightarrow> do {
              r \<leftarrow> submit_head A now' url sth;
              Some (ap1\<lparr>app_tsa := Some r\<rparr>) } }) = Some ap'"
  shows "commit_run A s (set_task i (Answered resp) (s\<lparr>app := ap'\<rparr>))"
proof (cases "nothing_to_submit A s")
  case True
  then have "ap' = app s" using rest ap1
    by (auto simp: nothing_to_submit_def bind_eq_Some_conv split: option.splits)
  with commit_step.answer_unanchored [OF t True resp] show ?thesis by (simp add: r_into_rtranclp)
next
  case False
  with rest [folded ap1] obtain url sth r where url: "external_tsa_url (app_config (app s)) = Some url"
    and h: "read_head A (app s) = Some (Some sth)"
    and r: "submit_head A now' url sth = Some r" and ap': "ap' = (app s)\<lparr>app_tsa := Some r\<rparr>"
    using ok by (auto simp: nothing_to_submit_def bind_eq_Some_conv split: option.splits)
  let ?s1 = "set_task i (Head_Read res sth) s"
  let ?s2 = "set_task i (Submitted res r) ?s1"
  let ?s3 = "set_task i (Recorded res) (?s2\<lparr>app := ap'\<rparr>)"
  have "commit_step A s ?s1" by (rule commit_step.read [OF ok t url h])
  moreover have "commit_step A ?s1 ?s2"
    using commit_step.submit [of ?s1 i res sth url "ts A" A now' r] url r by simp
  moreover have "commit_step A ?s2 ?s3"
    using commit_step.finish [of ?s2 i res r A] ap' by simp
  moreover have "commit_step A ?s3 (set_task i (Answered resp) (s\<lparr>app := ap'\<rparr>))"
    using commit_step.answer [of ?s3 i res A resp] resp by simp
  ultimately show ?thesis by (rule run_step [OF run_step [OF run_step [OF r_into_rtranclp]]])
qed

lemma commit_is_run:
  assumes "commit A w now now' (app s) headers body = Some (ap', resp)" and "tasks s i = None" and "\<not> poisoned s"
  shows "commit_run A s (set_task i (Answered resp) (s\<lparr>app := ap'\<rparr>))"
proof (cases "check_commit A (app s) headers body")
  case (Inl x)
  with assms have "commit_step A s (set_task i (Answered resp) s)" "ap' = app s"
    by (auto simp: commit_def bind_eq_Some_conv intro: commit_step.refuse)
  then show ?thesis by (simp add: r_into_rtranclp)
next
  case (Inr rq)
  from assms(1) Inr obtain app1 res where
    ap: "commit_append A w now (app s) rq = Some (app1, res)"
    and rest: "do { app2 \<leftarrow> (case external_tsa_url (app_config (app s)) of
             None \<Rightarrow> Some app1
           | Some url \<Rightarrow> do {
               head \<leftarrow> read_head A app1;
               case head of
                 None \<Rightarrow> Some app1
               | Some sth \<Rightarrow> do {
                   r \<leftarrow> submit_head A now' url sth;
                   Some (app1\<lparr>app_tsa := Some r\<rparr>) } });
          rs \<leftarrow> commit_response A res;
          Some (app2, rs) } = Some (ap', resp)"
    by (auto simp: commit_def bind_eq_Some_conv)
  let ?s1 = "set_task i (Accepted rq) s"
  let ?s2 = "set_task i (Sequenced res) (s\<lparr>app := app1\<rparr>)"
  have "commit_step A s ?s1" using assms(2) Inr by (rule commit_step.accept)
  moreover have "commit_step A ?s1 ?s2"
    using commit_step.sequence [of ?s1 i rq A w now app1 res] ap assms(3) by simp
  ultimately have "commit_run A s ?s2" by (rule run_step [OF r_into_rtranclp])
  moreover have "commit_run A ?s2 (set_task i (Answered resp) (?s2\<lparr>app := ap'\<rparr>))"
    using rest commit_append_config [OF ap] assms(3)
    by (intro sequenced_answers [of ?s2 app1 i res A resp now' ap']) (simp_all add: bind_eq_Some_conv)
  ultimately show ?thesis by simp
qed

end
