(* ===== verification/Server.thy ===== *)
theory Server
  imports Interleaving
begin

text \<open>
  The service as a whole: the route table of \<open>src/api.rs\<close> (lines 462 to 471), start-up
  (\<open>run\<close>, \<open>TestServer::spawn\<close>, its \<open>stop\<close>, and \<open>main\<close>), and what the read endpoints disclose. The
  matching of paths, the extraction of a request's parts and the sockets belong to axum
  and tokio: a request arrives with its endpoint already chosen, and binding a listener
  is a function that returns an address or an error.
\<close>

section \<open>Routes\<close>

datatype endpoint = Discovery | Healthz | Commit | Tree_Head | Tree_Consistency | Receipt_Of_Seq

datatype method_router = Get endpoint | Post endpoint

definition router :: "(string \<times> method_router) list" where
  "router =
     [(''/'', Get Discovery),
      (''/healthz'', Get Healthz),
      (''/commitments'', Post Commit),
      (''/tree/head'', Get Tree_Head),
      (''/tree/consistency'', Get Tree_Consistency),
      (''/receipt/{seq}'', Get Receipt_Of_Seq)]"

text \<open>The parts of a request that the handlers extract.\<close>

record request =
  rq_headers :: "string \<Rightarrow> string option"
  rq_query :: "string \<Rightarrow> string option"
  rq_seq :: string
  rq_body :: string

definition serve ::
  "('h, 't, 'su, 'ki, 'kp, 'pk, 'ad) api_env \<Rightarrow> write_outcome \<Rightarrow> 't \<Rightarrow> 't
     \<Rightarrow> ('h, 't, 'su, 'kp, 'pk, 'ad) app_state \<Rightarrow> endpoint \<Rightarrow> request
     \<Rightarrow> (('h, 't, 'su, 'kp, 'pk, 'ad) app_state \<times> http_response) checked" where
  "serve A w now now' ap ep rq =
     (case ep of
        Discovery \<Rightarrow> map_option (Pair ap) (discovery A ap)
      | Healthz \<Rightarrow> Some (ap, healthz)
      | Commit \<Rightarrow> commit A w now now' ap (rq_headers rq) (rq_body rq)
      | Tree_Head \<Rightarrow> map_option (Pair ap) (tree_head_handler A ap)
      | Tree_Consistency \<Rightarrow> map_option (Pair ap) (tree_consistency A ap (rq_query rq))
      | Receipt_Of_Seq \<Rightarrow> map_option (Pair ap) (receipt_handler A ap (rq_seq rq)))"

text \<open>
  Of the handlers, \<open>discovery\<close> and \<open>healthz\<close> never ask for the store's lock, and the
  others only once the request has passed their checks. In a running system whose lock
  is poisoned such a request panics.
\<close>

definition consistency_asks_lock :: "(string \<Rightarrow> string option) \<Rightarrow> bool" where
  "consistency_asks_lock params =
     (case map_option trim (params ''from'') of
        None \<Rightarrow> False
      | Some s \<Rightarrow> s \<noteq> [] \<and> parse_u64 s \<noteq> None)"

definition receipt_asks_lock :: "string \<Rightarrow> bool" where
  "receipt_asks_lock sq = (parse_u64 (trim sq) \<noteq> None)"

definition asks_store_lock ::
  "('h, 't, 'su, 'ki, 'kp, 'pk, 'ad) api_env \<Rightarrow> ('h, 't, 'su, 'kp, 'pk, 'ad) app_state
     \<Rightarrow> endpoint \<Rightarrow> request \<Rightarrow> bool" where
  "asks_store_lock A ap ep rq =
     (case ep of
        Discovery \<Rightarrow> False
      | Healthz \<Rightarrow> False
      | Commit \<Rightarrow> (case check_commit A ap (rq_headers rq) (rq_body rq) of Inl _ \<Rightarrow> False | Inr _ \<Rightarrow> True)
      | Tree_Head \<Rightarrow> True
      | Tree_Consistency \<Rightarrow> consistency_asks_lock (rq_query rq)
      | Receipt_Of_Seq \<Rightarrow> receipt_asks_lock (rq_seq rq))"

definition serve_in ::
  "('h, 't, 'su, 'ki, 'kp, 'pk, 'ad) api_env \<Rightarrow> write_outcome \<Rightarrow> 't \<Rightarrow> 't
     \<Rightarrow> ('h, 't, 'su, 'ki, 'kp, 'pk, 'ad) system \<Rightarrow> endpoint \<Rightarrow> request
     \<Rightarrow> (('h, 't, 'su, 'kp, 'pk, 'ad) app_state \<times> http_response) checked" where
  "serve_in A w now now' s ep rq =
     (if poisoned s \<and> asks_store_lock A (app s) ep rq then None
      else serve A w now now' (app s) ep rq)"

section \<open>Start-up\<close>

text \<open>\<open>run\<close> up to the serving loop: the state first, then the listener. An error is
  printed by its \<open>Display\<close>, which is what \<open>Box<dyn Error>\<close> keeps of it here.\<close>

definition run ::
  "('h, 't, 'su, 'ki, 'kp, 'pk, 'ad) api_env \<Rightarrow> ('ad \<Rightarrow> string + 'ad) \<Rightarrow> ('ad, 'su) config
     \<Rightarrow> (string + ('h, 't, 'su, 'kp, 'pk, 'ad) app_state) checked" where
  "run A bind_tcp c = do {
     res \<leftarrow> app_new A c;
     Some (rbind (map_err store_error_to_string res) (\<lambda>ap.
       rbind (bind_tcp (bind_addr c)) (\<lambda>_. Inr ap))) }"

definition main ::
  "('h, 't, 'su, 'ki, 'kp, 'pk, 'ad) api_env \<Rightarrow> ('ad \<Rightarrow> string + 'ad) \<Rightarrow> environment
     \<Rightarrow> (string + ('h, 't, 'su, 'kp, 'pk, 'ad) app_state) checked" where
  "main A bind_tcp env = do {
     c \<leftarrow> config_from_env A env;
     (case c of Inl e \<Rightarrow> Some (Inl e) | Inr c \<Rightarrow> run A bind_tcp c) }"

text \<open>\<open>TestServer::spawn\<close> binds an ephemeral port before it opens the state, and starts
  the serving task; the sender of its shutdown channel and the task's handle are tokio's.
  \<open>stop\<close> takes both out of the server it consumes: it signals the task first, ignoring a
  receiver that is gone, and then waits for it.\<close>

record ('ad, 'tx, 'jh) test_server =
  server_addr :: 'ad
  base_url :: string
  shutdown :: "'tx option"
  join_handle :: "'jh option"

definition spawn ::
  "('h, 't, 'su, 'ki, 'kp, 'pk, 'ad) api_env \<Rightarrow> string + 'l \<Rightarrow> ('l \<Rightarrow> string + 'ad) \<Rightarrow> ('ad \<Rightarrow> string)
     \<Rightarrow> 'tx \<Rightarrow> 'jh \<Rightarrow> ('ad, 'su) config
     \<Rightarrow> (store_error + ('ad, 'tx, 'jh) test_server \<times> ('h, 't, 'su, 'kp, 'pk, 'ad) app_state) checked" where
  "spawn A listener local_addr show_addr tx jh c =
     (case rbind (map_err (\<lambda>e. Journal (''cannot bind test listener: '' @ e)) listener) (\<lambda>l.
             map_err (\<lambda>e. Journal (''no local addr: '' @ e)) (local_addr l)) of
        Inl e \<Rightarrow> Some (Inl e)
      | Inr addr \<Rightarrow> do {
          res \<leftarrow> app_new A c;
          Some (rbind res (\<lambda>ap.
            Inr (\<lparr>server_addr = addr, base_url = ''http://'' @ show_addr addr,
                 shutdown = Some tx, join_handle = Some jh\<rparr>, ap))) })"

datatype ('tx, 'jh) server_effect = Send_Shutdown 'tx | Await_Task 'jh

definition stop :: "('ad, 'tx, 'jh) test_server \<Rightarrow> ('tx, 'jh) server_effect list" where
  "stop srv =
     (case shutdown srv of Some tx \<Rightarrow> [Send_Shutdown tx] | None \<Rightarrow> []) @
     (case join_handle srv of Some jh \<Rightarrow> [Await_Task jh] | None \<Rightarrow> [])"

text \<open>A server that was spawned serves the state that \<open>AppState::new\<close> opened, and stopping it
  signals its task before it waits for it.\<close>

lemma spawn_then_stop:
  assumes "spawn A listener local_addr show_addr tx jh c = Some (Inr (srv, ap))"
  shows "app_new A c = Some (Inr ap)" and "stop srv = [Send_Shutdown tx, Await_Task jh]"
  using assms by (auto simp: spawn_def stop_def bind_eq_Some_conv rbind_eq_Inr_iff split: sum.splits)

lemma run_Inr:
  assumes "run A bind_tcp c = Some (Inr ap)"
  shows "app_new A c = Some (Inr ap)"
  using assms by (auto simp: run_def bind_eq_Some_conv rbind_eq_Inr_iff)

lemma main_Inr:
  assumes "main A bind_tcp env = Some (Inr ap)"
  shows "\<exists>c. config_from_env A env = Some (Inr c) \<and> app_new A c = Some (Inr ap)"
proof -
  from assms obtain r where r: "config_from_env A env = Some r"
    and rest: "(case r of Inl e \<Rightarrow> Some (Inl e) | Inr c \<Rightarrow> run A bind_tcp c) = Some (Inr ap)"
    by (simp add: main_def bind_eq_Some_conv) blast
  from rest obtain c where "r = Inr c" "run A bind_tcp c = Some (Inr ap)" by (cases r) simp_all
  with r run_Inr [of A bind_tcp c ap] show ?thesis by simp
qed

text \<open>What a configuration that loads satisfies, field by field.\<close>

lemma config_from_env_Inr:
  assumes "config_from_env A env = Some (Inr c)"
  shows "operator_from_env (sg A) (ky A) env = Inr (operator_cfg c)"
    and "append_token c = (case env ''UNIDPP_LOG_APPEND_TOKEN'' of
           Some t \<Rightarrow> if t \<noteq> [] then Some t else None | None \<Rightarrow> None)"
    and "state_file c = (case env ''UNIDPP_LOG_STATE_FILE'' of
           Some p \<Rightarrow> if p \<noteq> [] then Some p else None | None \<Rightarrow> None)"
    and "external_tsa_url c = (case env ''UNIDPP_LOG_EXTERNAL_TSA_URL'' of
           Some u \<Rightarrow> if trim u \<noteq> [] then Some (trim u) else None | None \<Rightarrow> None)"
    and "Some (bind_addr c) = (case Option.bind (env ''UNIDPP_LOG_BIND'') (parse_addr A) of
           Some a \<Rightarrow> Some a | None \<Rightarrow> parse_addr A ''127.0.0.1:8092'')"
proof -
  from assms obtain a oc where a: "parse_addr A ''127.0.0.1:8092'' = Some a"
    and oc: "operator_from_env (sg A) (ky A) env = Inr oc"
    by (auto simp: config_from_env_def default_config_def bind_eq_Some_conv rbind_eq_Inr_iff)
  define c0 where "c0 = \<lparr>bind_addr = a,
           operator_cfg = \<lparr>oc_log_id = default_log_id, oc_suite = ed25519 (ky A), oc_seed = default_dev_seed\<rparr>,
           append_token = None, state_file = None, external_tsa_url = None\<rparr>"
  define c1 where "c1 = (case env ''UNIDPP_LOG_BIND'' of
          Some b \<Rightarrow> (case parse_addr A b of Some addr \<Rightarrow> c0\<lparr>bind_addr := addr\<rparr> | None \<Rightarrow> c0)
        | None \<Rightarrow> c0)"
  define c3 where "c3 = (case env ''UNIDPP_LOG_APPEND_TOKEN'' of
               Some t \<Rightarrow> if t \<noteq> [] then c1\<lparr>operator_cfg := oc, append_token := Some t\<rparr>
                         else c1\<lparr>operator_cfg := oc\<rparr>
             | None \<Rightarrow> c1\<lparr>operator_cfg := oc\<rparr>)"
  define c4 where "c4 = (case env ''UNIDPP_LOG_STATE_FILE'' of
               Some p \<Rightarrow> if p \<noteq> [] then c3\<lparr>state_file := Some p\<rparr> else c3 | None \<Rightarrow> c3)"
  have c: "c = (case env ''UNIDPP_LOG_EXTERNAL_TSA_URL'' of
               Some u \<Rightarrow> if trim u \<noteq> [] then c4\<lparr>external_tsa_url := Some (trim u)\<rparr> else c4
             | None \<Rightarrow> c4)"
    using assms unfolding config_from_env_def default_config_def a oc c4_def c3_def c1_def c0_def Let_def
    by simp
  note steps = c c4_def c3_def c1_def c0_def
  have "operator_cfg c = operator_cfg c3" "operator_cfg c3 = oc"
    by (simp_all add: steps(1-3) split: option.split)
  then show "operator_from_env (sg A) (ky A) env = Inr (operator_cfg c)" using oc by simp
  have "append_token c = append_token c4" "append_token c4 = append_token c3" "append_token c1 = append_token c0"
    by (simp_all add: steps(1,2,4) split: option.split)
  then show "append_token c = (case env ''UNIDPP_LOG_APPEND_TOKEN'' of
           Some t \<Rightarrow> if t \<noteq> [] then Some t else None | None \<Rightarrow> None)"
    by (simp add: c3_def c0_def split: option.split)
  have "state_file c = state_file c4" "state_file c3 = state_file c1" "state_file c1 = state_file c0"
    by (simp_all add: steps(1,3,4) split: option.split)
  then show "state_file c = (case env ''UNIDPP_LOG_STATE_FILE'' of
           Some p \<Rightarrow> if p \<noteq> [] then Some p else None | None \<Rightarrow> None)"
    by (simp add: c4_def c0_def split: option.split)
  have "external_tsa_url c4 = external_tsa_url c3" "external_tsa_url c3 = external_tsa_url c1"
    "external_tsa_url c1 = external_tsa_url c0"
    by (simp_all add: steps(2-4) split: option.split)
  then show "external_tsa_url c = (case env ''UNIDPP_LOG_EXTERNAL_TSA_URL'' of
           Some u \<Rightarrow> if trim u \<noteq> [] then Some (trim u) else None | None \<Rightarrow> None)"
    by (simp add: c c0_def split: option.split)
  have "bind_addr c = bind_addr c4" "bind_addr c4 = bind_addr c3" "bind_addr c3 = bind_addr c1"
    by (simp_all add: steps(1-3) split: option.split)
  then show "Some (bind_addr c) = (case Option.bind (env ''UNIDPP_LOG_BIND'') (parse_addr A) of
           Some a \<Rightarrow> Some a | None \<Rightarrow> parse_addr A ''127.0.0.1:8092'')"
    by (simp add: c1_def c0_def a split: option.split)
qed

section \<open>Pinned heads\<close>

text \<open>The head's root is the Merkle tree hash of the log, so what a client pinned from
  an earlier head is what the consistency endpoint proves about later.\<close>

lemma read_head_root:
  assumes "app_inv A ap" and "read_head A ap = Some (Some sth)"
  shows "sth_root sth = mth (leaf_hash (dp A)) (node_hash (dp A)) (map commitment (entries (app_store ap)))"
    and "unat (sth_tree_size sth) = length (entries (app_store ap))"
proof -
  from assms(1) have inv: "store_inv (dp A) (app_store ap)" by (simp add: app_inv_def)
  note h = read_head_size [OF assms]
  show n: "unat (sth_tree_size sth) = length (entries (app_store ap))" using h(1) inv by simp
  have "store_root (dp A) (app_store ap) = Some (Some (sth_root sth))"
    using current_head_fields [OF assms(2) [unfolded read_head_def]] by simp
  then show "sth_root sth = mth (leaf_hash (dp A)) (node_hash (dp A)) (map commitment (entries (app_store ap)))"
    using store_root_eq [OF inv] reads.root_at_pos [OF inv, of "store_size (app_store ap)"] h inv by simp
qed

lemma pinned_head:
  assumes "app_inv A a" and "grown A a b"
    and "read_head A a = Some (Some old)" and "read_head A b = Some (Some new)"
    and "params ''from'' = Some (show_nat (unat (sth_tree_size old)))"
  shows "sth_tree_size old \<le> sth_tree_size new"
    and "\<exists>pth. tree_consistency A b params = json_response A 200
        (consistency_body A b (sth_tree_size old) (Some (sth_root old)) (Some (sth_root new)) pth) \<and>
      accepts_consistency (node_hash (dp A)) (unat (sth_tree_size old)) (sth_root old)
        (unat (sth_tree_size new)) (sth_root new) pth"
proof -
  from assms(2) obtain rs where b: "app_inv A b" "entries (app_store b) = entries (app_store a) @ rs"
    by (auto simp: grown_def)
  note o = read_head_root [OF assms(1,3)] and n = read_head_root [OF b(1) assms(4)]
  show "sth_tree_size old \<le> sth_tree_size new" using o(2) n(2) b(2) by (simp add: word_le_nat_alt)
  have "unat (sth_tree_size old) \<le> length (entries (app_store b))" "0 < unat (sth_tree_size old)"
    using o(2) b(2) read_head_size(2) [OF assms(1,3)] by simp_all
  from tree_consistency_served [where n = "sth_tree_size old" and params = params, OF b(1) this assms(5)] o n b(2)
  show "\<exists>pth. tree_consistency A b params = json_response A 200
        (consistency_body A b (sth_tree_size old) (Some (sth_root old)) (Some (sth_root new)) pth) \<and>
      accepts_consistency (node_hash (dp A)) (unat (sth_tree_size old)) (sth_root old)
        (unat (sth_tree_size new)) (sth_root new) pth" by auto
qed

section \<open>What the read endpoints disclose\<close>

text \<open>What every reader may learn: the operator, the submission record, and of each
  entry its commitment and its time.\<close>

definition public_part ::
  "('h, 't, 'su, 'kp, 'pk, 'ad) app_state
     \<Rightarrow> ('su, 'kp, 'pk) operator \<times> ('h, 't) tsa_record option \<times> ('h \<times> 't) list" where
  "public_part ap = (app_operator ap, app_tsa ap,
     map (\<lambda>r. (commitment r, logged_at r)) (entries (app_store ap)))"

lemma same_store_views:
  assumes "store_inv D a" and "store_inv D b"
    and "map (\<lambda>r. (commitment r, logged_at r)) (entries a) = map (\<lambda>r. (commitment r, logged_at r)) (entries b)"
  shows "tree b = tree a" and "store_size b = store_size a"
    and "map_option logged_at (store_record b n) = map_option logged_at (store_record a n)"
proof -
  have "map fst (map (\<lambda>r. (commitment r, logged_at r)) (entries a)) = map commitment (entries a)"
    "map fst (map (\<lambda>r. (commitment r, logged_at r)) (entries b)) = map commitment (entries b)" by simp_all
  then have "map commitment (entries a) = map commitment (entries b)" using assms(3) by metis
  with tree_inv_unique [OF store_inv_tree [OF assms(1)], of "tree b"] store_inv_tree [OF assms(2)]
  show "tree b = tree a" by metis
  have l: "length (entries a) = length (entries b)" using assms(3) by (rule map_eq_imp_length_eq)
  then show "store_size b = store_size a" by (simp add: store_size_def)
  have "logged_at (entries a ! i) = logged_at (entries b ! i)" if "i < length (entries a)" for i
    using arg_cong [OF assms(3), of "\<lambda>xs. snd (xs ! i)"] that l by simp
  then show "map_option logged_at (store_record b n) = map_option logged_at (store_record a n)"
    using l by (simp add: store_record_def get_opt_def)
qed

lemma current_head_cong:
  assumes "store_root D b = store_root D a" and "store_size b = store_size a"
    and "\<And>n. map_option logged_at (store_record b n) = map_option logged_at (store_record a n)"
  shows "current_head D S b lid op = current_head D S a lid op"
proof (cases "u64_sub (store_size a) 1")
  case (Some n)
  show ?thesis
    using assms(1,2) assms(3) [of n] Some
    by (cases "store_record a n"; cases "store_record b n") (simp_all add: current_head_def cong: option.case_cong)
qed (use assms(2) in \<open>simp add: current_head_def\<close>)

lemma same_reads:
  assumes "app_inv A a" and "app_inv A b" and "public_part a = public_part b"
  shows "read_head A b = read_head A a" and "tree_head_handler A b = tree_head_handler A a"
    and "tree_consistency A b params = tree_consistency A a params" and "discovery A b = discovery A a"
proof -
  have op: "app_operator b = app_operator a" and tsa: "app_tsa b = app_tsa a"
    using assms(3) by (simp_all add: public_part_def)
  have v: "operator_view A b = operator_view A a" using op by (simp add: operator_view_def)
  note st = same_store_views [of "dp A" "app_store a" "app_store b"]
  have st: "tree (app_store b) = tree (app_store a)" "store_size (app_store b) = store_size (app_store a)"
    "map_option logged_at (store_record (app_store b) n) = map_option logged_at (store_record (app_store a) n)" for n
    using assms st by (auto simp: app_inv_def public_part_def)
  have rt: "store_root (dp A) (app_store b) = store_root (dp A) (app_store a)"
    using st by (simp add: store_root_def)
  show h: "read_head A b = read_head A a"
    using op current_head_cong [OF rt st(2,3)] by (simp add: read_head_def)
  have "external_anchor_view A b = external_anchor_view A a"
    using tsa by (simp add: external_anchor_view_def fun_eq_iff)
  then have "tree_head_body A b = tree_head_body A a"
    using op v by (simp add: tree_head_body_def fun_eq_iff split: option.split)
  with h show "tree_head_handler A b = tree_head_handler A a" by (simp add: tree_head_handler_def)
  show "tree_consistency A b params = tree_consistency A a params"
  proof -
    have "store_root_at_size (dp A) (app_store b) = store_root_at_size (dp A) (app_store a)"
      "store_consistency_path (dp A) (app_store b) = store_consistency_path (dp A) (app_store a)"
      using st by (simp_all add: store_root_at_size_def store_consistency_path_def fun_eq_iff)
    with rt st(2) op v show ?thesis unfolding tree_consistency_def by (simp only:)
  qed
  show "discovery A b = discovery A a" using op v by (simp add: discovery_def)
qed

text \<open>A receipt adds the one entry it is for.\<close>

lemma same_receipt:
  assumes "app_inv A a" and "app_inv A b" and "public_part a = public_part b"
    and "\<And>n. parse_u64 (trim sq) = Some n \<Longrightarrow>
      store_record (app_store a) n = store_record (app_store b) n"
  shows "receipt_handler A b sq = receipt_handler A a sq"
proof -
  have op: "app_operator b = app_operator a" using assms(3) by (simp add: public_part_def)
  have v: "operator_view A b = operator_view A a" using op by (simp add: operator_view_def)
  have st: "tree (app_store b) = tree (app_store a)" "store_size (app_store b) = store_size (app_store a)"
    using assms(1-3) same_store_views [of "dp A" "app_store a" "app_store b"]
    by (auto simp: app_inv_def public_part_def)
  have "receipt_of (dp A) (sg A) (app_store b) n l k = receipt_of (dp A) (sg A) (app_store a) n l k"
    if "parse_u64 (trim sq) = Some n" for n l k
  proof -
    have "store_root_at_size (dp A) (app_store b) = store_root_at_size (dp A) (app_store a)"
      "store_inclusion_path (dp A) (app_store b) = store_inclusion_path (dp A) (app_store a)"
      using st by (simp_all add: store_root_at_size_def store_inclusion_path_def fun_eq_iff)
    then show ?thesis unfolding receipt_of_def assms(4) [OF that] by (simp only:)
  qed
  then show ?thesis
    using op v by (cases "parse_u64 (trim sq)") (simp_all add: receipt_handler_def)
qed

lemma reads_disclose:
  assumes "app_inv A a" and "app_inv A b" and "public_part a = public_part b" and "ep \<noteq> Commit"
    and "\<And>n. ep = Receipt_Of_Seq \<Longrightarrow> parse_u64 (trim (rq_seq rq)) = Some n \<Longrightarrow>
      store_record (app_store a) n = store_record (app_store b) n"
  shows "map_option snd (serve A w now now' b ep rq) = map_option snd (serve A w now now' a ep rq)"
  using assms(4,5) same_reads [OF assms(1-3)] same_receipt [OF assms(1-3), of "rq_seq rq"]
  by (cases ep) (simp_all add: serve_def option.map_comp comp_def)

text \<open>Receipt by receipt, the whole log can be read.\<close>

lemma receipt_of_record:
  "receipt_of D S st sq lid op = Some (Some rc) \<Longrightarrow> store_record st sq = Some (receipt_record rc)"
  by (auto simp: receipt_of_def bind_eq_Some_conv split: option.splits)

lemma receipt_json_entry:
  "get (receipt_to_json D S rc info) ''subject'' = Some (JString (subject (receipt_record rc)))"
  "get (receipt_to_json D S rc info) ''commitment'' = Some (JString (hash_hex D (commitment (receipt_record rc))))"
  "get (receipt_to_json D S rc info) ''salt_ref'' = Some (json_opt_u64 (salt_ref (receipt_record rc)))"
  by (simp_all add: receipt_to_json_def Let_def)

lemma receipt_shows_entry:
  fixes n :: u64
  assumes "app_inv A ap" and "can_sign A ap" and "unat n < length (entries (app_store ap))"
  shows "\<exists>j. receipt_handler A ap (show_nat (unat n)) = json_response A 200 j \<and>
    get j ''subject'' = Some (JString (subject (entries (app_store ap) ! unat n))) \<and>
    get j ''commitment'' = Some (JString (hash_hex (dp A) (commitment (entries (app_store ap) ! unat n)))) \<and>
    get j ''salt_ref'' = Some (json_opt_u64 (salt_ref (entries (app_store ap) ! unat n)))"
proof -
  have inv: "store_inv (dp A) (app_store ap)" using assms(1) by (simp add: app_inv_def)
  obtain rc where rc: "receipt_of (dp A) (sg A) (app_store ap) n (log_id_of ap) (key_of ap) = Some (Some rc)"
    using receipt_of_signed [OF inv assms(3) assms(2) [unfolded can_sign_def], of "log_id_of ap"] by blast
  have "receipt_record rc = entries (app_store ap) ! unat n"
    using receipt_of_record [OF rc] assms(3) by (simp add: reads.lookup_ents [OF inv])
  moreover have "receipt_handler A ap (show_nat (unat n))
      = json_response A 200 (receipt_to_json (dp A) (sg A) rc (operator_view A ap))"
    by (rule receipt_handler_view) (simp only: receipt_view_def rc option.map)
  ultimately show ?thesis
    by (intro exI [of _ "receipt_to_json (dp A) (sg A) rc (operator_view A ap)"])
      (simp only: receipt_json_entry simp_thms)
qed

end
