(* ===== verification/Torn_Line.thy ===== *)
theory Torn_Line
  imports Store
begin

text \<open>
  What a process leaves in its journal when it stops while a line is being written: any
  number of the line's bytes. \<open>writeln!\<close> writes the line and its line feed one after the
  other (\<open>src/store.rs\<close>, line 164), so the whole line may be there without the line feed.
  The theory shows what \<open>open\<close> makes of such a journal.
\<close>

section \<open>A line that was being written\<close>

text \<open>The record and the number of bytes that reached the file, or no write at all.\<close>

type_synonym ('h, 't) cut = "(('h, 't) commit_record \<times> nat) option"

definition cut_text :: "('h, 't) deps \<Rightarrow> ('h, 't) cut \<Rightarrow> string" where
  "cut_text D ct = (case ct of None \<Rightarrow> [] | Some (r, n) \<Rightarrow> take n (journal_line D r @ [newline]))"

text \<open>The records that a reader finds after such a stop: the last one, if its line is whole.\<close>

definition survivors ::
  "('h, 't) deps \<Rightarrow> ('h, 't) cut \<Rightarrow> ('h, 't) commit_record list \<Rightarrow> ('h, 't) commit_record list" where
  "survivors D ct rs = (case ct of None \<Rightarrow> rs
     | Some (r, n) \<Rightarrow> if length (journal_line D r) \<le> n then rs @ [r] else rs)"

lemma cut_simps [simp]:
  "cut_text D None = []" "cut_text D (Some (r, n)) = take n (journal_line D r @ [newline])"
  "survivors D None rs = rs"
  "survivors D (Some (r, n)) rs = (if length (journal_line D r) \<le> n then rs @ [r] else rs)"
  by (simp_all add: cut_text_def survivors_def)

text \<open>
  What is relied on for a line that is cut: it is good when whole, it starts with a brace,
  and a proper part of it is not a JSON text; reading it gives the part, or an error when
  the cut goes through a multi-byte character.
\<close>

definition cuts_ok ::
  "('h, 't) deps \<Rightarrow> (string \<Rightarrow> string + string) \<Rightarrow> ('h, 't) commit_record \<Rightarrow> bool" where
  "cuts_ok D rd r \<longleftrightarrow> line_ok D rd r \<and>
     (\<forall>n. 0 < n \<longrightarrow> n < length (journal_line D r) \<longrightarrow> trim (take n (journal_line D r)) \<noteq> [] \<and>
        ((\<exists>e. rd (take n (journal_line D r)) = Inl e) \<or>
         rd (take n (journal_line D r)) = Inr (take n (journal_line D r)) \<and>
           (\<exists>e. parse_line D (take n (journal_line D r)) = Inl e)))"

definition reads_back ::
  "('h, 't) deps \<Rightarrow> journal_file \<Rightarrow> ('h, 't) cut \<Rightarrow> ('h, 't) commit_record list \<Rightarrow> bool" where
  "reads_back D f ct rs \<longleftrightarrow> (\<forall>r\<in>set rs. line_ok D (read_line f) r) \<and>
     (\<forall>r n. ct = Some (r, n) \<longrightarrow> cuts_ok D (read_line f) r)"

lemma cuts_ok_line: "cuts_ok D rd r \<Longrightarrow> line_ok D rd r"
  by (simp add: cuts_ok_def)

lemma cuts_ok_part:
  assumes "cuts_ok D rd r" and "0 < n" and "n < length (journal_line D r)"
    and "rd (take n (journal_line D r)) = Inr t"
  shows "t = take n (journal_line D r)" and "trim t \<noteq> []" and "\<exists>e. parse_line D t = Inl e"
proof -
  have "trim (take n (journal_line D r)) \<noteq> [] \<and> t = take n (journal_line D r) \<and>
    (\<exists>e. parse_line D (take n (journal_line D r)) = Inl e)"
    using assms(1) [unfolded cuts_ok_def, THEN conjunct2, rule_format, OF assms(2,3)] assms(4) by auto
  then show "t = take n (journal_line D r)" "trim t \<noteq> []" "\<exists>e. parse_line D t = Inl e" by auto
qed

lemma cut_text_whole:
  assumes "line_ok D rd r" and "length (journal_line D r) \<le> n"
  shows "raw_lines (cut_text D (Some (r, n))) = [journal_line D r]"
proof (cases "length (journal_line D r) = n")
  case True
  then show ?thesis
    using raw_lines_last [OF jl.enc_no_newline [OF assms(1)]] jl.enc_nonempty [OF assms(1)] by simp
next
  case False
  then have "take n (journal_line D r @ [newline]) = journal_line D r @ [newline]" using assms(2) by simp
  then show ?thesis using jl.raw_lines_enc [of "[r]" D rd "[]"] assms(1) by (simp add: raw_lines_def)
qed

lemma cut_text_part:
  assumes "line_ok D rd r" and "n < length (journal_line D r)"
  shows "raw_lines (cut_text D (Some (r, n))) = (if n = 0 then [] else [take n (journal_line D r)])"
proof -
  have "newline \<notin> set (take n (journal_line D r))"
    using jl.enc_no_newline [OF assms(1)] by (auto dest: in_set_takeD)
  then show ?thesis using raw_lines_last [of "take n (journal_line D r)"] assms(2) by auto
qed

section \<open>Opening after it\<close>

text \<open>The lines of the entries, as they are read.\<close>

lemma map_read_lines:
  assumes "\<forall>r\<in>set rs. line_ok D rd r"
  shows "map rd (map (journal_line D) rs) = map Inr (map (journal_line D) rs)"
    and "map (parse_line D) (map (journal_line D) rs) = map Inr rs"
  using assms by (simp_all add: line_ok_read [of D rd] line_ok_parse [of D rd])

lemma accounted_lines:
  assumes "\<forall>r\<in>set rs. line_ok D rd r" and "accounted D (map (journal_line D) rs @ ls) rs'"
  shows "ls = [] \<Longrightarrow> rs' = rs"
    and "ls = [l] \<Longrightarrow> parse_line D l = Inr r \<Longrightarrow> rs' = rs @ [r]"
    and "ls = [l] \<Longrightarrow> parse_line D l = Inl e \<Longrightarrow> rs' = rs"
proof -
  note p = map_read_lines(2) [OF assms(1)]
  have inj: "map Inr as = map (Inr :: _ \<Rightarrow> string + _) bs \<Longrightarrow> as = bs" for as bs :: "('a, 'b) commit_record list"
    by (induction as arbitrary: bs) (auto simp: map_eq_Cons_conv)
  show "rs' = rs" if "ls = []"
  proof (cases "map (parse_line D) (map (journal_line D) rs) = map Inr rs'")
    case True
    then show ?thesis using p inj by metis
  next
    case False
    moreover have "accounted D (map (journal_line D) rs) rs'" using assms(2) that by simp
    ultimately obtain e where "rs \<noteq> []" "parse_line D (last (map (journal_line D) rs)) = Inl e"
      unfolding accounted_def by auto
    moreover have "parse_line D (journal_line D (last rs)) = Inr (last rs)"
      using assms(1) line_ok_parse last_in_set [OF \<open>rs \<noteq> []\<close>] by blast
    ultimately show ?thesis by (simp add: last_map)
  qed
  have ac: "map Inr rs @ [parse_line D l] = map Inr rs' \<or> map Inr rs = map Inr rs' \<and> (\<exists>e. parse_line D l = Inl e)"
    if "ls = [l]" for l
    using assms(2) unfolding accounted_def that map_append p butlast_snoc last_snoc by auto
  show "rs' = rs @ [r]" if "ls = [l]" "parse_line D l = Inr r"
  proof -
    have "map (Inr :: _ \<Rightarrow> string + _) rs' = map Inr (rs @ [r])" using ac [OF that(1)] that(2) by auto
    then show ?thesis by (rule inj)
  qed
  show "rs' = rs" if "ls = [l]" "parse_line D l = Inl e"
  proof -
    have "Inl e \<notin> set (map Inr rs')" by auto
    then have "map Inr rs @ [Inl e] \<noteq> map Inr rs'" by (metis in_set_conv_decomp)
    then have "map (Inr :: _ \<Rightarrow> string + _) rs' = map Inr rs" using ac [OF that(1)] that(2) by auto
    then show ?thesis by (rule inj)
  qed
qed

text \<open>Whenever it opens, the store has the entries that survive.\<close>

lemma reopened_entries:
  assumes "open_store D (Some f) = Some (Inr st)" and "reads_back D f ct rs"
    and "contents f = Some (journal_text D rs @ cut_text D ct)"
  shows "entries st = survivors D ct rs"
proof -
  let ?t = "cut_text D ct"
  have ok: "\<forall>r\<in>set rs. line_ok D (read_line f) r" using assms(2) by (simp add: reads_back_def)
  have "raw_lines (journal_text D rs @ ?t) = map (journal_line D) rs @ raw_lines ?t"
    using jl.raw_lines_enc [OF ok] by (simp add: journal_text_def)
  with open_store_sound [OF assms(1,3)] obtain ls0 where
    ls0: "map (read_line f) (map (journal_line D) rs @ raw_lines ?t) = map Inr ls0" "accounted D ls0 (entries st)"
    by auto
  from ls0(1) obtain l1 ls where "ls0 = l1 @ ls" "map (read_line f) (map (journal_line D) rs) = map Inr l1"
    and ls: "map (read_line f) (raw_lines ?t) = map Inr ls" by (auto simp: append_eq_map_conv map_eq_append_conv)
  then have "map (Inr :: _ \<Rightarrow> string + _) l1 = map Inr (map (journal_line D) rs)" using map_read_lines(1) [OF ok] by simp
  moreover have "l1 = l2" if "map (Inr :: _ \<Rightarrow> string + _) l1 = map Inr l2" for l1 l2 :: "string list"
    using that by (induction l1 arbitrary: l2) (auto simp: map_eq_Cons_conv)
  ultimately have "accounted D (map (journal_line D) rs @ ls) (entries st)" using ls0(2) \<open>ls0 = l1 @ ls\<close> by metis
  note ac = accounted_lines [OF ok this]
  show ?thesis
  proof (cases ct)
    case None
    then show ?thesis using ac(1) ls by (simp add: raw_lines_def)
  next
    case (Some x)
    obtain r n where x: "x = (r, n)" by (cases x)
    have c: "cuts_ok D (read_line f) r" using assms(2) Some x by (simp add: reads_back_def)
    note l = cuts_ok_line [OF c]
    show ?thesis
    proof (cases "length (journal_line D r) \<le> n")
      case True
      then have "ls = [journal_line D r]"
        using ls cut_text_whole [OF l True] line_ok_read [OF l] Some x by auto
      then show ?thesis using ac(2) line_ok_parse [OF l] Some x True by simp
    next
      case False
      then have n: "n < length (journal_line D r)" by simp
      show ?thesis
      proof (cases "n = 0")
        case True
        then have "ls = []" using ls cut_text_part [OF l n] Some x by simp
        then show ?thesis using ac(1) Some x False by simp
      next
        case pos: False
        have "map (read_line f) [take n (journal_line D r)] = map Inr ls"
          using ls cut_text_part [OF l n] Some x pos by simp
        then obtain t where t: "ls = [t]" "read_line f (take n (journal_line D r)) = Inr t"
          by (auto simp: map_eq_Cons_conv)
        then obtain e where "parse_line D t = Inl e" using cuts_ok_part(3) [OF c _ n] pos by blast
        with t(1) show ?thesis using ac(3) Some x False by simp
      qed
    qed
  qed
qed

text \<open>It opens, unless the cut goes through a character.\<close>

lemma open_readable:
  assumes "store_inv D st" and "has_room st" and "reads_back D f ct (entries st)"
    and "\<forall>r n. ct = Some (r, n) \<longrightarrow> seq r = store_size st"
    and "plain_file f body" and "body = journal_text D (entries st) @ cut_text D ct"
    and "map (read_line f) (raw_lines (cut_text D ct)) = map Inr (raw_lines (cut_text D ct))"
  shows "\<exists>st'. open_store D (Some f) = Some (Inr st') \<and> store_inv D st' \<and>
    entries st' = survivors D ct (entries st) \<and> journal st' = Some body"
proof -
  let ?t = "cut_text D ct" and ?l = "map (journal_line D) (entries st)"
  have ok: "\<forall>r\<in>set (entries st). line_ok D (read_line f) r" using assms(3) by (simp add: reads_back_def)
  have raws: "raw_lines body = ?l @ raw_lines ?t"
    using jl.raw_lines_enc [OF ok] assms(6) by (simp add: journal_text_def)
  have rd: "map (read_line f) (raw_lines body) = map Inr (?l @ raw_lines ?t)"
    using map_read_lines(1) [OF ok] assms(7) unfolding raws map_append by simp
  note p = map_read_lines(2) [OF ok]
  note complete = open_store_complete [OF assms(5) _ _ rd]
  have same: ?thesis if "survivors D ct (entries st) = entries st"
    "accounted D (?l @ raw_lines ?t) (entries st)"
    using complete [of D "st\<lparr>journal := Some body\<rparr>"] that assms(1) by (intro exI [of _ "st\<lparr>journal := Some body\<rparr>"]) simp
  show ?thesis
  proof (cases ct)
    case None
    then show ?thesis using same p by (simp add: accounted_def raw_lines_def del: map_map)
  next
    case (Some x)
    obtain r n where x: "x = (r, n)" by (cases x)
    have c: "cuts_ok D (read_line f) r" using assms(3) Some x by (simp add: reads_back_def)
    note l = cuts_ok_line [OF c]
    show ?thesis
    proof (cases "length (journal_line D r) \<le> n")
      case True
      have "seq r = as_u64 (length (entries st))" using assms(4) Some x by (simp add: store_size_def)
      from apply_record_inv [OF assms(1,2) this] obtain st1 where
        st1: "store_inv D st1" "entries st1 = entries st @ [r]" by blast
      have "map (parse_line D) (?l @ raw_lines ?t) = map Inr (entries st @ [r])"
        using p cut_text_whole [OF l True] line_ok_parse [OF l] unfolding map_append Some x by simp
      then have "accounted D (?l @ raw_lines ?t) (entries st @ [r])" by (simp only: accounted_def simp_thms)
      with complete [of D "st1\<lparr>journal := Some body\<rparr>"] st1 show ?thesis
        using True by (intro exI [of _ "st1\<lparr>journal := Some body\<rparr>"]) (simp add: Some x)
    next
      case False
      then have n: "n < length (journal_line D r)" by simp
      note part = cut_text_part [OF l n]
      show ?thesis
      proof (cases "n = 0")
        case True
        then show ?thesis using same p part n by (simp add: accounted_def Some x del: map_map)
      next
        case pos: False
        with part have t: "raw_lines ?t = [take n (journal_line D r)]" by (simp add: Some x)
        moreover from this assms(7) have "read_line f (take n (journal_line D r)) = Inr (take n (journal_line D r))" by simp
        ultimately have "accounted D (?l @ raw_lines ?t) (entries st)"
          using cuts_ok_part [OF c _ n] pos p unfolding accounted_def t butlast_snoc last_snoc by auto
        then show ?thesis using same False by (simp add: Some x)
      qed
    qed
  qed
qed

lemma open_unreadable:
  assumes "store_inv D st" and "reads_back D f ct (entries st)"
    and "plain_file f (journal_text D (entries st) @ cut_text D ct)"
    and "raw_lines (cut_text D ct) = [t]" and "read_line f t = Inl e"
  shows "open_store D (Some f) = Some (Inl (Journal (''journal read error: '' @ e)))"
proof -
  have "\<forall>r\<in>set (entries st). line_ok D (read_line f) r" using assms(2) by (simp add: reads_back_def)
  from replay_prefix [OF assms(1) this, of "cut_text D ct"] open_plain [OF assms(3), of D] assms(4,5)
  show ?thesis by (simp add: replay_raws_def)
qed

definition cut_inside :: "('h, 't) deps \<Rightarrow> ('h, 't) cut \<Rightarrow> bool" where
  "cut_inside D ct \<longleftrightarrow> (case ct of None \<Rightarrow> False | Some (r, n) \<Rightarrow> 0 < n \<and> n < length (journal_line D r))"

lemma open_after_cut:
  assumes "store_inv D st" and "has_room st" and "reads_back D f ct (entries st)"
    and "\<forall>r n. ct = Some (r, n) \<longrightarrow> seq r = store_size st"
    and "plain_file f body" and "body = journal_text D (entries st) @ cut_text D ct"
  shows "(\<exists>st'. open_store D (Some f) = Some (Inr st') \<and> store_inv D st' \<and>
      entries st' = survivors D ct (entries st) \<and> journal st' = Some body) \<or>
    cut_inside D ct \<and> (\<exists>e. read_line f (cut_text D ct) = Inl e \<and>
      open_store D (Some f) = Some (Inl (Journal (''journal read error: '' @ e))))"
proof (cases "map (read_line f) (raw_lines (cut_text D ct)) = map Inr (raw_lines (cut_text D ct))")
  case True
  from open_readable [OF assms this] show ?thesis ..
next
  case False
  then obtain r n where ct: "ct = Some (r, n)" by (cases ct) (auto simp: raw_lines_def)
  have c: "cuts_ok D (read_line f) r" using assms(3) ct by (simp add: reads_back_def)
  note l = cuts_ok_line [OF c]
  have n: "n < length (journal_line D r)"
  proof (rule ccontr)
    assume "\<not> n < length (journal_line D r)"
    then show False using False cut_text_whole [OF l, of n] line_ok_read [OF l] ct by simp
  qed
  have t: "raw_lines (cut_text D ct) = [take n (journal_line D r)]" "0 < n"
    using False cut_text_part [OF l n] ct by (auto split: if_splits)
  with False c n obtain e where e: "read_line f (take n (journal_line D r)) = Inl e" by (auto simp: cuts_ok_def)
  from open_unreadable [OF assms(1,3) _ t(1) e] assms(5,6) t(2) n ct e show ?thesis
    by (simp add: cut_inside_def)
qed

section \<open>Runs of appends, and opening again\<close>

text \<open>From a fresh journal through any run to a restart; only the last write may leave part of
  its line behind.\<close>

lemma run_synced:
  assumes "length xs < 2 ^ 64" and "run_appends D (empty_store\<lparr>journal := Some []\<rparr>) xs = Some st"
    and "\<forall>x\<in>set xs. leaves_nothing (fst x)"
  shows "store_inv D st" and "synced D st" and "length (entries st) \<le> length xs"
proof -
  let ?e = "empty_store\<lparr>journal := Some []\<rparr> :: ('a, 'b) log_store"
  have "synced D ?e" by (simp add: synced_def journal_text_def)
  with run_appends_inv [of D ?e xs] assms show "store_inv D st" "synced D st" "length (entries st) \<le> length xs"
    by auto
qed

lemma restart_after_run:
  assumes "Suc (length xs) < 2 ^ 64"
    and "run_appends D (empty_store\<lparr>journal := Some []\<rparr>) xs = Some st0"
    and "\<forall>x\<in>set xs. leaves_nothing (fst x)"
    and "store_append D w st0 sub com salt at = Some (st, res)"
    and "r = next_record st0 sub com salt at"
    and "\<forall>r\<in>set (entries st0). line_ok D (read_line f) r" and "cuts_ok D (read_line f) r"
    and "journal st = Some body" and "plain_file f body"
  shows "case w of
      Wrote \<Rightarrow> open_store D (Some f) = Some (Inr st)
    | Write_Failed n e \<Rightarrow>
        if length (journal_line D r) \<le> n
        then \<exists>st'. open_store D (Some f) = Some (Inr st') \<and> entries st' = entries st @ [r] \<and> journal st' = Some body
        else open_store D (Some f) = Some (Inr st) \<or>
          (\<exists>e'. read_line f (take n (journal_line D r)) = Inl e' \<and>
            open_store D (Some f) = Some (Inl (Journal (''journal read error: '' @ e'))))"
proof -
  have "length xs < 2 ^ 64" using assms(1) by simp
  note run = run_synced [OF this assms(2,3)]
  have room: "has_room st0" using run(3) assms(1) by (simp add: has_room_def)
  have j: "journal st0 = Some (journal_text D (entries st0))" using run(2) by (simp add: synced_def)
  note print = line_ok_print [OF cuts_ok_line [OF assms(7)]]
  have sq: "seq r = store_size st0" using assms(5) by (simp add: next_record_def)
  show ?thesis
  proof (cases w)
    case Wrote
    from store_append_journaled [OF run(1) room j print [unfolded assms(5)]] assms(4,5) Wrote
    have st: "store_inv D st" "entries st = entries st0 @ [r]"
      "journal st = Some (journal_text D (entries st0) @ journal_line D r @ [newline])" by auto
    then have "synced D st" by (simp add: synced_def)
    from restart_identical [OF st(1) this, of f] assms(6-9) st cuts_ok_line [OF assms(7)]
    show ?thesis by (simp add: Wrote)
  next
    case (Write_Failed n e)
    then have st: "st = st0\<lparr>journal := Some (journal_text D (entries st0) @ cut_text D (Some (r, n)))\<rparr>"
      using assms(4,5) j print by (simp add: store_append_def next_record_def store_size_def Let_def)
    have "reads_back D f (Some (r, n)) (entries st0)" using assms(6,7) by (simp add: reads_back_def)
    from open_after_cut [OF run(1) room this _ assms(9)] sq assms(8) st
    have o: "(\<exists>st'. open_store D (Some f) = Some (Inr st') \<and> store_inv D st' \<and>
        entries st' = survivors D (Some (r, n)) (entries st0) \<and> journal st' = Some body) \<or>
      cut_inside D (Some (r, n)) \<and> (\<exists>e. read_line f (cut_text D (Some (r, n))) = Inl e \<and>
        open_store D (Some f) = Some (Inl (Journal (''journal read error: '' @ e))))" by simp
    show ?thesis
    proof (cases "length (journal_line D r) \<le> n")
      case True
      then show ?thesis using o st by (auto simp: Write_Failed cut_inside_def)
    next
      case False
      have "st' = st" if "store_inv D st'" "entries st' = entries st0" "journal st' = Some body" for st'
        by (rule store_inv_unique [OF that(1)]) (use that run(1) st assms(8) in simp_all)
      then show ?thesis using o False by (auto simp: Write_Failed)
    qed
  qed
qed

end
