(* ===== verification/Durability.thy ===== *)
theory Durability
  imports Server Torn_Line
begin

text \<open>
  What survives the end of the process: runs of the service in which no append failed,
  the journal they leave, and the start of a new process on that journal, whose last
  line may be torn by a write that the crash interrupted.
\<close>

section \<open>Runs without a failed append\<close>

definition failed_append ::
  "('h, 't, 'su, 'ki, 'kp, 'pk, 'ad) system \<Rightarrow> ('h, 't, 'su, 'ki, 'kp, 'pk, 'ad) system \<Rightarrow> bool" where
  "failed_append s s' \<longleftrightarrow> (\<exists>i rq e. tasks s i = Some (Accepted rq) \<and> tasks s' i = Some (Sequenced (Inl e)))"

definition clean_step ::
  "('h, 't, 'su, 'ki, 'kp, 'pk, 'ad) api_env \<Rightarrow> ('h, 't, 'su, 'ki, 'kp, 'pk, 'ad) system
     \<Rightarrow> ('h, 't, 'su, 'ki, 'kp, 'pk, 'ad) system \<Rightarrow> bool" where
  "clean_step A s s' \<longleftrightarrow> commit_step A s s' \<and> \<not> failed_append s s'"

abbreviation clean_run ::
  "('h, 't, 'su, 'ki, 'kp, 'pk, 'ad) api_env \<Rightarrow> ('h, 't, 'su, 'ki, 'kp, 'pk, 'ad) system
     \<Rightarrow> ('h, 't, 'su, 'ki, 'kp, 'pk, 'ad) system \<Rightarrow> bool" where
  "clean_run A \<equiv> (clean_step A)\<^sup>*\<^sup>*"

text \<open>An append that sequenced its entry has written the entry's line.\<close>

lemma store_append_Inr_synced:
  assumes "store_append D w st sub com salt at = Some (st', Inr r)" and "synced D st"
  shows "synced D st'"
proof -
  let ?r = "\<lparr>seq = as_u64 (length (entries st)), logged_at = at, subject = sub, commitment = com,
    salt_ref = salt\<rparr>"
  obtain line where line: "json_to_string D (record_to_json D ?r) = Inr line" and w: "w = Wrote"
    using assms by (auto simp: store_append_def synced_def Let_def split: sum.splits write_outcome.splits)
  then have "apply_record D (st\<lparr>journal := Some (journal_text D (entries st) @ line @ [newline])\<rparr>) ?r = Some st'"
    using assms by (auto simp: store_append_def synced_def Let_def bind_eq_Some_conv)
  then have "entries st' = entries st @ [?r]" "journal st' = Some (journal_text D (entries st) @ line @ [newline])"
    by (auto simp: apply_record_def bind_eq_Some_conv)
  moreover have "journal_line D ?r = line" using line by (simp add: journal_line_def)
  ultimately show ?thesis by (simp add: synced_def)
qed

lemma commit_append_synced:
  assumes "commit_append A w now ap rq = Some (ap', Inr j)" and "synced (dp A) (app_store ap)"
  shows "synced (dp A) (app_store ap')"
  using assms(1)
proof (cases rule: commit_append_cases)
  case (sequenced sub com salt st' r rc)
  from store_append_Inr_synced [OF sequenced(2) assms(2)] sequenced(4) show ?thesis by simp
qed simp

lemma commit_append_panic_synced:
  assumes "commit_append_panic A w now ap rq = Some ap'" and "synced (dp A) (app_store ap)"
  shows "synced (dp A) (app_store ap')"
  using assms(1) by (rule commit_append_panicE) (use store_append_Inr_synced [OF _ assms(2)] in simp)

lemma clean_step_synced:
  assumes "clean_step A s s'" and "synced (dp A) (app_store (app s))"
  shows "synced (dp A) (app_store (app s'))"
proof -
  from assms(1) have step: "commit_step A s s'" and ok: "\<not> failed_append s s'"
    by (simp_all add: clean_step_def)
  show ?thesis
    using step
  proof (cases rule: commit_step.cases)
    case (sequence i rq w now app' res)
    have "failed_append s s'" if "res = Inl e" for e
      using sequence that unfolding failed_append_def by (intro exI [of _ i] exI [of _ rq]) simp
    with ok obtain j where "res = Inr j" by (cases res) blast+
    with commit_append_synced [of A w now "app s" rq app' j] sequence assms(2) show ?thesis by simp
  next
    case (panic i rq w now app')
    with commit_append_panic_synced [of A w now "app s" rq app'] assms(2) show ?thesis by simp
  qed (use assms(2) in simp_all)
qed

section \<open>A new process on the journal\<close>

text \<open>The journal a crash leaves: the lines of the entries, and what a last, interrupted
  write left of one more line, if it does not parse.\<close>

definition torn_ok :: "('h, 't) deps \<Rightarrow> journal_file \<Rightarrow> string \<Rightarrow> bool" where
  "torn_ok D f torn \<longleftrightarrow> torn = [] \<or>
     newline \<notin> set torn \<and> trim torn \<noteq> [] \<and> read_line f torn = Inr torn \<and>
     (\<exists>e. parse_line D torn = Inl e)"

lemma open_after_crash:
  assumes "store_inv D st" and "\<forall>r\<in>set (entries st). line_ok D (read_line f) r"
    and "plain_file f (journal_text D (entries st) @ torn)" and "torn_ok D f torn"
  shows "open_store D (Some f) = Some (Inr (st\<lparr>journal := Some (journal_text D (entries st) @ torn)\<rparr>))"
proof (cases "torn = []")
  case True
  let ?st = "st\<lparr>journal := Some (journal_text D (entries st))\<rparr>"
  have "open_store D (Some f) = Some (Inr ?st)"
    by (rule restart_identical) (use assms True in \<open>simp_all add: synced_def\<close>)
  with True show ?thesis by simp
next
  case False
  with torn_tail_skipped [OF assms(1-3)] assms(4) show ?thesis by (auto simp: torn_ok_def)
qed

text \<open>The environment of the next process: the same code, other files.\<close>

lemma with_files [simp]:
  "dp (A\<lparr>file_at := fs\<rparr>) = dp A" "sg (A\<lparr>file_at := fs\<rparr>) = sg A" "ky (A\<lparr>file_at := fs\<rparr>) = ky A"
  "json_response (A\<lparr>file_at := fs\<rparr>) = json_response A"
  "operator_view (A\<lparr>file_at := fs\<rparr>) = operator_view A"
  "read_head (A\<lparr>file_at := fs\<rparr>) = read_head A"
  by (simp_all add: json_response_def operator_view_def read_head_def fun_eq_iff)

lemma with_files_errors [simp]:
  "bad_request (A\<lparr>file_at := fs\<rparr>) = bad_request A" "not_found (A\<lparr>file_at := fs\<rparr>) = not_found A"
  by (simp_all add: bad_request_def not_found_def error_response_def fun_eq_iff)

lemma with_files_receipt [simp]: "receipt_handler (A\<lparr>file_at := fs\<rparr>) = receipt_handler A"
  unfolding fun_eq_iff receipt_handler_def with_files with_files_errors by simp

lemma app_after_crash:
  assumes "app_inv A ap" and "operator_from_config (sg A) (ky A) (operator_cfg (app_config ap)) = Inr (app_operator ap)"
    and "state_file (app_config ap) = Some p"
    and "plain_file (fs p) (journal_text (dp A) (entries (app_store ap)) @ torn)" and "torn_ok (dp A) (fs p) torn"
    and "\<forall>r\<in>set (entries (app_store ap)). line_ok (dp A) (read_line (fs p)) r"
  shows "\<exists>ap'. app_new (A\<lparr>file_at := fs\<rparr>) (app_config ap) = Some (Inr ap') \<and> grown A ap ap' \<and>
    app_store ap' = (app_store ap)\<lparr>journal := Some (journal_text (dp A) (entries (app_store ap)) @ torn)\<rparr>"
proof -
  from assms(1) have inv: "store_inv (dp A) (app_store ap)" by (simp add: app_inv_def)
  from open_after_crash [OF inv assms(6,4,5)] assms(2,3) inv show ?thesis
    by (simp add: app_new_def grown_def app_inv_def)
qed

text \<open>The same for a stop in the middle of a line, wherever the line was cut.\<close>

lemma app_after_cut:
  assumes "app_inv A ap" and "operator_from_config (sg A) (ky A) (operator_cfg (app_config ap)) = Inr (app_operator ap)"
    and "state_file (app_config ap) = Some p" and "has_room (app_store ap)"
    and "synced (dp A) (app_store ap)" and "reads_back (dp A) (fs p) ct (entries (app_store ap))"
    and "\<forall>r n. ct = Some (r, n) \<longrightarrow> seq r = store_size (app_store ap)"
    and "journal (app_store ap) = Some body" and "plain_file (fs p) (body @ cut_text (dp A) ct)"
  shows "(\<exists>ap'. app_new (A\<lparr>file_at := fs\<rparr>) (app_config ap) = Some (Inr ap') \<and>
      entries (app_store ap') = survivors (dp A) ct (entries (app_store ap))) \<or>
    cut_inside (dp A) ct \<and> (\<exists>e. read_line (fs p) (cut_text (dp A) ct) = Inl e \<and>
      app_new (A\<lparr>file_at := fs\<rparr>) (app_config ap) = Some (Inl (Journal (''journal read error: '' @ e))))"
proof -
  have "store_inv (dp A) (app_store ap)" using assms(1) by (simp add: app_inv_def)
  moreover have "body = journal_text (dp A) (entries (app_store ap))" using assms(5,8) by (simp add: synced_def)
  ultimately show ?thesis
    using open_after_cut [OF _ assms(4,6,7,9)] assms(2,3)
    by (auto simp: app_new_def)
qed

end
