(* ===== verification/Life.thy ===== *)
theory Life
  imports Durability
begin

text \<open>
  The life of the service: any number of processes one after the other, each running
  commits concurrently and each started on the journal that the one before has left. The
  theory has what holds of every life, and what holds of a life whose restarts find the
  journal in step with the log.
\<close>

section \<open>The end of a process and the next one\<close>

text \<open>The end of a process: answers that were sent stay sent, no other task continues. The
  next process has locks of its own.\<close>

fun interrupted :: "('h, 't, 'su, 'ki) task \<Rightarrow> ('h, 't, 'su, 'ki) task" where
  "interrupted (Answered resp) = Answered resp"
| "interrupted t = Dropped"

definition restarted ::
  "('h, 't, 'su, 'kp, 'pk, 'ad) app_state \<Rightarrow> ('h, 't, 'su, 'ki, 'kp, 'pk, 'ad) system
     \<Rightarrow> ('h, 't, 'su, 'ki, 'kp, 'pk, 'ad) system" where
  "restarted ap s = \<lparr>app = ap, tasks = map_option interrupted \<circ> tasks s, poisoned = False\<rparr>"

lemma restarted_simps [simp]:
  "app (restarted ap s) = ap" "tasks (restarted ap s) i = map_option interrupted (tasks s i)"
  "\<not> poisoned (restarted ap s)"
  by (simp_all add: restarted_def)

lemma interrupted_Answered [simp]: "interrupted t = Answered resp \<longleftrightarrow> t = Answered resp"
  by (cases t) simp_all

text \<open>The line that may be in the making when a process ends: the next record of a request
  that is waiting to be sequenced, and only while the store's lock can be taken.\<close>

definition being_written ::
  "('h, 't, 'su, 'ki, 'kp, 'pk, 'ad) api_env \<Rightarrow> ('h, 't, 'su, 'ki, 'kp, 'pk, 'ad) system
     \<Rightarrow> ('h, 't) cut \<Rightarrow> bool" where
  "being_written A s ct \<longleftrightarrow> (\<forall>r n. ct = Some (r, n) \<longrightarrow> \<not> poisoned s \<and>
     (\<exists>i sub com salt now. tasks s i = Some (Accepted (sub, com, salt)) \<and>
        r = next_record (app_store (app s)) sub com salt now) \<and>
     (\<exists>line. json_to_string (dp A) (record_to_json (dp A) r) = Inr line))"

text \<open>The next process finds what the last one has written, and the part of a line.\<close>

definition left_on_disk ::
  "('h, 't, 'su, 'ki, 'kp, 'pk, 'ad) api_env \<Rightarrow> (string \<Rightarrow> journal_file) \<Rightarrow> ('h, 't) cut
     \<Rightarrow> ('h, 't, 'su, 'kp, 'pk, 'ad) app_state \<Rightarrow> bool" where
  "left_on_disk A fs ct ap \<longleftrightarrow> (\<forall>p body. state_file (app_config ap) = Some p \<longrightarrow>
     journal (app_store ap) = Some body \<longrightarrow> contents (fs p) = Some (body @ cut_text (dp A) ct))"

text \<open>A step of a life, where \<open>P\<close> says which restarts are looked at. Nothing is asked of the
  journal but that the service starts on it.\<close>

inductive life_step ::
  "('h, 't, 'su, 'ki, 'kp, 'pk, 'ad) api_env
     \<Rightarrow> ((string \<Rightarrow> journal_file) \<Rightarrow> ('h, 't) cut \<Rightarrow> ('h, 't, 'su, 'ki, 'kp, 'pk, 'ad) system \<Rightarrow> bool)
     \<Rightarrow> ('h, 't, 'su, 'ki, 'kp, 'pk, 'ad) system \<Rightarrow> ('h, 't, 'su, 'ki, 'kp, 'pk, 'ad) system \<Rightarrow> bool"
  for A P where
  work: "commit_step A s s' \<Longrightarrow> life_step A P s s'"
| restart: "P fs ct s \<Longrightarrow> being_written A s ct \<Longrightarrow> left_on_disk A fs ct (app s) \<Longrightarrow>
     app_new (A\<lparr>file_at := fs\<rparr>) (app_config (app s)) = Some (Inr ap') \<Longrightarrow>
     life_step A P s (restarted ap' s)"

abbreviation life ::
  "('h, 't, 'su, 'ki, 'kp, 'pk, 'ad) api_env \<Rightarrow> ('h, 't, 'su, 'ki, 'kp, 'pk, 'ad) system
     \<Rightarrow> ('h, 't, 'su, 'ki, 'kp, 'pk, 'ad) system \<Rightarrow> bool" where
  "life A \<equiv> (life_step A (\<lambda>_ _ _. True))\<^sup>*\<^sup>*"

text \<open>The journal is in step with the log: it holds the lines of the entries, each with its
  line feed, and nothing else (no write has failed half way, no line was torn before), and
  the file reads as it was written.\<close>

definition in_step ::
  "('h, 't, 'su, 'ki, 'kp, 'pk, 'ad) api_env \<Rightarrow> (string \<Rightarrow> journal_file) \<Rightarrow> ('h, 't) cut
     \<Rightarrow> ('h, 't, 'su, 'ki, 'kp, 'pk, 'ad) system \<Rightarrow> bool" where
  "in_step A fs ct s \<longleftrightarrow> (\<exists>p. state_file (app_config (app s)) = Some p \<and>
     synced (dp A) (app_store (app s)) \<and> reads_back (dp A) (fs p) ct (entries (app_store (app s))))"

abbreviation steady_life ::
  "('h, 't, 'su, 'ki, 'kp, 'pk, 'ad) api_env \<Rightarrow> ('h, 't, 'su, 'ki, 'kp, 'pk, 'ad) system
     \<Rightarrow> ('h, 't, 'su, 'ki, 'kp, 'pk, 'ad) system \<Rightarrow> bool" where
  "steady_life A \<equiv> (life_step A (in_step A))\<^sup>*\<^sup>*"

lemma life_step_weaken:
  assumes "life_step A P s s'" and "\<And>fs ct s. P fs ct s \<Longrightarrow> Q fs ct s"
  shows "life_step A Q s s'"
  using assms(1) by (induction rule: life_step.induct) (auto intro: life_step.intros assms(2))

lemma steady_life_life: "steady_life A s s' \<Longrightarrow> life A s s'"
  by (rule rtranclp_mono [THEN predicate2D]) (auto elim: life_step_weaken)

lemma commit_run_life: "commit_run A s s' \<Longrightarrow> (life_step A P)\<^sup>*\<^sup>* s s'"
  by (rule rtranclp_mono [THEN predicate2D]) (auto intro: life_step.work)

section \<open>What holds of every life\<close>

definition service_inv ::
  "('h, 't, 'su, 'ki, 'kp, 'pk, 'ad) api_env \<Rightarrow> ('h, 't, 'su, 'ki, 'kp, 'pk, 'ad) system \<Rightarrow> bool" where
  "service_inv A s \<longleftrightarrow> system_inv A s \<and>
     operator_from_config (sg A) (ky A) (operator_cfg (app_config (app s))) = Inr (app_operator (app s))"

lemma service_inv_app: "service_inv A s \<Longrightarrow> app_inv A (app s)"
  by (simp add: service_inv_def system_inv_appD)

lemma with_files_inv [simp]: "app_inv (A\<lparr>file_at := fs\<rparr>) = app_inv A"
  by (simp add: app_inv_def fun_eq_iff)

lemma restarted_inv:
  assumes "service_inv A s" and "app_new (A\<lparr>file_at := fs\<rparr>) (app_config (app s)) = Some (Inr ap')"
  shows "service_inv A (restarted ap' s)" and "app_config ap' = app_config (app s)"
    and "app_operator ap' = app_operator (app s)"
proof -
  note n = app_new_inv [OF assms(2)]
  show c: "app_config ap' = app_config (app s)" "app_operator ap' = app_operator (app s)"
    using n assms(1) by (simp_all add: service_inv_def)
  have "task_ok A ap' (interrupted t)" for t by (cases t) simp_all
  then show "service_inv A (restarted ap' s)" using n c by (auto simp: service_inv_def system_inv_def)
qed

lemma life_step_inv:
  assumes "life_step A P s s'" and "service_inv A s"
  shows "service_inv A s' \<and> app_config (app s') = app_config (app s) \<and> app_operator (app s') = app_operator (app s)"
  using assms
proof (induction rule: life_step.induct)
  case (work s s')
  then show ?case using commit_step_inv [of A s s'] by (auto simp: service_inv_def grown_def)
next
  case (restart fs ct s ap')
  with restarted_inv [OF restart.prems restart(4)] show ?case by simp
qed

lemma life_inv:
  assumes "(life_step A P)\<^sup>*\<^sup>* s s'" and "service_inv A s"
  shows "service_inv A s'" and "app_config (app s') = app_config (app s)"
    and "app_operator (app s') = app_operator (app s)"
proof -
  have "service_inv A s' \<and> app_config (app s') = app_config (app s) \<and> app_operator (app s') = app_operator (app s)"
    using assms by (induction rule: rtranclp_induct) (use life_step_inv in fastforce)+
  then show "service_inv A s'" "app_config (app s') = app_config (app s)"
    "app_operator (app s') = app_operator (app s)" by simp_all
qed

lemma service_inv_start:
  assumes "app_new A c = Some (Inr ap)"
  shows "service_inv A (idle ap)"
  using app_new_inv [OF assms] system_inv_idle [of A ap] by (simp add: service_inv_def idle_def)

section \<open>What holds when the journal is in step\<close>

lemma restart_in_step:
  assumes "service_inv A s" and "in_step A fs ct s" and "left_on_disk A fs ct (app s)"
    and "app_new (A\<lparr>file_at := fs\<rparr>) (app_config (app s)) = Some (Inr ap')"
  shows "entries (app_store ap') = survivors (dp A) ct (entries (app_store (app s)))" and "grown A (app s) ap'"
proof -
  from assms(2) obtain p where p: "state_file (app_config (app s)) = Some p"
    "journal (app_store (app s)) = Some (journal_text (dp A) (entries (app_store (app s))))"
    "reads_back (dp A) (fs p) ct (entries (app_store (app s)))" by (auto simp: in_step_def synced_def)
  note n = app_new_inv [OF assms(4)]
  have "contents (fs p) = Some (journal_text (dp A) (entries (app_store (app s))) @ cut_text (dp A) ct)"
    using assms(3) p(1,2) by (simp add: left_on_disk_def)
  with reopened_entries [OF _ p(3)] n p(1)
  show e: "entries (app_store ap') = survivors (dp A) ct (entries (app_store (app s)))" by simp
  show "grown A (app s) ap'"
    using e n restarted_inv(2,3) [OF assms(1,4)] by (cases ct) (auto simp: grown_def)
qed

lemma steady_step_grown:
  assumes "life_step A (in_step A) s s'" and "service_inv A s"
  shows "grown A (app s) (app s')"
  using assms
proof (induction rule: life_step.induct)
  case (work s s')
  then show ?case using commit_step_inv [of A s s'] by (simp add: service_inv_def)
next
  case (restart fs ct s ap')
  with restart_in_step(2) [OF restart.prems restart(1,3,4)] show ?case by simp
qed

lemma life_grown:
  assumes "steady_life A s s'" and "service_inv A s"
  shows "grown A (app s) (app s')"
  using assms
proof (induction rule: rtranclp_induct)
  case base
  then show ?case by (simp add: grown_refl service_inv_app)
next
  case (step s1 s2)
  have "service_inv A s1" by (rule life_inv(1) [OF step.hyps(1) step.prems])
  then show ?case using grown_trans step steady_step_grown by blast
qed

section \<open>Lives without a failed append\<close>

text \<open>No append fails, and no process but the last is ended inside a line: what keeps the
  journal in step.\<close>

definition between_lines :: "('h, 't) deps \<Rightarrow> ('h, 't) cut \<Rightarrow> bool" where
  "between_lines D ct \<longleftrightarrow> (\<forall>r n. ct = Some (r, n) \<longrightarrow> length (journal_line D r) < n)"

inductive clean_life_step ::
  "('h, 't, 'su, 'ki, 'kp, 'pk, 'ad) api_env \<Rightarrow> ('h, 't, 'su, 'ki, 'kp, 'pk, 'ad) system
     \<Rightarrow> ('h, 't, 'su, 'ki, 'kp, 'pk, 'ad) system \<Rightarrow> bool" for A where
  work: "clean_step A s s' \<Longrightarrow> clean_life_step A s s'"
| restart: "between_lines (dp A) ct \<Longrightarrow> state_file (app_config (app s)) = Some p \<Longrightarrow>
     reads_back (dp A) (fs p) ct (entries (app_store (app s))) \<Longrightarrow>
     being_written A s ct \<Longrightarrow> left_on_disk A fs ct (app s) \<Longrightarrow>
     app_new (A\<lparr>file_at := fs\<rparr>) (app_config (app s)) = Some (Inr ap') \<Longrightarrow>
     clean_life_step A s (restarted ap' s)"

abbreviation clean_life ::
  "('h, 't, 'su, 'ki, 'kp, 'pk, 'ad) api_env \<Rightarrow> ('h, 't, 'su, 'ki, 'kp, 'pk, 'ad) system
     \<Rightarrow> ('h, 't, 'su, 'ki, 'kp, 'pk, 'ad) system \<Rightarrow> bool" where
  "clean_life A \<equiv> (clean_life_step A)\<^sup>*\<^sup>*"

lemma between_lines_text:
  "between_lines D ct \<Longrightarrow> journal_text D rs @ cut_text D ct = journal_text D (survivors D ct rs)"
  by (cases ct) (auto simp: between_lines_def)

lemma clean_life_step_steady:
  assumes "clean_life_step A s s'" and "service_inv A s" and "synced (dp A) (app_store (app s))"
  shows "life_step A (in_step A) s s' \<and> synced (dp A) (app_store (app s'))"
  using assms
proof (induction rule: clean_life_step.induct)
  case (work s s')
  then show ?case using clean_step_synced [of A s s'] by (auto simp: clean_step_def intro: life_step.work)
next
  case (restart ct s p fs ap')
  have k: "in_step A fs ct s" using restart(2,3) restart.prems(2) by (auto simp: in_step_def)
  have "contents (fs p) = Some (journal_text (dp A) (survivors (dp A) ct (entries (app_store (app s)))))"
    using restart(2,5) restart.prems(2) between_lines_text [OF restart(1), of "entries (app_store (app s))"]
    by (simp add: left_on_disk_def synced_def)
  moreover have "open_store (dp A) (Some (fs p)) = Some (Inr (app_store ap'))"
    using app_new_inv [OF restart(6)] restart(2) by simp
  ultimately have "journal (app_store ap') = Some (journal_text (dp A) (entries (app_store ap')))"
    using open_store_sound restart_in_step(1) [OF restart.prems(1) k restart(5,6)] by metis
  then show ?case using life_step.restart [where P = "in_step A", OF k restart(4,5,6)] by (simp add: synced_def)
qed

lemma clean_life_steady:
  assumes "clean_life A s s'" and "service_inv A s" and "synced (dp A) (app_store (app s))"
  shows "steady_life A s s'" and "synced (dp A) (app_store (app s'))"
proof -
  have "steady_life A s s' \<and> synced (dp A) (app_store (app s'))"
    using assms
  proof (induction rule: rtranclp_induct)
    case (step s1 s2)
    then have "steady_life A s s1" "synced (dp A) (app_store (app s1))" by blast+
    with clean_life_step_steady [OF step.hyps(2)] life_inv(1) [OF this(1) step.prems(1)] show ?case
      by (auto intro: rtranclp.rtrancl_into_rtrancl)
  qed simp
  then show "steady_life A s s'" "synced (dp A) (app_store (app s'))" by simp_all
qed

end
