(* ===== verification/Log_Spec.thy ===== *)
theory Log_Spec
  imports Main
begin

text \<open>
  What the service promises its clients, without trees, journals or locks: an
  append-only list, and for each client where its request stands. A request that is
  accepted is committed at most once, at the end of the list as it is then, and the
  client is told its position, told that it failed, or not told anything. The end of the
  process is one step: every client still waiting waits in vain. The theory also holds
  the interface of a forward simulation between two step relations.
\<close>

section \<open>Forward simulation\<close>

locale forward_simulation =
  fixes step :: "'s \<Rightarrow> 's \<Rightarrow> bool"
    and spec :: "'a \<Rightarrow> 'a \<Rightarrow> bool"
    and inv :: "'s \<Rightarrow> bool"
    and rel :: "'s \<Rightarrow> 'a \<Rightarrow> bool"
  assumes keeps: "step s s' \<Longrightarrow> inv s \<Longrightarrow> inv s'"
    and square: "step s s' \<Longrightarrow> inv s \<Longrightarrow> rel s a \<Longrightarrow> \<exists>a'. spec\<^sup>*\<^sup>* a a' \<and> rel s' a'"
begin

lemma run_keeps: "step\<^sup>*\<^sup>* s s' \<Longrightarrow> inv s \<Longrightarrow> inv s'"
  by (induction rule: rtranclp_induct) (use keeps in blast)+

lemma run_simulated:
  assumes "step\<^sup>*\<^sup>* s s'" and "inv s" and "rel s a"
  shows "\<exists>a'. spec\<^sup>*\<^sup>* a a' \<and> rel s' a'"
  using assms(1)
proof (induction rule: rtranclp_induct)
  case base
  then show ?case using assms(3) by blast
next
  case (step s1 s2)
  then obtain a1 where a1: "spec\<^sup>*\<^sup>* a a1" "rel s1 a1" by blast
  have "inv s1" using step.hyps(1) assms(2) by (rule run_keeps)
  from square [OF step.hyps(2) this a1(2)] a1(1) show ?case
    by (auto intro: rtranclp_trans)
qed

text \<open>What holds of every state the specification reaches holds of the implementation.\<close>

lemma transfer:
  assumes "step\<^sup>*\<^sup>* s s'" and "inv s" and "rel s a"
    and "\<And>a'. spec\<^sup>*\<^sup>* a a' \<Longrightarrow> rel s' a' \<Longrightarrow> P"
  shows P
  using run_simulated [OF assms(1-3)] assms(4) by blast

end

section \<open>The append-only log\<close>

datatype 'r client =
    Pending 'r
  | Committed 'r nat
  | Acknowledged 'r nat
  | Abandoned 'r nat
  | Failing
  | Closed

record 'r log_spec =
  log :: "'r list"
  clients :: "nat \<Rightarrow> 'r client option"

definition set_client :: "nat \<Rightarrow> 'r client \<Rightarrow> 'r log_spec \<Rightarrow> 'r log_spec" where
  "set_client i c a = a\<lparr>clients := (clients a)(i \<mapsto> c)\<rparr>"

lemma client_simps [simp]:
  "log (set_client i c a) = log a" "clients (set_client i c a) = (clients a)(i \<mapsto> c)"
  by (simp_all add: set_client_def)

text \<open>A client whose connection or whose server is gone.\<close>

fun forsaken :: "'r client \<Rightarrow> 'r client" where
  "forsaken (Pending r) = Closed"
| "forsaken (Committed r n) = Abandoned r n"
| "forsaken Failing = Closed"
| "forsaken c = c"

inductive spec_step :: "'r log_spec \<Rightarrow> 'r log_spec \<Rightarrow> bool" where
  request: "clients a i = None \<Longrightarrow> spec_step a (set_client i (Pending r) a)"
| reject: "clients a i = None \<Longrightarrow> spec_step a (set_client i Closed a)"
| commit: "clients a i = Some (Pending r) \<Longrightarrow>
     spec_step a (set_client i (Committed r (length (log a))) (a\<lparr>log := log a @ [r]\<rparr>))"
| fail: "clients a i = Some (Pending r) \<Longrightarrow> spec_step a (set_client i Failing a)"
| acknowledge: "clients a i = Some (Committed r n) \<Longrightarrow> spec_step a (set_client i (Acknowledged r n) a)"
| decline: "clients a i = Some Failing \<Longrightarrow> spec_step a (set_client i Closed a)"
| forsake: "clients a i = Some c \<Longrightarrow> spec_step a (set_client i (forsaken c) a)"
| crash: "spec_step a (a\<lparr>clients := map_option forsaken \<circ> clients a\<rparr>)"

inductive_cases spec_stepE: "spec_step a a'"

abbreviation spec_run :: "'r log_spec \<Rightarrow> 'r log_spec \<Rightarrow> bool" where
  "spec_run \<equiv> spec_step\<^sup>*\<^sup>*"

section \<open>What it guarantees\<close>

text \<open>The request and the position that a client's append took.\<close>

fun holds :: "'r client \<Rightarrow> ('r \<times> nat) option" where
  "holds (Committed r n) = Some (r, n)"
| "holds (Acknowledged r n) = Some (r, n)"
| "holds (Abandoned r n) = Some (r, n)"
| "holds _ = None"

lemma holds_forsaken [simp]: "holds (forsaken c) = holds c"
  by (cases c) simp_all

definition position :: "'r log_spec \<Rightarrow> nat \<Rightarrow> ('r \<times> nat) option" where
  "position a i = Option.bind (clients a i) holds"

lemma position_simps [simp]:
  "position (set_client i c a) j = (if j = i then holds c else position a j)"
  "position (a\<lparr>log := l\<rparr>) j = position a j"
  "position (a\<lparr>clients := map_option forsaken \<circ> clients a\<rparr>) j = position a j"
  by (simp_all add: position_def map_option_case split: option.split)

text \<open>Every entry past the first \<open>b\<close> was committed by exactly one client, and every
  client's entry is its request.\<close>

definition spec_inv :: "nat \<Rightarrow> 'r log_spec \<Rightarrow> bool" where
  "spec_inv b a \<longleftrightarrow>
     (\<forall>i r n. position a i = Some (r, n) \<longrightarrow> b \<le> n \<and> n < length (log a) \<and> log a ! n = r) \<and>
     (\<forall>n. b \<le> n \<longrightarrow> n < length (log a) \<longrightarrow> (\<exists>!i. \<exists>r. position a i = Some (r, n)))"

lemma spec_inv_position:
  "spec_inv b a \<Longrightarrow> position a i = Some (r, n) \<Longrightarrow> b \<le> n \<and> n < length (log a) \<and> log a ! n = r"
  unfolding spec_inv_def by blast

lemma spec_inv_same:
  assumes "spec_inv b a" and "log a' = log a" and "\<And>j. position a' j = position a j"
  shows "spec_inv b a'"
  using assms by (simp add: spec_inv_def)

lemma spec_inv_commit:
  assumes "spec_inv b a" and "b \<le> length (log a)" and "clients a i = Some (Pending r)"
  shows "spec_inv b (set_client i (Committed r (length (log a))) (a\<lparr>log := log a @ [r]\<rparr>))"
    (is "spec_inv b ?a'")
proof -
  have old: "b \<le> n \<and> n < length (log a) \<and> log a ! n = r'" if "position a j = Some (r', n)" for j r' n
    using spec_inv_position [OF assms(1) that] .
  have i: "position a i = None" using assms(3) by (simp add: position_def)
  have "\<exists>!j. \<exists>r'. position ?a' j = Some (r', n)" if n: "b \<le> n" "n < Suc (length (log a))" for n
  proof (cases "n = length (log a)")
    case True
    then have "position ?a' i = Some (r, n)" by simp
    moreover have "j = i" if "position ?a' j = Some (r', n)" for j r'
      using that old [of j r' n] True by (auto split: if_splits)
    ultimately show ?thesis by blast
  next
    case False
    then have "(\<exists>r'. position ?a' j = Some (r', n)) \<longleftrightarrow> (\<exists>r'. position a j = Some (r', n))" for j
      using i by auto
    moreover have "\<exists>!j. \<exists>r'. position a j = Some (r', n)"
      using assms(1) n False by (simp add: spec_inv_def)
    ultimately show ?thesis by simp
  qed
  moreover have "b \<le> n \<and> n < Suc (length (log a)) \<and> (log a @ [r]) ! n = r'"
    if "position ?a' j = Some (r', n)" for j r' n
    using that old [of j r' n] assms(2) by (auto simp: nth_append split: if_splits)
  ultimately show ?thesis by (simp add: spec_inv_def)
qed

text \<open>One step extends the log, keeps every position taken, and gives new ones only past
  the end of the log as it was.\<close>

definition extends :: "'r log_spec \<Rightarrow> 'r log_spec \<Rightarrow> bool" where
  "extends a a' \<longleftrightarrow> (\<exists>l. log a' = log a @ l) \<and>
     (\<forall>i. position a i \<noteq> None \<longrightarrow> position a' i = position a i) \<and>
     (\<forall>i r. clients a i = Some (Pending r) \<longrightarrow> clients a' i = Some (Pending r) \<or>
        clients a' i \<in> {Some Failing, Some Closed} \<or> (\<exists>n\<ge>length (log a). position a' i = Some (r, n))) \<and>
     (\<forall>i. clients a i \<in> {Some Failing, Some Closed} \<longrightarrow> clients a' i \<in> {Some Failing, Some Closed})"

lemma extends_position: "extends a a' \<Longrightarrow> position a i = Some x \<Longrightarrow> position a' i = Some x"
  unfolding extends_def by (metis option.distinct(1))

lemma extends_refl: "extends a a"
  by (simp add: extends_def)

lemma extends_trans:
  assumes "extends a b" and "extends b c"
  shows "extends a c"
proof -
  have ab: "\<exists>l. log b = log a @ l" and bc: "\<exists>l. log c = log b @ l"
    using assms by (simp_all add: extends_def)
  then have len: "length (log a) \<le> length (log b)" by auto
  have "clients c i = Some (Pending r) \<or> clients c i \<in> {Some Failing, Some Closed} \<or>
      (\<exists>n\<ge>length (log a). position c i = Some (r, n))" if i: "clients a i = Some (Pending r)" for i r
  proof -
    from assms(1) i consider "clients b i = Some (Pending r)" | "clients b i \<in> {Some Failing, Some Closed}"
      | n where "length (log a) \<le> n" "position b i = Some (r, n)" unfolding extends_def by blast
    then show ?thesis
    proof cases
      case 1
      with assms(2) consider "clients c i = Some (Pending r)" | "clients c i \<in> {Some Failing, Some Closed}"
        | n where "length (log b) \<le> n" "position c i = Some (r, n)" unfolding extends_def by blast
      then show ?thesis using len by cases (blast intro: le_trans)+
    qed (use assms(2) in \<open>auto simp: extends_def\<close>)
  qed
  moreover have "position c i = position a i" if "position a i \<noteq> None" for i
    using assms that by (simp add: extends_def)
  moreover have "clients c i \<in> {Some Failing, Some Closed}" if "clients a i \<in> {Some Failing, Some Closed}" for i
    using assms that unfolding extends_def by blast
  moreover have "\<exists>l. log c = log a @ l" using ab bc by auto
  ultimately show ?thesis by (simp add: extends_def)
qed

lemma spec_step_extends:
  assumes "spec_step a a'"
  shows "extends a a'"
  using assms
proof (cases rule: spec_step.cases)
  case (commit i r)
  then show ?thesis by (auto simp: extends_def position_def)
next
  case (forsake i c)
  then show ?thesis by (cases c) (auto simp: extends_def position_def)
next
  case crash
  have "clients a' i \<in> {Some Failing, Some Closed}"
    if "clients a i \<in> {Some Failing, Some Closed} \<or> clients a i = Some (Pending r)" for i r
    using that crash by auto
  with crash show ?thesis unfolding extends_def by (simp del: insert_iff) blast
qed (auto simp: extends_def position_def)

lemma spec_step_inv:
  assumes "spec_step a a'" and "spec_inv b a" and "b \<le> length (log a)"
  shows "spec_inv b a'"
  using assms(1)
proof (cases rule: spec_step.cases)
  case (commit i r)
  then show ?thesis using spec_inv_commit [OF assms(2,3)] by simp
next
  case crash
  with spec_inv_same [OF assms(2), of a'] show ?thesis by simp
qed (auto intro!: spec_inv_same [OF assms(2)] simp: position_def)

lemma spec_run_extends: "spec_run a a' \<Longrightarrow> extends a a'"
  by (induction rule: rtranclp_induct) (auto intro: extends_refl extends_trans spec_step_extends)

lemma extends_log: "extends a a' \<Longrightarrow> length (log a) \<le> length (log a')"
  by (auto simp: extends_def)

lemma spec_run_inv:
  assumes "spec_run a a'" and "spec_inv b a" and "b \<le> length (log a)"
  shows "spec_inv b a'"
  using assms(1)
proof (induction rule: rtranclp_induct)
  case base
  then show ?case using assms(2) by simp
next
  case (step a1 a2)
  have "b \<le> length (log a1)" using assms(3) extends_log [OF spec_run_extends [OF step.hyps(1)]] by simp
  then show ?case using spec_step_inv step by blast
qed

definition spec_start :: "'r list \<Rightarrow> 'r log_spec" where
  "spec_start l = \<lparr>log = l, clients = (\<lambda>_. None)\<rparr>"

lemma spec_inv_start: "spec_inv (length l) (spec_start l)"
  by (simp add: spec_inv_def spec_start_def position_def)

lemma position_unique:
  assumes "spec_inv b a" and "position a i = Some (r, n)" and "position a j = Some (r', n)"
  shows "i = j"
proof -
  have "b \<le> n" "n < length (log a)" using spec_inv_position [OF assms(1,2)] by simp_all
  then have "\<exists>!i. \<exists>r. position a i = Some (r, n)" using assms(1) by (simp add: spec_inv_def)
  then show ?thesis using assms(2,3) by blast
qed

end
