(* ===== verification/Service_Refinement.thy ===== *)
theory Service_Refinement
  imports Life Log_Spec
begin

text \<open>
  The service implements the append-only log of \<open>Log_Spec\<close>, in every life whose restarts
  find the journal in step with the log; and what a client was sent is a receipt that
  verifies, in every life.
\<close>

section \<open>The log it implements\<close>

definition request_of :: "('h, 't) commit_record \<Rightarrow> 'h commit_request" where
  "request_of r = (subject r, commitment r, salt_ref r)"

text \<open>The receipt for a position, as the log serves it.\<close>

definition receipt_at ::
  "('h, 't, 'su, 'ki, 'kp, 'pk, 'ad) api_env \<Rightarrow> ('h, 't, 'su, 'kp, 'pk, 'ad) app_state
     \<Rightarrow> nat \<Rightarrow> json \<Rightarrow> bool" where
  "receipt_at A ap n j \<longleftrightarrow> n < length (entries (app_store ap)) \<and> receipt_view A ap (as_u64 n) = Some (Some j)"

fun outcome_matches ::
  "('h, 't, 'su, 'ki, 'kp, 'pk, 'ad) api_env \<Rightarrow> ('h, 't, 'su, 'kp, 'pk, 'ad) app_state
     \<Rightarrow> store_error + json \<Rightarrow> 'h commit_request client \<Rightarrow> bool" where
  "outcome_matches A ap (Inl e) c \<longleftrightarrow> c = Failing"
| "outcome_matches A ap (Inr j) c \<longleftrightarrow> (\<exists>rq n. c = Committed rq n \<and> receipt_at A ap n j)"

fun task_matches ::
  "('h, 't, 'su, 'ki, 'kp, 'pk, 'ad) api_env \<Rightarrow> ('h, 't, 'su, 'kp, 'pk, 'ad) app_state
     \<Rightarrow> ('h, 't, 'su, 'ki) task \<Rightarrow> 'h commit_request client \<Rightarrow> bool" where
  "task_matches A ap (Accepted rq) c \<longleftrightarrow> c = Pending rq"
| "task_matches A ap (Sequenced res) c \<longleftrightarrow> outcome_matches A ap res c"
| "task_matches A ap (Head_Read res sth) c \<longleftrightarrow> outcome_matches A ap res c"
| "task_matches A ap (Submitted res r) c \<longleftrightarrow> outcome_matches A ap res c"
| "task_matches A ap (Recorded res) c \<longleftrightarrow> outcome_matches A ap res c"
| "task_matches A ap (Answered resp) c \<longleftrightarrow>
     (if resp_status resp = 201
      then \<exists>rq n j. c = Acknowledged rq n \<and> receipt_at A ap n j \<and> json_response A 201 j = Some resp
      else c = Closed)"
| "task_matches A ap Dropped c \<longleftrightarrow> c = Closed \<or> (\<exists>rq n. c = Abandoned rq n)"

definition refines ::
  "('h, 't, 'su, 'ki, 'kp, 'pk, 'ad) api_env \<Rightarrow> ('h, 't, 'su, 'ki, 'kp, 'pk, 'ad) system
     \<Rightarrow> 'h commit_request log_spec \<Rightarrow> bool" where
  "refines A s a \<longleftrightarrow> log a = map request_of (entries (app_store (app s))) \<and>
     (\<forall>i. rel_option (task_matches A (app s)) (tasks s i) (clients a i))"

lemma refines_start: "refines A (idle ap) (spec_start (map request_of (entries (app_store ap))))"
  by (simp add: refines_def spec_start_def idle_def)

lemma receipt_at_grown:
  assumes "app_inv A ap" and "grown A ap ap'" and "receipt_at A ap n j"
  shows "receipt_at A ap' n j"
proof -
  from assms(3) have n: "n < length (entries (app_store ap))" by (simp add: receipt_at_def)
  then have "n < 2 ^ 64" using store_inv_bound [of "dp A" "app_store ap"] assms(1) by (simp add: app_inv_def)
  then have "unat (as_u64 n) < length (entries (app_store ap))" using n by (simp add: as_u64_def unat_of_nat)
  from receipt_view_frozen [OF assms(1,2) this] assms(2,3) show ?thesis
    by (auto simp: receipt_at_def grown_def)
qed

lemma outcome_matches_grown:
  "app_inv A ap \<Longrightarrow> grown A ap ap' \<Longrightarrow> outcome_matches A ap res c \<Longrightarrow> outcome_matches A ap' res c"
  by (cases res) (auto intro: receipt_at_grown)

lemma task_matches_grown:
  assumes "app_inv A ap" and "grown A ap ap'" and "task_matches A ap t c"
  shows "task_matches A ap' t c"
  using assms(3) outcome_matches_grown [OF assms(1,2)]
proof (cases t)
  case (Answered resp)
  then show ?thesis using assms(3) receipt_at_grown [OF assms(1,2)] by (simp split: if_splits) blast
qed auto

text \<open>One obligation per step: the tasks that did not move still match, since the log has
  only grown, and the one that did matches the client's new state.\<close>

lemma refines_step:
  assumes "refines A s a" and "app_inv A (app s)" and "grown A (app s) ap'"
    and "log a' = map request_of (entries (app_store ap'))" and "clients a' = (clients a)(i \<mapsto> c)"
    and "task_matches A ap' t c"
  shows "refines A (set_task i t (s\<lparr>app := ap'\<rparr>)) a'"
proof -
  have "rel_option (task_matches A ap') (tasks s j) (clients a j)" for j
    by (rule option.rel_mono_strong [where R = "task_matches A (app s)"])
      (use assms(1) task_matches_grown [OF assms(2,3)] in \<open>simp_all add: refines_def\<close>)
  with assms(4-6) show ?thesis by (simp add: refines_def)
qed

lemma refines_task:
  assumes "refines A s a" and "clients a' = (clients a)(i \<mapsto> c)" and "log a' = log a" and "task_matches A (app s) t c"
  shows "refines A (set_task i t s) a'"
  using assms by (simp add: refines_def)

lemma refines_client:
  assumes "refines A s a" and "tasks s i = Some t"
  obtains c where "clients a i = Some c" "task_matches A (app s) t c"
proof -
  have "rel_option (task_matches A (app s)) (tasks s i) (clients a i)" using assms(1) by (simp add: refines_def)
  then show thesis using assms(2) that by (cases "clients a i") simp_all
qed

lemma refines_no_client: "refines A s a \<Longrightarrow> tasks s i = None \<Longrightarrow> clients a i = None"
  unfolding refines_def by (metis option.rel_distinct(1) not_None_eq)

lemma commit_append_matches:
  assumes inv: "app_inv A ap" and step: "commit_append A w now ap rq = Some (ap', res)"
  shows "case res of
      Inl e \<Rightarrow> entries (app_store ap') = entries (app_store ap)
    | Inr j \<Rightarrow> \<exists>r. entries (app_store ap') = entries (app_store ap) @ [r] \<and> request_of r = rq \<and>
        receipt_at A ap' (length (entries (app_store ap))) j"
  using step
proof (cases rule: commit_append_cases)
  case (failed sub com salt st' e)
  from store_append_Some_inv [OF inv [unfolded app_inv_def] failed(2)] failed(3,4) show ?thesis by simp
next
  case (sequenced sub com salt st' r rc)
  from store_append_Some_inv [OF inv [unfolded app_inv_def] sequenced(2)]
    store_append_Inr_record [OF sequenced(2)] sequenced
  show ?thesis
    by (simp add: receipt_at_def receipt_view_def operator_view_def request_of_def next_record_def store_size_def)
qed

lemma refines_restart:
  assumes "refines A s a" and "app_inv A (app s)" and "grown A (app s) ap'"
    and "entries (app_store ap') = entries (app_store (app s))"
  shows "refines A (restarted ap' s) (a\<lparr>clients := map_option forsaken \<circ> clients a\<rparr>)"
proof -
  have "rel_option (task_matches A ap') (map_option interrupted (tasks s i)) (map_option forsaken (clients a i))" for i
  proof -
    have "task_matches A ap' (interrupted t) (forsaken c)" if "task_matches A (app s) t c" for t c
      using task_matches_grown [OF assms(2,3) that] that
      by (cases t; cases c) (auto elim: outcome_matches.elims split: if_splits)
    then show ?thesis using assms(1) unfolding refines_def option.rel_map
      by (metis (mono_tags, lifting) option.rel_mono_strong)
  qed
  with assms(1,4) show ?thesis by (simp add: refines_def)
qed

text \<open>A task whose outcome is known answers with it.\<close>

lemma outcome_answered:
  assumes "outcome_matches A ap res c" and "commit_response A res = Some resp" and "clients a i = Some c"
  shows "\<exists>c'. spec_step a (set_client i c' a) \<and> task_matches A ap (Answered resp) c'"
proof (cases res)
  case (Inl e)
  then have "resp_status resp \<noteq> 201" using commit_response_201 [OF assms(2)] by auto
  moreover have "clients a i = Some Failing" using assms(1,3) Inl by simp
  ultimately show ?thesis by (intro exI [of _ Closed]) (simp add: spec_step.decline)
next
  case (Inr j)
  then obtain rq n where c: "c = Committed rq n" and n: "receipt_at A ap n j" using assms(1) by auto
  have j: "json_response A 201 j = Some resp" using assms(2) Inr by (simp add: commit_response_def)
  moreover have "resp_status resp = 201" using same_json_body [OF j, of 201] j by simp
  moreover have "clients a i = Some (Committed rq n)" using assms(3) c by simp
  ultimately show ?thesis using n
    by (intro exI [of _ "Acknowledged rq n"] conjI spec_step.acknowledge) (auto simp del: split_paired_Ex)
qed

lemma outcome_dropped: "outcome_matches A ap res c \<Longrightarrow> task_matches A ap Dropped (forsaken c)"
  by (cases res) auto

lemma gives_up_dropped:
  assumes "task_matches A ap t c" and "gives_up A s t"
  shows "task_matches A ap Dropped (forsaken c)"
  using assms outcome_dropped by (cases t) (auto simp: gives_up_def)

lemma refines_poisoned [simp]: "refines A (s\<lparr>poisoned := b\<rparr>) a \<longleftrightarrow> refines A s a"
  by (simp add: refines_def)

lemma refines_idle_client:
  assumes "refines A s a" and "tasks s i = Some t" and "\<And>c. task_matches A (app s) t c \<Longrightarrow> task_matches A (app s) t' c"
  shows "refines A (set_task i t' s) a"
proof -
  from refines_client [OF assms(1,2)] obtain c where "clients a i = Some c" "task_matches A (app s) t c" .
  then show ?thesis using assms(3) by (intro refines_task [OF assms(1), of a i c]) (auto simp: fun_upd_idem)
qed

lemma refines_answer:
  assumes "refines A s a" and "tasks s i = Some t" and "commit_response A res = Some resp"
    and "\<And>c. task_matches A (app s) t c \<Longrightarrow> outcome_matches A (app s) res c"
  shows "\<exists>a'. spec_run a a' \<and> refines A (set_task i (Answered resp) s) a'"
proof -
  from refines_client [OF assms(1,2)] obtain c where c: "clients a i = Some c" "outcome_matches A (app s) res c"
    using assms(4) by blast
  from outcome_answered [OF c(2) assms(3) c(1)] obtain c' where
    "spec_step a (set_client i c' a)" "task_matches A (app s) (Answered resp) c'" by blast
  then show ?thesis using refines_task [OF assms(1), of "set_client i c' a" i c' "Answered resp"]
    by (metis client_simps r_into_rtranclp)
qed

lemma refines_sequence:
  assumes "refines A s a" and "app_inv A (app s)" and "tasks s i = Some (Accepted rq)"
    and "commit_append A w now (app s) rq = Some (ap', res)"
  shows "\<exists>a'. spec_run a a' \<and> refines A (set_task i (Sequenced res) (s\<lparr>app := ap'\<rparr>)) a'"
proof -
  from refines_client [OF assms(1,3)] have c: "clients a i = Some (Pending rq)" by force
  have l: "log a = map request_of (entries (app_store (app s)))" using assms(1) by (simp add: refines_def)
  note g = commit_append_Some(1) [OF assms(2,4)] and m = commit_append_matches [OF assms(2,4)]
  show ?thesis
  proof (cases res)
    case (Inl e)
    have "spec_step a (set_client i Failing a)" by (rule spec_step.fail [OF c])
    moreover have "refines A (set_task i (Sequenced res) (s\<lparr>app := ap'\<rparr>)) (set_client i Failing a)"
      by (rule refines_step [OF assms(1,2) g]) (use m l Inl in simp_all)
    ultimately show ?thesis by blast
  next
    case (Inr j)
    let ?a = "set_client i (Committed rq (length (log a))) (a\<lparr>log := log a @ [rq]\<rparr>)"
    have "spec_step a ?a" by (rule spec_step.commit [OF c])
    moreover have "refines A (set_task i (Sequenced res) (s\<lparr>app := ap'\<rparr>)) ?a"
      by (rule refines_step [OF assms(1,2) g]) (use m l Inr in \<open>auto simp del: split_paired_Ex\<close>)
    ultimately show ?thesis by blast
  qed
qed

text \<open>An entry whose receipt was not signed: the log has it, its client will not hear of it.\<close>

lemma refines_panic:
  assumes "refines A s a" and "app_inv A (app s)" and "tasks s i = Some (Accepted rq)"
    and "commit_append_panic A w now (app s) rq = Some ap'"
  shows "\<exists>a'. spec_run a a' \<and> refines A (set_task i Dropped (s\<lparr>app := ap', poisoned := True\<rparr>)) a'"
proof -
  from refines_client [OF assms(1,3)] have c: "clients a i = Some (Pending rq)" by force
  have l: "log a = map request_of (entries (app_store (app s)))" using assms(1) by (simp add: refines_def)
  note g = commit_append_panic_grown [OF assms(2,4)]
  let ?a1 = "set_client i (Committed rq (length (log a))) (a\<lparr>log := log a @ [rq]\<rparr>)"
  let ?a2 = "set_client i (Abandoned rq (length (log a))) ?a1"
  have "spec_step a ?a1" by (rule spec_step.commit [OF c])
  moreover have "spec_step ?a1 ?a2"
    using spec_step.forsake [of ?a1 i "Committed rq (length (log a))"] by simp
  moreover have "refines A (set_task i Dropped (s\<lparr>app := ap'\<rparr>)) ?a2"
    by (rule refines_step [OF assms(1,2) g(1)]) (use g(4) l in \<open>auto simp: request_of_def\<close>)
  ultimately show ?thesis unfolding set_task_poisoned refines_poisoned
    by (meson converse_rtranclp_into_rtranclp r_into_rtranclp)
qed

lemma commit_square:
  assumes "commit_step A s s'" and "app_inv A (app s)" and "refines A s a"
  shows "\<exists>a'. spec_run a a' \<and> refines A s' a'"
  using assms
proof (induction rule: commit_step.induct)
  case (accept s i headers body rq)
  have "spec_step a (set_client i (Pending rq) a)"
    by (rule spec_step.request) (rule refines_no_client [OF accept(4,1)])
  moreover have "refines A (set_task i (Accepted rq) s) (set_client i (Pending rq) a)"
    by (rule refines_task [OF accept(4)]) simp_all
  ultimately show ?case by blast
next
  case (refuse s i headers body resp)
  have "spec_step a (set_client i Closed a)"
    by (rule spec_step.reject) (rule refines_no_client [OF refuse(4,1)])
  moreover have "resp_status resp \<noteq> 201" using check_commit_refusal [OF refuse(2)] by auto
  then have "refines A (set_task i (Answered resp) s) (set_client i Closed a)"
    by (intro refines_task [OF refuse(4)]) simp_all
  ultimately show ?case by blast
next
  case (sequence s i rq w now app' res)
  from refines_sequence [OF sequence(5,4,2,3)] show ?case .
next
  case (panic s i rq w now app')
  from refines_panic [OF panic(5,4,2,3)] show ?case .
next
  case (read s i res url sth)
  have "refines A (set_task i (Head_Read res sth) s) a" by (rule refines_idle_client [OF read(6,2)]) simp
  then show ?case by blast
next
  case (submit s i res sth url E now r)
  have "refines A (set_task i (Submitted res r) s) a" by (rule refines_idle_client [OF submit(6,1)]) simp
  then show ?case by blast
next
  case (give_up s i t)
  from refines_client [OF give_up(4,1)] obtain c where c: "clients a i = Some c" "task_matches A (app s) t c" .
  have "spec_step a (set_client i (forsaken c) a)" by (rule spec_step.forsake [OF c(1)])
  moreover have "refines A (set_task i Dropped s) (set_client i (forsaken c) a)"
    by (rule refines_task [OF give_up(4)]) (use gives_up_dropped [OF c(2) give_up(2)] in simp_all)
  ultimately show ?case by blast
next
  case (finish s i res r)
  from refines_client [OF finish(3,1)] obtain c where c: "clients a i = Some c" "outcome_matches A (app s) res c"
    by auto
  note g = grown_tsa [OF finish(2), of "Some r"]
  have "refines A (set_task i (Recorded res) (s\<lparr>app := (app s)\<lparr>app_tsa := Some r\<rparr>\<rparr>)) a"
    by (rule refines_step [OF finish(3,2) g])
      (use c outcome_matches_grown [OF finish(2) g] finish(3) in \<open>auto simp: refines_def fun_upd_idem\<close>)
  then show ?case by blast
next
  case (answer s i res resp)
  then show ?case using refines_answer [of A s a i "Recorded res" res resp] by simp
next
  case (answer_unanchored s i res resp)
  then show ?case using refines_answer [of A s a i "Sequenced res" res resp] by simp
qed

text \<open>A process that ended after the last byte of a line: the entry is in the log of the next
  one, and its client, who was waiting, will not hear of it.\<close>

lemma refines_restart_whole:
  assumes "refines A s a" and "app_inv A (app s)" and "grown A (app s) ap'"
    and "tasks s i = Some (Accepted rq)" and "entries (app_store ap') = entries (app_store (app s)) @ [r]"
    and "request_of r = rq"
  shows "\<exists>a'. spec_run a a' \<and> refines A (restarted ap' s) a'"
proof -
  from refines_client [OF assms(1,4)] have c: "clients a i = Some (Pending rq)" by force
  let ?a1 = "set_client i (Committed rq (length (log a))) (a\<lparr>log := log a @ [rq]\<rparr>)"
  let ?a2 = "set_client i (Abandoned rq (length (log a))) ?a1"
  let ?s = "set_task i Dropped (s\<lparr>app := ap'\<rparr>)"
  let ?a3 = "?a2\<lparr>clients := map_option forsaken \<circ> clients ?a2\<rparr>"
  have s1: "spec_step a ?a1" by (rule spec_step.commit [OF c])
  have s2: "spec_step ?a1 ?a2"
    using spec_step.forsake [of ?a1 i "Committed rq (length (log a))"] by simp
  have s3: "spec_step ?a2 ?a3" by (rule spec_step.crash)
  have "spec_run a ?a3"
    by (intro converse_rtranclp_into_rtranclp [where r = spec_step, OF s1]
        converse_rtranclp_into_rtranclp [where r = spec_step, OF s2] r_into_rtranclp [where r = spec_step] s3)
  moreover have "refines A ?s ?a2"
    by (rule refines_step [OF assms(1-3)]) (use assms(1,5,6) in \<open>auto simp: refines_def simp del: split_paired_Ex\<close>)
  then have "refines A (restarted ap' ?s) ?a3"
    by (rule refines_restart) (use assms(3) in \<open>simp_all add: grown_refl grown_def\<close>)
  moreover have "restarted ap' ?s = restarted ap' s" using assms(4) by (auto simp: restarted_def)
  ultimately show ?thesis by metis
qed

lemma life_square:
  assumes "life_step A (in_step A) s s'" and "service_inv A s" and "refines A s a"
  shows "\<exists>a'. spec_run a a' \<and> refines A s' a'"
  using assms
proof (induction rule: life_step.induct)
  case (work s s')
  then show ?case using commit_square [of A s s' a] by (simp add: service_inv_app)
next
  case (restart fs ct s ap')
  note k = restart_in_step [OF restart(5,1,3,4)]
  note inv = service_inv_app [OF restart(5)]
  show ?case
  proof (cases "entries (app_store ap') = entries (app_store (app s))")
    case True
    from refines_restart [OF restart(6) inv k(2) True] spec_step.crash [of a] show ?thesis by blast
  next
    case False
    then obtain r n where ct: "ct = Some (r, n)" and e: "entries (app_store ap') = entries (app_store (app s)) @ [r]"
      using k(1) by (cases ct) (auto split: if_splits)
    obtain i sub com salt now where i: "tasks s i = Some (Accepted (sub, com, salt))"
      "r = next_record (app_store (app s)) sub com salt now" using restart(2) ct unfolding being_written_def by blast
    have "request_of r = (sub, com, salt)" using i(2) by (simp add: request_of_def next_record_def)
    from refines_restart_whole [OF restart(6) inv k(2) i(1) e this] show ?thesis .
  qed
qed

interpretation svc: forward_simulation "life_step A (in_step A)" spec_step "service_inv A" "refines A" for A
  by unfold_locales (use life_step_inv life_square in blast)+

section \<open>What each client gets\<close>

definition acknowledged ::
  "('h, 't, 'su, 'ki, 'kp, 'pk, 'ad) system \<Rightarrow> nat \<Rightarrow> http_response \<Rightarrow> bool" where
  "acknowledged s i resp \<longleftrightarrow> tasks s i = Some (Answered resp) \<and> resp_status resp = 201"

text \<open>The position that the specification gave to a client.\<close>

definition position_of :: "'r log_spec \<Rightarrow> nat \<Rightarrow> nat" where
  "position_of a i = (case position a i of Some (r, n) \<Rightarrow> n | None \<Rightarrow> 0)"

lemma acknowledged_position:
  assumes "refines A s a" and "acknowledged s i resp"
  obtains rq j where "position a i = Some (rq, position_of a i)" "receipt_at A (app s) (position_of a i) j"
    "json_response A 201 j = Some resp"
proof -
  from assms(2) have t: "tasks s i = Some (Answered resp)" "resp_status resp = 201"
    by (simp_all add: acknowledged_def)
  from refines_client [OF assms(1) t(1)] obtain c where c: "clients a i = Some c"
    "task_matches A (app s) (Answered resp) c" .
  with t(2) obtain rq n j where "c = Acknowledged rq n" "receipt_at A (app s) n j" "json_response A 201 j = Some resp"
    by (auto simp del: split_paired_Ex)
  with c(1) show thesis by (intro that [of rq j]) (simp_all add: position_of_def position_def)
qed

lemma receipt_at_served:
  assumes "app_inv A ap" and "receipt_at A ap n j" and "json_response A 201 j = Some resp"
  shows "\<exists>resp'. receipt_handler A ap (show_nat n) = Some resp' \<and> resp_status resp' = 200 \<and>
    resp_body resp' = resp_body resp"
proof -
  from assms(2) have n: "n < length (entries (app_store ap))" "receipt_view A ap (as_u64 n) = Some (Some j)"
    by (simp_all add: receipt_at_def)
  then have "unat (as_u64 n) = n"
    using store_inv_bound [of "dp A" "app_store ap"] assms(1) by (simp add: app_inv_def as_u64_def unat_of_nat)
  with receipt_handler_view [OF n(2)] same_json_body [OF assms(3), of 200] show ?thesis by auto
qed

text \<open>The body a client was sent is the print of the receipt of an entry.\<close>

lemma acknowledged_body:
  assumes "service_inv A s" and "refines A s a" and "acknowledged s i resp"
  obtains sq rc where "unat sq < length (entries (app_store (app s)))"
    "receipt_of (dp A) (sg A) (app_store (app s)) sq (log_id_of (app s)) (key_of (app s)) = Some (Some rc)"
    "to_string_pretty A (receipt_to_json (dp A) (sg A) rc (operator_view A (app s))) = Inr (resp_body resp)"
proof -
  from acknowledged_position [OF assms(2,3)] obtain n j where
    n: "receipt_at A (app s) n j" "json_response A 201 j = Some resp" by blast
  have "app_inv A (app s)" using assms(1) by (simp add: service_inv_def system_inv_appD)
  then have "unat (as_u64 n) < length (entries (app_store (app s)))"
    using n(1) store_inv_bound [of "dp A" "app_store (app s)"]
    by (simp add: receipt_at_def app_inv_def as_u64_def unat_of_nat)
  moreover from n(1) obtain rc where
    "receipt_of (dp A) (sg A) (app_store (app s)) (as_u64 n) (log_id_of (app s)) (key_of (app s)) = Some (Some rc)"
    "j = receipt_to_json (dp A) (sg A) rc (operator_view A (app s))"
    by (auto simp: receipt_at_def receipt_view_def)
  ultimately show thesis using n(2) that
    by (auto simp: json_response_def build_response_def split: sum.splits)
qed

lemma life_positions:
  assumes "service_inv A s1" and "steady_life A s1 s2" and "refines A s1 a1" and "spec_inv b a1" and "b \<le> length (log a1)"
  obtains a2 where "extends a1 a2" "refines A s2 a2" "spec_inv b a2" "service_inv A s2"
proof -
  from svc.run_simulated [OF assms(2,1,3)] obtain a2 where a2: "spec_run a1 a2" "refines A s2 a2" by blast
  from that [OF spec_run_extends [OF a2(1)] a2(2) spec_run_inv [OF a2(1) assms(4,5)]
      svc.run_keeps [OF assms(2,1)]] show thesis .
qed

lemma pending_then_acknowledged:
  assumes "refines A s1 a1" and "refines A s2 a2" and "extends a1 a2"
    and "tasks s1 i = Some (Accepted rq)" and "acknowledged s2 i resp"
  shows "position a2 i = Some (rq, position_of a2 i)" and "length (log a1) \<le> position_of a2 i"
proof -
  from refines_client [OF assms(1,4)] have "clients a1 i = Some (Pending rq)" by force
  moreover from acknowledged_position [OF assms(2,5)] obtain rq' where
    p: "position a2 i = Some (rq', position_of a2 i)" by blast
  then have "clients a2 i \<noteq> Some (Pending rq)" "clients a2 i \<notin> {Some Failing, Some Closed}"
    by (auto simp: position_def)
  ultimately have "\<exists>n\<ge>length (log a1). position a2 i = Some (rq, n)"
    using assms(3) unfolding extends_def by blast
  with p show "position a2 i = Some (rq, position_of a2 i)" "length (log a1) \<le> position_of a2 i" by auto
qed

lemma acknowledged_before:
  assumes "refines A s1 a1" and "extends a1 a2" and "acknowledged s1 i resp"
  shows "position_of a2 i < length (log a1)"
proof -
  from acknowledged_position [OF assms(1,3)] obtain rq j where
    p: "position a1 i = Some (rq, position_of a1 i)" "receipt_at A (app s1) (position_of a1 i) j" by blast
  moreover have "position a2 i = position a1 i" using extends_position [OF assms(2) p(1)] p(1) by simp
  ultimately show ?thesis using assms(1) by (simp add: position_of_def refines_def receipt_at_def)
qed

section \<open>What a client holds, in every life\<close>

text \<open>A receipt that some well-formed store has issued for one of its entries.\<close>

definition issued ::
  "('h, 't, 'su, 'ki, 'kp, 'pk, 'ad) api_env \<Rightarrow> ('h, 't, 'su, 'kp, 'pk, 'ad) app_state \<Rightarrow> json \<Rightarrow> bool" where
  "issued A ap j \<longleftrightarrow> (\<exists>st sq rc. store_inv (dp A) st \<and> unat sq < length (entries st) \<and>
     receipt_of (dp A) (sg A) st sq (log_id_of ap) (key_of ap) = Some (Some rc) \<and>
     j = receipt_to_json (dp A) (sg A) rc (operator_view A ap))"

definition answers_issued ::
  "('h, 't, 'su, 'ki, 'kp, 'pk, 'ad) api_env \<Rightarrow> ('h, 't, 'su, 'ki, 'kp, 'pk, 'ad) system \<Rightarrow> bool" where
  "answers_issued A s \<longleftrightarrow> (\<forall>i resp. acknowledged s i resp \<longrightarrow>
     (\<exists>j. issued A (app s) j \<and> json_response A 201 j = Some resp))"

lemma held_receipt_issued: "app_inv A ap \<Longrightarrow> held_receipt A ap (Inr j) \<Longrightarrow> issued A ap j"
  unfolding held_receipt_def issued_def receipt_view_def app_inv_def by auto

lemma issued_operator: "app_operator ap' = app_operator ap \<Longrightarrow> issued A ap' j \<longleftrightarrow> issued A ap j"
  by (simp add: issued_def operator_view_def)

lemma answers_issued_kept:
  assumes "answers_issued A s" and "app_operator (app s') = app_operator (app s)"
    and "\<And>i resp. acknowledged s' i resp \<Longrightarrow> acknowledged s i resp"
  shows "answers_issued A s'"
  using issued_operator [OF assms(2)] assms(1,3) unfolding answers_issued_def by blast

lemma answers_issued_answer:
  assumes "answers_issued A s" and "app_inv A (app s)" and "held_receipt A (app s) res"
    and "commit_response A res = Some resp"
  shows "answers_issued A (set_task i (Answered resp) s)"
proof -
  have "\<exists>j. issued A (app s) j \<and> json_response A 201 j = Some resp" if r: "resp_status resp = 201"
  proof -
    from commit_response_201 [OF assms(4) r] obtain j where "res = Inr j" "json_response A 201 j = Some resp" by auto
    with held_receipt_issued [OF assms(2)] assms(3) show ?thesis by blast
  qed
  with assms(1) show ?thesis by (auto simp: answers_issued_def acknowledged_def split: if_splits)
qed

lemma commit_step_issued:
  assumes "commit_step A s s'" and "system_inv A s" and "answers_issued A s"
  shows "answers_issued A s'"
proof -
  note inv = system_inv_appD [OF assms(2)]
  have op: "app_operator (app s') = app_operator (app s)"
    using commit_step_inv [OF assms(1,2)] by (simp add: grown_def)
  note same = answers_issued_kept [OF assms(3) op]
  show ?thesis
    using assms(1)
  proof (cases rule: commit_step.cases)
    case (refuse i headers body resp)
    then show ?thesis using check_commit_refusal [OF refuse(3)]
      by (intro same) (auto simp: acknowledged_def split: if_splits)
  next
    case (answer i res resp)
    from answers_issued_answer [OF assms(3) inv _ answer(3)] system_inv_taskD [OF assms(2) answer(2)] answer(1)
    show ?thesis by simp
  next
    case (answer_unanchored i res resp)
    from answers_issued_answer [OF assms(3) inv _ answer_unanchored(4)]
      system_inv_taskD [OF assms(2) answer_unanchored(2)] answer_unanchored(1)
    show ?thesis by simp
  qed (rule same, force simp: acknowledged_def split: if_splits)+
qed

lemma life_issued:
  assumes "(life_step A P)\<^sup>*\<^sup>* s s'" and "service_inv A s" and "answers_issued A s"
  shows "answers_issued A s'"
  using assms
proof (induction rule: rtranclp_induct)
  case (step s1 s2)
  have s1: "service_inv A s1" "answers_issued A s1"
    using life_inv(1) [OF step.hyps(1) step.prems(1)] step by blast+
  show ?case
    using step.hyps(2)
  proof (cases rule: life_step.cases)
    case work
    with commit_step_issued s1 show ?thesis by (auto simp: service_inv_def)
  next
    case (restart fs ct ap')
    have "app_operator (app s2) = app_operator (app s1)" using life_step_inv [OF step.hyps(2) s1(1)] by simp
    with s1(2) restart(1) show ?thesis by (intro answers_issued_kept [OF s1(2)]) (auto simp: acknowledged_def)
  qed
qed

text \<open>So the body of every 201 is the print of such a receipt.\<close>

lemma acknowledged_issued:
  assumes "app_new A c = Some (Inr ap)" and "(life_step A P)\<^sup>*\<^sup>* (idle ap) s" and "acknowledged s i resp"
  obtains st sq rc where "store_inv (dp A) st" "unat sq < length (entries st)"
    "receipt_of (dp A) (sg A) st sq (log_id_of ap) (key_of ap) = Some (Some rc)"
    "to_string_pretty A (receipt_to_json (dp A) (sg A) rc (operator_view A ap)) = Inr (resp_body resp)"
proof -
  note start = service_inv_start [OF assms(1)]
  have "answers_issued A (idle ap)" by (simp add: answers_issued_def acknowledged_def idle_def)
  from life_issued [OF assms(2) start this] assms(3) obtain j where
    j: "issued A (app s) j" "json_response A 201 j = Some resp" unfolding answers_issued_def by blast
  have "app_operator (app s) = app_operator ap" using life_inv(3) [OF assms(2) start] by (simp add: idle_def)
  from issued_operator [OF this] j(1) have "issued A ap j" by blast
  then obtain st sq rc where k: "store_inv (dp A) st" "unat sq < length (entries st)"
    "receipt_of (dp A) (sg A) st sq (log_id_of ap) (key_of ap) = Some (Some rc)"
    "j = receipt_to_json (dp A) (sg A) rc (operator_view A ap)" unfolding issued_def by blast
  have "to_string_pretty A j = Inr (resp_body resp)"
    using j(2) by (auto simp: json_response_def build_response_def split: sum.splits)
  with that [OF k(1-3)] k(4) show thesis by simp
qed

text \<open>What a verifier makes of it.\<close>

lemma receipt_json_verifies:
  assumes "store_inv D st" and "unat sq < length (entries st)"
    and "receipt_of D S st sq lid op = Some (Some rc)" and "text_forms_ok D" and "sign_text_ok S"
    and "\<forall>bs sig. sign_tree_head S op bs = Some sig \<longrightarrow>
       verify_tree_head S (public_of S op) bs sig \<and> signature_value sig \<noteq> None"
  shows "\<exists>h p sth pf r. get (receipt_to_json D S rc info) ''tree_head'' = Some h \<and>
    get (receipt_to_json D S rc info) ''inclusion'' = Some p \<and>
    sth_from_json D S h = Some (Inr sth) \<and> proof_from_json D p = Inr pf \<and>
    record_from_json D (receipt_to_json D S rc info) = Inr r \<and>
    verify_tree_head S (public_of S op)
      (canonical_bytes S (sth_log_id sth) (sth_tree_size sth) (sth_timestamp sth) (sth_root sth))
      (sth_signature sth) \<and>
    accepts_inclusion (leaf_hash D) (node_hash D) (commitment r) (unat (leaf_index pf))
      (unat (sth_tree_size sth)) (path pf) (sth_root sth) \<and>
    seq r = leaf_index pf \<and> unat (leaf_index pf) < length (entries st) \<and> entries st ! unat (leaf_index pf) = r"
proof -
  note r = receipt_of_verifies [OF assms(1-3)]
  from assms(6) [rule_format, OF r(6)] obtain bs where
    sig: "verify_tree_head S (public_of S op)
      (canonical_bytes S (sth_log_id (tree_head rc)) (sth_tree_size (tree_head rc))
        (sth_timestamp (tree_head rc)) (sth_root (tree_head rc))) (sth_signature (tree_head rc))"
    "signature_value (sth_signature (tree_head rc)) = Some bs" by blast
  have "seq (receipt_record rc) = sq" using store_inv_nth_seq [OF assms(1), of "unat sq"] assms(2) r(1) by (simp add: as_u64_def)
  with receipt_wire [OF assms(4,5) r(5) sig(2)] sig(1) r(1,2,7) assms(2) show ?thesis by metis
qed

end
