(* ===== verification/Progress.thy ===== *)
theory Progress
  imports Service_Refinement
begin

text \<open>
  The handlers answer: every endpoint returns a response for every request. What keeps a
  submission from returning, what a life keeps that answering relies on, and the schedule
  in which two submissions overtake each other.
\<close>

section \<open>What answering relies on\<close>

text \<open>JSON values print; the signatif crate attaches the anchor it is asked for; the
  clock is not within a minute of the end of \<open>i64\<close>.\<close>

definition pretty_ok :: "('h, 't, 'su, 'ki, 'kp, 'pk, 'ad) api_env \<Rightarrow> bool" where
  "pretty_ok A \<longleftrightarrow> (\<forall>v. \<exists>s. to_string_pretty A v = Inr s)"

definition anchors_ok :: "('h, 't, 'su, 'ki, 'kp, 'pk, 'ad) api_env \<Rightarrow> bool" where
  "anchors_ok A \<longleftrightarrow> (\<forall>sth url. sth_external_anchor (anchored_externally A sth url) \<noteq> None)"

definition clock_ok :: "('h, 't) tsa_env \<Rightarrow> 't \<Rightarrow> bool" where
  "clock_ok E now \<longleftrightarrow> - (2 ^ 63) \<le> ts_secs E now + 60 \<and> ts_secs E now + 60 < 2 ^ 63"

lemma json_response_total:
  "pretty_ok A \<Longrightarrow> \<exists>resp. json_response A n v = Some resp \<and> resp_status resp = n"
proof -
  assume "pretty_ok A"
  then obtain s where "to_string_pretty A v = Inr s" unfolding pretty_ok_def by blast
  then show ?thesis by (simp add: json_response_def build_response_def)
qed

lemma error_response_total:
  "pretty_ok A \<Longrightarrow> \<exists>resp. error_response A n msg = Some resp \<and> resp_status resp = n"
  by (simp add: error_response_def json_response_total)

lemma commit_response_total:
  assumes "pretty_ok A"
  shows "\<exists>resp. commit_response A res = Some resp \<and>
    resp_status resp = (case res of Inl _ \<Rightarrow> 500 | Inr _ \<Rightarrow> 201)"
  using assms by (cases res)
    (simp_all add: commit_response_def store_error_response_def json_response_total error_response_total)

lemma refusal_total:
  assumes "pretty_ok A" and "check_commit A ap headers body = Inl x"
  shows "\<exists>resp. x = Some resp \<and> resp_status resp \<in> {400, 401}"
  using check_commit_Inl [OF assms(2)] error_response_total [OF assms(1)]
  by (metis bad_request_def insertCI unauthorized_def)

section \<open>A request running alone\<close>

lemma commit_total:
  assumes "app_inv A ap" and "has_room (app_store ap)" and "can_sign A ap" and "pretty_ok A"
    and "\<And>url sth. external_tsa_url (app_config ap) = Some url \<Longrightarrow> submit_head A now' url sth \<noteq> None"
  shows "\<exists>ap' resp. commit A w now now' ap headers body = Some (ap', resp) \<and> grown A ap ap' \<and>
    resp_status resp \<in> {201, 400, 401, 500} \<and>
    (if resp_status resp = 201
     then \<exists>r. entries (app_store ap') = entries (app_store ap) @ [r]
     else entries (app_store ap') = entries (app_store ap))"
proof (cases "check_commit A ap headers body")
  case (Inl x)
  with refusal_total [OF assms(4) Inl] obtain resp where
    "commit A w now now' ap headers body = Some (ap, resp)" "resp_status resp \<in> {400, 401}"
    by (auto simp: commit_def)
  with assms(1) show ?thesis by (intro exI [of _ ap] exI [of _ resp]) (auto simp: grown_refl)
next
  case (Inr rq)
  from commit_append_spec [OF assms(1-3), of w now rq] obtain ap1 res where
    a: "commit_append A w now ap rq = Some (ap1, res)" "grown A ap ap1"
    and res: "case res of
       Inl e \<Rightarrow> entries (app_store ap1) = entries (app_store ap)
     | Inr j \<Rightarrow> entries (app_store ap1) = entries (app_store ap)
           @ [next_record (app_store ap) (fst rq) (fst (snd rq)) (snd (snd rq)) now] \<and>
         receipt_view A ap1 (store_size (app_store ap)) = Some (Some j)" by blast
  from commit_response_total [OF assms(4), of res] obtain resp where
    resp: "commit_response A res = Some resp" "resp_status resp = (case res of Inl _ \<Rightarrow> 500 | Inr _ \<Rightarrow> 201)"
    by blast
  have inv1: "app_inv A ap1" using a(2) by (simp add: grown_def)
  have "\<exists>x. commit A w now now' ap headers body = Some (ap1\<lparr>app_tsa := x\<rparr>, resp)"
  proof (cases "external_tsa_url (app_config ap)")
    case None
    with Inr a(1) resp(1) show ?thesis by (auto simp: commit_def intro!: exI [of _ "app_tsa ap1"])
  next
    case (Some url)
    obtain h where h: "read_head A ap1 = Some h" using read_head_total [OF inv1] by blast
    show ?thesis
    proof (cases h)
      case None
      with Inr a(1) resp(1) h Some show ?thesis
        by (auto simp: commit_def intro!: exI [of _ "app_tsa ap1"])
    next
      case sth: (Some sth)
      obtain r where "submit_head A now' url sth = Some r" using assms(5) [OF Some, of sth] by blast
      with Inr a(1) resp(1) h Some sth show ?thesis by (simp add: commit_def) blast
    qed
  qed
  then obtain x where "commit A w now now' ap headers body = Some (ap1\<lparr>app_tsa := x\<rparr>, resp)" ..
  moreover have "grown A ap (ap1\<lparr>app_tsa := x\<rparr>)" using a(2) by (simp add: grown_def app_inv_def)
  ultimately show ?thesis using res resp(2) by (cases res) auto
qed

section \<open>The read endpoints\<close>

lemma store_root_at_size_total:
  assumes "store_inv D st" and "unat n \<le> length (entries st)"
  shows "\<exists>r. store_root_at_size D st n = Some r"
proof (cases "0 < unat n")
  case True
  then show ?thesis using reads.root_at_pos [OF assms(1,2)] by simp
next
  case False
  then have "n = 0" by (simp add: unat_eq_0)
  then show ?thesis by (simp add: store_root_at_size_def root_at_size_def)
qed

lemma tree_consistency_total:
  assumes "app_inv A ap" and "pretty_ok A"
  shows "\<exists>resp. tree_consistency A ap params = Some resp \<and> resp_status resp \<in> {200, 400}"
proof -
  have inv: "store_inv (dp A) (app_store ap)" using assms(1) by (simp add: app_inv_def)
  have bad: "\<exists>resp. bad_request A m = Some resp \<and> resp_status resp = 400" for m
    using error_response_total [OF assms(2)] by (simp add: bad_request_def)
  have sz: "unat (store_size (app_store ap)) \<le> length (entries (app_store ap))" using inv by simp
  show ?thesis
  proof (cases "map_option trim (params ''from'')")
    case None
    then show ?thesis using bad by (simp add: tree_consistency_def) blast
  next
    case s: (Some s)
    show ?thesis
    proof (cases "s = [] \<or> parse_u64 s = None \<or> (\<exists>n. parse_u64 s = Some n \<and> store_size (app_store ap) < n)")
      case True
      then show ?thesis using s bad by (auto simp: tree_consistency_def split: option.split) (metis)+
    next
      case False
      then obtain n where n: "s \<noteq> []" "parse_u64 s = Some n" "\<not> store_size (app_store ap) < n"
        by (cases "parse_u64 s") auto
      then have le: "unat n \<le> length (entries (app_store ap))" using inv by (simp add: word_less_nat_alt)
      obtain old rt where "store_root_at_size (dp A) (app_store ap) n = Some old"
        "store_root (dp A) (app_store ap) = Some rt"
        using store_root_at_size_total [OF inv le] store_root_at_size_total [OF inv sz] store_root_eq [OF inv] by metis
      moreover note reads.cons_ents [OF inv le]
      ultimately have "\<exists>v. tree_consistency A ap params = json_response A 200 v"
        using s n by (auto simp: tree_consistency_def)
      then show ?thesis using json_response_total [OF assms(2), of 200] by fastforce
    qed
  qed
qed

lemma receipt_handler_total:
  assumes "app_inv A ap" and "pretty_ok A"
  shows "\<exists>resp. receipt_handler A ap sq = Some resp \<and> resp_status resp \<in> {200, 400, 404}"
proof (cases "parse_u64 (trim sq)")
  case None
  then show ?thesis using error_response_total [OF assms(2), of 400]
    by (auto simp: receipt_handler_def bad_request_def)
next
  case (Some n)
  have "store_inv (dp A) (app_store ap)" using assms(1) by (simp add: app_inv_def)
  then obtain r where "receipt_of (dp A) (sg A) (app_store ap) n (log_id_of ap) (key_of ap) = Some r"
    using receipt_of_total by fastforce
  with Some show ?thesis
    using json_response_total [OF assms(2), of 200] error_response_total [OF assms(2), of 404]
    by (cases r) (auto simp: receipt_handler_def not_found_def)
qed

lemma read_total:
  assumes "app_inv A ap" and "pretty_ok A" and "ep \<noteq> Commit"
  shows "\<exists>resp. serve A w now now' ap ep rq = Some (ap, resp) \<and> resp_status resp \<in> {200, 400, 404}"
proof (cases ep)
  case Discovery
  then show ?thesis using json_response_total [OF assms(2), of 200] by (fastforce simp: serve_def discovery_def)
next
  case Healthz
  then show ?thesis by (simp add: serve_def healthz_def build_response_def)
next
  case Tree_Head
  obtain h where "read_head A ap = Some h" using read_head_total [OF assms(1)] by blast
  with Tree_Head show ?thesis
    using json_response_total [OF assms(2), of 200] by (fastforce simp: serve_def tree_head_handler_def)
next
  case Tree_Consistency
  then show ?thesis using tree_consistency_total [OF assms(1,2), of "rq_query rq"] by (auto simp: serve_def)
next
  case Receipt_Of_Seq
  then show ?thesis using receipt_handler_total [OF assms(1,2), of "rq_seq rq"] by (auto simp: serve_def)
qed (use assms(3) in simp)

section \<open>Along a life\<close>

text \<open>A head is only read for submission when an authority is configured.\<close>

definition submits_configured :: "('h, 't, 'su, 'ki, 'kp, 'pk, 'ad) system \<Rightarrow> bool" where
  "submits_configured s \<longleftrightarrow> (\<forall>i res sth. tasks s i = Some (Head_Read res sth) \<longrightarrow>
     external_tsa_url (app_config (app s)) \<noteq> None)"

lemma commit_step_configured:
  "commit_step A s s' \<Longrightarrow> submits_configured s \<Longrightarrow> submits_configured s'"
  by (elim commit_stepE) (auto simp: submits_configured_def dest: commit_append_config commit_append_panic_config split: if_splits)

lemma life_step_configured:
  assumes "life_step A P s s'" and "submits_configured s"
  shows "submits_configured s'"
  using assms
proof (induction rule: life_step.induct)
  case (work s s')
  then show ?case using commit_step_configured by blast
next
  case (restart fs ct s ap')
  have "interrupted t \<noteq> Head_Read res sth" for t :: "('a, 'b, 'c, 'd) task" and res sth by (cases t) simp_all
  then show ?case by (auto simp: submits_configured_def)
qed

lemma life_configured:
  "(life_step A P)\<^sup>*\<^sup>* s s' \<Longrightarrow> submits_configured s \<Longrightarrow> submits_configured s'"
  by (induction rule: rtranclp_induct) (auto dest: life_step_configured)

text \<open>Where the key signs, no section panics under the lock.\<close>

lemma can_sign_operator: "app_operator ap' = app_operator ap \<Longrightarrow> can_sign A ap' \<longleftrightarrow> can_sign A ap"
  by (simp add: can_sign_def)

lemma life_step_unpoisoned:
  assumes "life_step A P s s'" and "service_inv A s" and "can_sign A (app s)" and "\<not> poisoned s"
  shows "\<not> poisoned s'"
  using assms
proof (induction rule: life_step.induct)
  case (work s s')
  then have "app_inv A (app s)" by (simp add: service_inv_app)
  with work show ?case
    by (elim commit_stepE) (auto dest: commit_append_panic_grown(3))
qed simp

lemma life_unpoisoned:
  assumes "(life_step A P)\<^sup>*\<^sup>* s s'" and "service_inv A s" and "can_sign A (app s)" and "\<not> poisoned s"
  shows "\<not> poisoned s'"
  using assms(1)
proof (induction rule: rtranclp_induct)
  case (step s1 s2)
  have "service_inv A s1" by (rule life_inv(1) [OF step.hyps(1) assms(2)])
  moreover have "can_sign A (app s1)"
    using can_sign_operator [OF life_inv(3) [OF step.hyps(1) assms(2)], of A] assms(3) by simp
  ultimately show ?case using life_step_unpoisoned [OF step.hyps(2)] step.IH by blast
qed (rule assms(4))

text \<open>Whatever the head, an authority can make the submission end with this status.\<close>

definition can_end ::
  "('h, 't, 'su, 'ki, 'kp, 'pk, 'ad) api_env \<Rightarrow> 't \<Rightarrow> string \<Rightarrow> string \<Rightarrow> bool" where
  "can_end A now url x \<longleftrightarrow> (\<forall>sth. \<exists>E r. hash_bytes E = hash_bytes (ts A) \<and>
     submit_head (A\<lparr>ts := E\<rparr>) now url sth = Some r \<and> tr_status r = x)"

lemma can_end_unreachable:
  assumes "anchors_ok A" and "clock_ok (ts A) now"
  shows "can_end A now url ''unreachable''"
  unfolding can_end_def
proof
  fix sth
  let ?E = "(ts A)\<lparr>peer := \<lambda>_ _. refusing_peer\<rparr>"
  obtain a where a: "sth_external_anchor (anchored_externally A sth url) = Some a"
    using assms(1) unfolding anchors_ok_def by blast
  obtain e where e: "await (http_post_binary ?E url ''application/timestamp-query'' (anchor_payload a)) = Some (Inl e)"
    by (cases "parse_http_url url") (auto simp: http_post_binary_def exchange_refused)
  obtain r where r: "degraded ?E (anchor_digest a) url now = Some r"
    using assms(2) by (simp add: degraded_def i64_add_def retry_after_secs_def clock_ok_def)
  with e have "submit_anchor ?E a url now = Some r" by (simp add: submit_anchor_def)
  with a degraded_Some [OF r] show "\<exists>E r. hash_bytes E = hash_bytes (ts A) \<and>
      submit_head (A\<lparr>ts := E\<rparr>) now url sth = Some r \<and> tr_status r = ''unreachable''"
    by (intro exI [of _ ?E] exI [of _ "r\<lparr>tr_tree_size := sth_tree_size sth\<rparr>"]) (simp add: submit_head_def)
qed

text \<open>A submission that is granted, by an authority that answers with the digest.\<close>

lemma can_end_anchored:
  assumes "anchors_ok A" and "parse_http_url url = Inr (host, port, pth)"
    and "\<And>h. length (hash_bytes (ts A) h) = 32"
  shows "can_end A now url ''anchored''"
  unfolding can_end_def
proof
  fix sth
  obtain a where a: "sth_external_anchor (anchored_externally A sth url) = Some a"
    using assms(1) unfolding anchors_ok_def by blast
  let ?dg = "hash_bytes (ts A) (anchor_digest a)"
  let ?E = "(ts A)\<lparr>peer := \<lambda>_ _. answering_peer (plain_reply (granted_response ?dg))\<rparr>"
  have "await (http_post_binary ?E url ''application/timestamp-query'' (anchor_payload a))
      = Some (Inr (granted_response ?dg))"
    using assms(2) by (simp add: http_post_binary_def exchange_answered decode_plain_reply)
  then obtain r where "submit_anchor ?E a url now = Some r" "tr_status r = ''anchored''"
    using granted_response_passes [OF assms(3), of "anchor_digest a"] by (simp add: submit_anchor_def Let_def)
  with a show "\<exists>E r. hash_bytes E = hash_bytes (ts A) \<and>
      submit_head (A\<lparr>ts := E\<rparr>) now url sth = Some r \<and> tr_status r = ''anchored''"
    by (intro exI [of _ ?E] exI [of _ "r\<lparr>tr_tree_size := sth_tree_size sth\<rparr>"]) (simp add: submit_head_def)
qed

text \<open>Under the authority that is configured: the submission returns whatever happens to the
  connect and to the read, as long as the authority takes the request.\<close>

definition authority_ok :: "('h, 't, 'su, 'ki, 'kp, 'pk, 'ad) api_env \<Rightarrow> string option \<Rightarrow> bool" where
  "authority_ok A u \<longleftrightarrow> (\<forall>url host port pth. u = Some url \<longrightarrow> parse_http_url url = Inr (host, port, pth) \<longrightarrow>
     takes_requests (peer (ts A) host port) \<and> replies_decode (peer (ts A) host port))"

lemma submit_head_returns:
  assumes "anchors_ok A" and "clock_ok (ts A) now" and "authority_ok A (Some url)"
  shows "\<exists>r. submit_head A now url sth = Some r"
proof -
  obtain a where a: "sth_external_anchor (anchored_externally A sth url) = Some a"
    using assms(1) unfolding anchors_ok_def by blast
  have "await (http_post_binary (ts A) url ct body) \<noteq> None" for ct body
    by (rule http_post_returns) (use assms(3) in \<open>auto simp: authority_ok_def\<close>)
  then obtain res where res: "await (http_post_binary (ts A) url ''application/timestamp-query'' (anchor_payload a)) = Some res"
    by blast
  have d: "degraded (ts A) dg url now \<noteq> None" for dg
    using assms(2) by (simp add: degraded_def i64_add_def retry_after_secs_def clock_ok_def)
  have "submit_anchor (ts A) a url now \<noteq> None"
  proof (cases res)
    case (Inr bs)
    obtain v where "verify_timestamp_response bs (hash_bytes (ts A) (anchor_digest a)) = Some v"
      using verify_timestamp_response_total by fastforce
    then show ?thesis using res Inr d by (cases v) (simp_all add: submit_anchor_def Let_def)
  qed (use res d in \<open>simp add: submit_anchor_def Let_def\<close>)
  with a show ?thesis by (auto simp: submit_head_def)
qed

text \<open>A submission does not return when the answer has an oversized chunk (it panics), and when
  a write to the authority never completes (it waits).\<close>

lemma submit_oversized:
  assumes "anchors_ok A" and "parse_http_url url = Inr (host, port, pth)"
    and "\<And>req sent. exchange (peer (ts A) host port) req sent = Ready t (Inr (oversized_reply rest))"
  shows "submit_head A now url sth = None"
  using assms decode_oversized_reply [of rest] unfolding anchors_ok_def
  by (fastforce simp: submit_head_def submit_anchor_def http_post_binary_def Let_def)

lemma submit_stalled:
  assumes "anchors_ok A" and "parse_http_url url = Inr (host, port, pth)"
    and "\<And>req sent. exchange (peer (ts A) host port) req sent = Never"
  shows "submit_head A now url sth = None"
  using assms unfolding anchors_ok_def
  by (fastforce simp: submit_head_def submit_anchor_def http_post_binary_def Let_def)

section \<open>Two submissions in flight\<close>

definition prints_ok :: "('h, 't, 'su, 'ki, 'kp, 'pk, 'ad) api_env \<Rightarrow> bool" where
  "prints_ok A \<longleftrightarrow> (\<forall>v. \<exists>l. json_to_string (dp A) v = Inr l)"

lemma store_append_prints:
  assumes "json_to_string D (record_to_json D (next_record st sub com salt at)) = Inr l"
  shows "store_append D Wrote st sub com salt at \<noteq> Some (st', Inl e)"
  using assms
  by (auto simp: store_append_def next_record_def store_size_def Let_def bind_eq_Some_conv split: option.splits)

lemma commit_append_written:
  assumes "app_inv A ap" and "has_room (app_store ap)" and "can_sign A ap" and "prints_ok A"
  shows "\<exists>ap' j r. commit_append A Wrote now ap rq = Some (ap', Inr j) \<and> grown A ap ap' \<and>
    app_tsa ap' = app_tsa ap \<and> entries (app_store ap') = entries (app_store ap) @ [r]"
proof -
  obtain sub com salt where rq: "rq = (sub, com, salt)" by (cases rq)
  obtain l where l: "json_to_string (dp A) (record_to_json (dp A) (next_record (app_store ap) sub com salt now)) = Inr l"
    using assms(4) unfolding prints_ok_def by blast
  from commit_append_spec [OF assms(1-3), of Wrote now rq] obtain ap' res where
    a: "commit_append A Wrote now ap rq = Some (ap', res)" "grown A ap ap'" "app_tsa ap' = app_tsa ap"
    and res: "case res of
       Inl e \<Rightarrow> entries (app_store ap') = entries (app_store ap)
     | Inr j \<Rightarrow> entries (app_store ap') = entries (app_store ap)
           @ [next_record (app_store ap) (fst rq) (fst (snd rq)) (snd (snd rq)) now] \<and>
         receipt_view A ap' (store_size (app_store ap)) = Some (Some j)" by blast
  have "res \<noteq> Inl e" for e
    using a(1) store_append_prints [OF l] rq by (elim commit_append_cases) auto
  then obtain j where "res = Inr j" by (cases res) blast+
  with a res show ?thesis by simp
qed

text \<open>A log with an entry has a head.\<close>

lemma read_head_after_append:
  assumes "app_inv A ap" and "can_sign A ap" and "entries (app_store ap) = es @ [e]"
  shows "\<exists>sth. read_head A ap = Some (Some sth)"
proof -
  have e: "unat (seq e) = length es"
    using assms(1,3) store_inv_nth_seq [of "dp A" "app_store ap" "length es"]
      store_inv_bound [of "dp A" "app_store ap"] by (simp add: app_inv_def)
  then have "store_size (app_store ap) - 1 = seq e"
    using assms(3) by (simp add: store_size_def as_u64_def flip: e)
  moreover have "unat (seq e) < length (entries (app_store ap))" using e assms(3) by simp
  ultimately show ?thesis
    using assms receipt_of_signed [of "dp A" "app_store ap" "seq e" "sg A" "key_of ap" "log_id_of ap"]
      current_head_receipt [of "dp A" "app_store ap" "sg A" "log_id_of ap" "key_of ap"]
    by (auto simp: read_head_def app_inv_def can_sign_def)
qed

text \<open>A submission that does not return keeps the answer from a client whose entry is in the log.\<close>

lemma commit_unanswered:
  assumes "app_inv A ap" and "has_room (app_store ap)" and "can_sign A ap" and "prints_ok A"
    and "external_tsa_url (app_config ap) = Some url" and "\<And>sth. submit_head A now' url sth = None"
    and "check_commit A ap headers body = Inr rq"
  shows "commit A Wrote now now' ap headers body = None \<and>
    (\<exists>ap' j r. commit_append A Wrote now ap rq = Some (ap', Inr j) \<and>
       entries (app_store ap') = entries (app_store ap) @ [r] \<and> request_of r = rq)"
proof -
  from commit_append_written [OF assms(1-4), of now rq] obtain ap' j r where
    a: "commit_append A Wrote now ap rq = Some (ap', Inr j)" "grown A ap ap'"
    "entries (app_store ap') = entries (app_store ap) @ [r]" by blast
  have r: "request_of r = rq" using commit_append_matches [OF assms(1) a(1)] a(3) by auto
  have "app_inv A ap'" "can_sign A ap'" using a(2) assms(3) by (simp_all add: grown_def can_sign_def)
  from read_head_after_append [OF this a(3)] obtain sth where h: "read_head A ap' = Some (Some sth)" by blast
  have "commit A Wrote now now' ap headers body = None"
    using assms(5,7) a(1) h assms(6) [of sth] by (simp add: commit_def)
  with a r show ?thesis by blast
qed

text \<open>A request brought to the point where its submission has been answered.\<close>

lemma launch:
  assumes "app_inv A (app s)" and "has_room (app_store (app s))" and "can_sign A (app s)" and "prints_ok A"
    and "can_end A now url x"
    and "external_tsa_url (app_config (app s)) = Some url"
    and "check_commit A (app s) headers body = Inr rq" and "tasks s i = None" and "\<not> poisoned s"
  shows "\<exists>s' res r e sth. commit_run A s s' \<and> tasks s' = (tasks s)(i \<mapsto> Submitted res r) \<and>
    grown A (app s) (app s') \<and> entries (app_store (app s')) = entries (app_store (app s)) @ [e] \<and>
    read_head A (app s') = Some (Some sth) \<and> sth_tree_size sth = store_size (app_store (app s')) \<and>
    tr_tree_size r = store_size (app_store (app s')) \<and> \<not> poisoned s' \<and> tr_status r = x"
proof -
  from commit_append_written [OF assms(1-4), of now rq] obtain ap' j e where
    a: "commit_append A Wrote now (app s) rq = Some (ap', Inr j)" "grown A (app s) ap'"
      "entries (app_store ap') = entries (app_store (app s)) @ [e]" by blast
  let ?at = "\<lambda>t. set_task i t (s\<lparr>app := ap'\<rparr>)"
  from a(2) have inv: "app_inv A ap'" and sign: "can_sign A ap'"
    and url: "external_tsa_url (app_config ap') = Some url"
    using assms(3,6) by (simp_all add: grown_def can_sign_def)
  from read_head_after_append [OF inv sign a(3)] obtain sth where sth: "read_head A ap' = Some (Some sth)" by blast
  note size = read_head_size [OF inv sth]
  from assms(5) [unfolded can_end_def, rule_format, of sth] obtain E r where E: "hash_bytes E = hash_bytes (ts A)"
    and r: "submit_head (A\<lparr>ts := E\<rparr>) now url sth = Some r" "tr_status r = x" by blast
  then have "tr_tree_size r = sth_tree_size sth" by (auto simp: submit_head_def bind_eq_Some_conv)
  moreover have "commit_step A s (set_task i (Accepted rq) s)"
    using assms(8,7) by (rule commit_step.accept)
  moreover have "commit_step A (set_task i (Accepted rq) s) (?at (Sequenced (Inr j)))"
    using commit_step.sequence [of "set_task i (Accepted rq) s" i rq A Wrote now ap' "Inr j"] a(1) assms(9) by simp
  moreover have "commit_step A (?at (Sequenced (Inr j))) (?at (Head_Read (Inr j) sth))"
    using commit_step.read [of "?at (Sequenced (Inr j))" i "Inr j" url A sth] url sth assms(9) by simp
  moreover have "commit_step A (?at (Head_Read (Inr j) sth)) (?at (Submitted (Inr j) r))"
    using commit_step.submit [of "?at (Head_Read (Inr j) sth)" i "Inr j" sth url E A now r] url r(1) E by simp
  ultimately have "commit_run A s (?at (Submitted (Inr j) r))" "tr_tree_size r = sth_tree_size sth"
    by (metis run_step rtranclp.rtrancl_refl)+
  with a sth size assms(9) r(2) show ?thesis
    by (intro exI [of _ "?at (Submitted (Inr j) r)"] exI [of _ "Inr j"] exI [of _ r] exI [of _ e]
        exI [of _ sth]) simp
qed

text \<open>The submission that ends last decides the record, also when it is the older one.\<close>

lemma check_commit_config:
  "app_config a = app_config b \<Longrightarrow> check_commit A a headers body = check_commit A b headers body"
  by (simp add: check_commit_def require_append_def)

lemma overwrite:
  assumes "tasks s i = Some (Submitted res r)" and "tasks s j = Some (Submitted res' r')" and "i \<noteq> j"
    and "read_head A (app s) = Some (Some sth)"
    and "tr_tree_size r' = sth_tree_size sth" and "tr_tree_size r < sth_tree_size sth"
  shows "\<exists>s1 s2. commit_run A s s1 \<and> commit_run A s1 s2 \<and> app_tsa (app s1) = Some r' \<and>
    app_tsa (app s2) = Some r \<and> read_head A (app s1) = Some (Some sth) \<and> read_head A (app s2) = Some (Some sth) \<and>
    external_anchor_view A (app s1) sth = json_object
      [(''method'', JString ''rfc3161''), (''digest'', JString (hash_hex (dp A) (tr_digest r'))),
       (''submission'', tsa_to_wire (dp A) r')] \<and>
    external_anchor_view A (app s2) sth = json_object
      [(''status'', JString ''stale''), (''anchored_tree_size'', json_u64 (tr_tree_size r)),
       (''detail'', JString ''the record anchors an earlier head'')]"
proof -
  let ?s1 = "set_task j (Recorded res') (s\<lparr>app := (app s)\<lparr>app_tsa := Some r'\<rparr>\<rparr>)"
  let ?s2 = "set_task i (Recorded res) (?s1\<lparr>app := (app ?s1)\<lparr>app_tsa := Some r\<rparr>\<rparr>)"
  have "commit_step A s ?s1" by (rule commit_step.finish [OF assms(2)])
  moreover have "commit_step A ?s1 ?s2"
    by (rule commit_step.finish) (use assms(1,3) in simp)
  moreover have "read_head A (app ?s1) = Some (Some sth)" "read_head A (app ?s2) = Some (Some sth)"
    using assms(4) by (simp_all add: read_head_def)
  moreover have "tr_tree_size r \<noteq> sth_tree_size sth" using assms(6) by auto
  ultimately show ?thesis
    using assms(5) by (intro exI [of _ ?s1] exI [of _ ?s2]) (simp add: external_anchor_view_def r_into_rtranclp)
qed

lemma idle_simps [simp]: "app (idle ap) = ap" "tasks (idle ap) i = None" "\<not> poisoned (idle ap)"
  by (simp_all add: idle_def)

lemma two_in_flight:
  assumes "app_inv A ap" and "length (entries (app_store ap)) + 2 < 2 ^ 64" and "can_sign A ap"
    and "prints_ok A" and "anchors_ok A" and "clock_ok (ts A) now"
    and "external_tsa_url (app_config ap) = Some url" and "parse_http_url url = Inr (host, port, pth)"
    and "\<And>h. length (hash_bytes (ts A) h) = 32"
    and "check_commit A ap headers body = Inr rq" and "check_commit A ap headers' body' = Inr rq'"
  shows "\<exists>s res r res' r' sth. commit_run A (idle ap) s \<and> grown A ap (app s) \<and>
    tasks s 0 = Some (Submitted res r) \<and> tasks s 1 = Some (Submitted res' r') \<and>
    read_head A (app s) = Some (Some sth) \<and> tr_tree_size r' = sth_tree_size sth \<and>
    tr_tree_size r < sth_tree_size sth \<and> tr_status r' = ''anchored''"
proof -
  have "has_room (app_store ap)" using assms(2) by (simp add: has_room_def)
  with launch [where s = "idle ap" and i = 0, simplified, OF assms(1) _ assms(3,4) can_end_unreachable [OF assms(5,6)] assms(7,10)]
  obtain s1 res r e where s1: "commit_run A (idle ap) s1" "tasks s1 = (tasks (idle ap))(0 \<mapsto> Submitted res r)"
    "grown A ap (app s1)" "entries (app_store (app s1)) = entries (app_store ap) @ [e]"
    "tr_tree_size r = store_size (app_store (app s1))" "\<not> poisoned s1" by metis
  from s1(3) have inv1: "app_inv A (app s1)" and cfg: "app_config (app s1) = app_config ap"
    and op: "app_operator (app s1) = app_operator ap" by (simp_all add: grown_def)
  have room1: "has_room (app_store (app s1))" using assms(2) s1(4) by (simp add: has_room_def)
  have sign1: "can_sign A (app s1)" using assms(3) op by (simp add: can_sign_def)
  have chk: "check_commit A (app s1) headers' body' = Inr rq'"
    using check_commit_config [OF cfg, of A headers' body'] assms(11) by (rule trans)
  have t1: "tasks s1 1 = None" using s1(2) by simp
  from launch [OF inv1 room1 sign1 assms(4) can_end_anchored [OF assms(5,8,9)] _ chk t1 s1(6)] assms(7) cfg
  obtain s2 res' r' e' sth where s2: "commit_run A s1 s2" "tasks s2 = (tasks s1)(1 \<mapsto> Submitted res' r')"
    "grown A (app s1) (app s2)" "entries (app_store (app s2)) = entries (app_store (app s1)) @ [e']"
    "read_head A (app s2) = Some (Some sth)" "sth_tree_size sth = store_size (app_store (app s2))"
    "tr_tree_size r' = store_size (app_store (app s2))" "tr_status r' = ''anchored''" by metis
  have "app_inv A (app s2)" using s2(3) by (simp add: grown_def)
  then have "tr_tree_size r < sth_tree_size sth"
    using inv1 s1(5) s2(4,6) by (simp add: word_less_nat_alt app_inv_def)
  moreover have "commit_run A (idle ap) s2" using s1(1) s2(1) by (rule rtranclp_trans)
  moreover have "grown A ap (app s2)" using s1(3) s2(3) by (rule grown_trans)
  ultimately show ?thesis
    using s1(2) s2(2,5,6,7,8) by (intro exI [of _ s2] exI [of _ res] exI [of _ r] exI [of _ res'] exI [of _ r']
        exI [of _ sth]) simp
qed

end
