(* ===== verification/Schedules.thy ===== *)
theory Schedules
  imports Progress
begin

text \<open>
  Liveness of a commit among others. Here a task is driven by its own environment, the
  authority that is configured and whatever its journal write does, while other requests
  take any steps in between: after five turns of its own it has been answered.
\<close>

section \<open>The next section of a task\<close>

text \<open>What a task does when it gets the processor: the section of \<open>commit\<close> that is next
  (\<open>src/api.rs\<close>, lines 284 to 324), with the clock and the outcome of its write. A
  submission that does not return leaves the task where it is.\<close>

definition answer_task ::
  "('h, 't, 'su, 'ki, 'kp, 'pk, 'ad) api_env \<Rightarrow> store_error + json \<Rightarrow> nat \<Rightarrow> ('h, 't, 'su, 'ki, 'kp, 'pk, 'ad) system \<Rightarrow> ('h, 't, 'su, 'ki, 'kp, 'pk, 'ad) system" where
  "answer_task A res i s = (case commit_response A res of
       Some resp \<Rightarrow> set_task i (Answered resp) s
     | None \<Rightarrow> set_task i Dropped s)"

definition advance ::
  "('h, 't, 'su, 'ki, 'kp, 'pk, 'ad) api_env \<Rightarrow> write_outcome \<Rightarrow> 't \<Rightarrow> nat \<Rightarrow> ('h, 't, 'su, 'ki, 'kp, 'pk, 'ad) system \<Rightarrow> ('h, 't, 'su, 'ki, 'kp, 'pk, 'ad) system" where
  "advance A w now i s = (case tasks s i of
       Some (Accepted rq) \<Rightarrow>
         if poisoned s then set_task i Dropped s
         else (case commit_append A w now (app s) rq of
             Some (app', res) \<Rightarrow> set_task i (Sequenced res) (s\<lparr>app := app'\<rparr>)
           | None \<Rightarrow> (case commit_append_panic A w now (app s) rq of
                 Some app' \<Rightarrow> set_task i Dropped (s\<lparr>app := app', poisoned := True\<rparr>)
               | None \<Rightarrow> s))
     | Some (Sequenced res) \<Rightarrow>
         (case external_tsa_url (app_config (app s)) of
            None \<Rightarrow> answer_task A res i s
          | Some url \<Rightarrow>
              if poisoned s then set_task i Dropped s
              else (case read_head A (app s) of
                  Some (Some sth) \<Rightarrow> set_task i (Head_Read res sth) s
                | Some None \<Rightarrow> answer_task A res i s
                | None \<Rightarrow> s))
     | Some (Head_Read res sth) \<Rightarrow>
         (case external_tsa_url (app_config (app s)) of
            None \<Rightarrow> s
          | Some url \<Rightarrow> (case submit_head A now url sth of
                Some r \<Rightarrow> set_task i (Submitted res r) s
              | None \<Rightarrow> s))
     | Some (Submitted res r) \<Rightarrow> set_task i (Recorded res) (s\<lparr>app := (app s)\<lparr>app_tsa := Some r\<rparr>\<rparr>)
     | Some (Recorded res) \<Rightarrow> answer_task A res i s
     | _ \<Rightarrow> s)"

text \<open>It is one of the steps of the system, or none.\<close>

lemma answer_task_step:
  assumes "tasks s i = Some (Recorded res) \<or> tasks s i = Some (Sequenced res) \<and> nothing_to_submit A s"
  shows "commit_step A s (answer_task A res i s)"
  using assms commit_step.answer [of s i res A] commit_step.answer_unanchored [of s i res A]
    commit_step.give_up [of s i "Recorded res" A] commit_step.give_up [of s i "Sequenced res" A]
  by (cases "commit_response A res") (auto simp: answer_task_def gives_up_def)

lemma advance_step: "advance A w now i s = s \<or> commit_step A s (advance A w now i s)"
proof (cases "tasks s i")
  case (Some t)
  show ?thesis
  proof (cases t)
    case (Accepted rq)
    then show ?thesis
      using Some commit_step.give_up [of s i t A] commit_step.sequence [of s i rq A w now]
        commit_step.panic [of s i rq A w now]
      by (auto simp: advance_def gives_up_def split: option.split)
  next
    case (Sequenced res)
    show ?thesis
    proof (cases "nothing_to_submit A s")
      case True
      then have "advance A w now i s = answer_task A res i s"
        using Some Sequenced by (auto simp: advance_def nothing_to_submit_def split: option.split)
      then show ?thesis using answer_task_step [of s i res A] Some Sequenced True by simp
    next
      case False
      then show ?thesis
        using Some Sequenced commit_step.give_up [of s i t A] commit_step.read [of s i res _ A]
        by (auto simp: advance_def gives_up_def nothing_to_submit_def split: option.split)
    qed
  next
    case (Head_Read res sth)
    then show ?thesis
      using Some commit_step.submit [of s i res sth _ "ts A" A now]
      by (auto simp: advance_def split: option.split)
  next
    case (Submitted res r)
    then show ?thesis using Some commit_step.finish [of s i res r A] by (simp add: advance_def)
  next
    case (Recorded res)
    then show ?thesis using Some answer_task_step [of s i res A] by (simp add: advance_def)
  qed (use Some in \<open>simp_all add: advance_def\<close>)
qed (simp add: advance_def)

lemma advance_length:
  assumes "service_inv A s"
  shows "length (entries (app_store (app (advance A w now i s)))) \<le> Suc (length (entries (app_store (app s))))"
    and "service_inv A (advance A w now i s)"
proof -
  note step = advance_step [of A w now i s]
  show "service_inv A (advance A w now i s)"
    using step life_step_inv [OF life_step.work assms] assms by metis
  have "length (entries (app_store (app s'))) \<le> Suc (length (entries (app_store (app s))))"
    if "commit_step A s s'" for s'
    using that
  proof (cases rule: commit_step.cases)
    case (sequence i rq w now app' res)
    from commit_append_matches [OF service_inv_app [OF assms] sequence(4)] sequence(1) show ?thesis
      by (cases res) auto
  next
    case (panic i rq w now app')
    from commit_append_panic_grown(4) [OF service_inv_app [OF assms] panic(4)] panic(1) show ?thesis by auto
  qed simp_all
  then show "length (entries (app_store (app (advance A w now i s)))) \<le> Suc (length (entries (app_store (app s))))"
    using step by (metis le_SucI order_refl)
qed

section \<open>Turns\<close>

text \<open>A schedule in which task \<open>i\<close> has had \<open>n\<close> turns: in between, any steps that leave it
  alone (its client stays connected), and at each turn any outcome of the write.\<close>

inductive scheduled ::
  "('h, 't, 'su, 'ki, 'kp, 'pk, 'ad) api_env \<Rightarrow> nat \<Rightarrow> ('h, 't, 'su, 'ki, 'kp, 'pk, 'ad) system \<Rightarrow> nat \<Rightarrow> ('h, 't, 'su, 'ki, 'kp, 'pk, 'ad) system \<Rightarrow> bool" for A i s where
  start: "scheduled A i s 0 s"
| others: "scheduled A i s n s1 \<Longrightarrow> commit_step A s1 s2 \<Longrightarrow> tasks s2 i = tasks s1 i \<Longrightarrow> scheduled A i s n s2"
| turn: "scheduled A i s n s1 \<Longrightarrow> clock_ok (ts A) now \<Longrightarrow> scheduled A i s (Suc n) (advance A w now i s1)"

lemma scheduled_run: "scheduled A i s n s' \<Longrightarrow> commit_run A s s'"
proof (induction rule: scheduled.induct)
  case (others n s1 s2)
  then show ?case by (simp add: rtranclp.rtrancl_into_rtrancl)
next
  case (turn n s1 now w)
  then show ?case using advance_step [of A w now i s1] by (metis rtranclp.rtrancl_into_rtrancl)
qed simp

text \<open>The schedule in which the task runs alone.\<close>

lemma scheduled_alone:
  assumes "clock_ok (ts A) now"
  shows "scheduled A i s n ((advance A w now i ^^ n) s)"
  by (induction n) (simp_all add: scheduled.start scheduled.turn [OF _ assms])

lemma advance_alone_length:
  assumes "service_inv A s"
  shows "length (entries (app_store (app ((advance A w now i ^^ n) s)))) \<le> n + length (entries (app_store (app s))) \<and>
    service_inv A ((advance A w now i ^^ n) s)"
proof (induction n)
  case (Suc n)
  then show ?case using advance_length [of A "(advance A w now i ^^ n) s" w now i] by auto
qed (use assms in simp)

text \<open>The sections before a task's end.\<close>

fun rank :: "('h, 't, 'su, 'ki) task \<Rightarrow> nat" where
  "rank (Accepted rq) = 5"
| "rank (Sequenced res) = 4"
| "rank (Head_Read res sth) = 3"
| "rank (Submitted res r) = 2"
| "rank (Recorded res) = 1"
| "rank (Answered resp) = 0"
| "rank Dropped = 0"

text \<open>What a task is on its way to.\<close>

definition in_flight :: "('h, 't, 'su, 'ki) task \<Rightarrow> bool" where
  "in_flight t \<longleftrightarrow> t \<noteq> Dropped \<and> (\<forall>resp. t = Answered resp \<longrightarrow> resp_status resp \<in> {201, 500})"

lemma in_flight_simps [simp]:
  "in_flight (Accepted rq)" "in_flight (Sequenced res)" "in_flight (Head_Read res sth)"
  "in_flight (Submitted res r)" "in_flight (Recorded res)" "\<not> in_flight Dropped"
  "in_flight (Answered resp) \<longleftrightarrow> resp_status resp \<in> {201, 500}"
  by (simp_all add: in_flight_def)

lemma rank_0: "rank t = 0 \<longleftrightarrow> t = Dropped \<or> (\<exists>resp. t = Answered resp)"
  by (cases t) simp_all

definition gets_on :: "('h, 't, 'su, 'ki, 'kp, 'pk, 'ad) system \<Rightarrow> nat \<Rightarrow> ('h, 't, 'su, 'ki) task \<Rightarrow> bool" where
  "gets_on s i t \<longleftrightarrow> (\<exists>t'. tasks s i = Some t' \<and> in_flight t' \<and> rank t' \<le> rank t - 1)"

lemma gets_on_set_task [simp]:
  "gets_on (set_task i t' s) i t \<longleftrightarrow> in_flight t' \<and> rank t' \<le> rank t - 1"
  by (simp add: gets_on_def)

lemma gets_on_answer:
  assumes "pretty_ok A"
  shows "gets_on (answer_task A res i s) i t"
proof -
  obtain resp where "commit_response A res = Some resp" "resp_status resp \<in> {201, 500}"
    using commit_response_total [OF assms, of res] by (cases res) auto
  then show ?thesis by (simp add: answer_task_def)
qed

lemma advance_gets_on:
  assumes "pretty_ok A" and "anchors_ok A" and "clock_ok (ts A) now"
    and "authority_ok A (external_tsa_url (app_config (app s)))"
    and "app_inv A (app s)" and "has_room (app_store (app s))" and "can_sign A (app s)"
    and "submits_configured s" and "\<not> poisoned s" and "tasks s i = Some t" and "in_flight t"
  shows "gets_on (advance A w now i s) i t"
proof (cases t)
  case (Accepted rq)
  from commit_append_spec [OF assms(5-7), of w now rq] obtain ap' res where
    "commit_append A w now (app s) rq = Some (ap', res)" by blast
  then show ?thesis using assms(9,10) Accepted by (simp add: advance_def)
next
  case (Sequenced res)
  obtain h where "read_head A (app s) = Some h" using read_head_total [OF assms(5)] by blast
  then show ?thesis using assms(9,10) Sequenced gets_on_answer [OF assms(1)]
    by (auto simp: advance_def split: option.split)
next
  case (Head_Read res sth)
  then obtain url where url: "external_tsa_url (app_config (app s)) = Some url"
    using assms(8,10) by (auto simp: submits_configured_def)
  from submit_head_returns [OF assms(2,3)] assms(4) obtain r where "submit_head A now url sth = Some r"
    unfolding url by blast
  then show ?thesis using assms(10) Head_Read url by (simp add: advance_def)
next
  case (Recorded res)
  then show ?thesis using assms(10) gets_on_answer [OF assms(1)] by (simp add: advance_def)
qed (use assms(10,11) in \<open>simp_all add: advance_def gets_on_def\<close>)

text \<open>Whatever the schedule, each turn brings the task one section closer to its answer.\<close>

lemma scheduled_gets_on:
  assumes "scheduled A i s n s'" and "service_inv A s" and "has_room (app_store (app s'))"
    and "pretty_ok A" and "anchors_ok A" and "authority_ok A (external_tsa_url (app_config (app s)))"
    and "can_sign A (app s)" and "submits_configured s" and "\<not> poisoned s"
    and "tasks s i = Some t" and "in_flight t"
  shows "\<exists>t'. tasks s' i = Some t' \<and> in_flight t' \<and> rank t' \<le> rank t - n"
  using assms(1,3)
proof (induction rule: scheduled.induct)
  case start
  then show ?case using assms(10,11) by simp
next
  case (others n s1 s2)
  have "service_inv A s1" by (rule life_inv(1) [OF commit_run_life [OF scheduled_run [OF others(1)]] assms(2)])
  then have "grown A (app s1) (app s2)" using commit_step_inv [OF others(2)] by (simp add: service_inv_def)
  then have "has_room (app_store (app s1))" using others(5) by (auto simp: grown_def has_room_def)
  with others show ?case by simp
next
  case (turn n s1 now w)
  let ?s2 = "advance A w now i s1"
  note run = commit_run_life [OF scheduled_run [OF turn(1)]]
  note s1 = life_inv [OF run assms(2)]
  have inv: "app_inv A (app s1)" by (rule service_inv_app [OF s1(1)])
  have "grown A (app s1) (app ?s2)"
    using advance_step [of A w now i s1] commit_step_inv [of A s1 ?s2] s1(1) grown_refl [OF inv]
    by (auto simp: service_inv_def)
  then have room: "has_room (app_store (app s1))" using turn(4) by (auto simp: grown_def has_room_def)
  from turn(3) [OF this] obtain t1 where t1: "tasks s1 i = Some t1" "in_flight t1" "rank t1 \<le> rank t - n" by blast
  have sign: "can_sign A (app s1)" using can_sign_operator [OF s1(3), of A] assms(7) by simp
  have auth: "authority_ok A (external_tsa_url (app_config (app s1)))" using assms(6) s1(2) by simp
  have "\<not> poisoned s1" by (rule life_unpoisoned [OF run assms(2,7,9)])
  from advance_gets_on [OF assms(4,5) turn(2) auth inv room sign life_configured [OF run assms(8)] this t1(1,2), of w]
  show ?case using t1(3) by (auto simp: gets_on_def)
qed

lemma rank_le: "rank t \<le> 5"
  by (cases t) simp_all

end
