(* ===== verification/Poisoning.thy ===== *)
theory Poisoning
  imports Schedules
begin

text \<open>
  What a panic under the store's lock does to the running service: the lock is poisoned,
  and from then on, until the process is started again, nothing that needs the store is
  answered. The receipt of a commit is the one thing that can make this happen, when its
  head cannot be signed.
\<close>

section \<open>A poisoned system is frozen\<close>

text \<open>A request that has not been sequenced, seen from its client.\<close>

fun unsequenced :: "('h, 't, 'su, 'ki) task option \<Rightarrow> bool" where
  "unsequenced None = True"
| "unsequenced (Some (Accepted rq)) = True"
| "unsequenced (Some (Answered resp)) = (resp_status resp \<noteq> 201)"
| "unsequenced (Some Dropped) = True"
| "unsequenced _ = False"

lemma poisoned_step:
  assumes "commit_step A s s'" and "poisoned s"
  shows "poisoned s' \<and> app_store (app s') = app_store (app s) \<and> app_config (app s') = app_config (app s) \<and>
    (\<forall>i. unsequenced (tasks s i) \<longrightarrow> unsequenced (tasks s' i))"
  using assms(1)
proof (cases rule: commit_step.cases)
  case (refuse i headers body resp)
  then show ?thesis using assms(2) check_commit_refusal [OF refuse(3)] by auto
qed (use assms(2) in auto)

lemma poisoned_run:
  assumes "commit_run A s s'" and "poisoned s"
  shows "poisoned s' \<and> app_store (app s') = app_store (app s) \<and>
    (\<forall>i. unsequenced (tasks s i) \<longrightarrow> unsequenced (tasks s' i))"
  using assms
proof (induction rule: rtranclp_induct)
  case (step s1 s2)
  then show ?case using poisoned_step [of A s1 s2] by simp
qed simp

lemma unsequenced_not_acknowledged: "unsequenced (tasks s i) \<Longrightarrow> \<not> acknowledged s i resp"
  by (auto simp: acknowledged_def)

section \<open>The next process\<close>

text \<open>What is on disk when a process ends while its journal is in step with its log: the
  journal, and perhaps the start of a line that was being written.\<close>

definition journal_kept ::
  "('h, 't, 'su, 'ki, 'kp, 'pk, 'ad) api_env \<Rightarrow> (string \<Rightarrow> journal_file) \<Rightarrow> string
     \<Rightarrow> ('h, 't, 'su, 'kp, 'pk, 'ad) app_state \<Rightarrow> bool" where
  "journal_kept A fs torn ap \<longleftrightarrow> (\<exists>p body. state_file (app_config ap) = Some p \<and>
     journal (app_store ap) = Some body \<and> synced (dp A) (app_store ap) \<and>
     plain_file (fs p) (body @ torn) \<and> torn_ok (dp A) (fs p) torn \<and>
     (\<forall>r\<in>set (entries (app_store ap)). line_ok (dp A) (read_line (fs p)) r))"

lemma journal_kept_restart:
  assumes "service_inv A s" and "journal_kept A fs torn (app s)"
  shows "\<exists>ap'. app_new (A\<lparr>file_at := fs\<rparr>) (app_config (app s)) = Some (Inr ap') \<and> grown A (app s) ap' \<and>
    app_store ap' = (app_store (app s))\<lparr>journal := Some (journal_text (dp A) (entries (app_store (app s))) @ torn)\<rparr>"
proof -
  let ?st = "app_store (app s)"
  from assms(2) obtain p where "state_file (app_config (app s)) = Some p"
    "plain_file (fs p) (journal_text (dp A) (entries ?st) @ torn)" "torn_ok (dp A) (fs p) torn"
    "\<forall>r\<in>set (entries ?st). line_ok (dp A) (read_line (fs p)) r"
    by (auto simp: journal_kept_def synced_def)
  with app_after_crash [of A "app s"] assms(1) show ?thesis
    by (simp add: service_inv_def system_inv_appD)
qed

lemma kept_restart_grown:
  assumes "service_inv A s" and "journal_kept A fs torn (app s)"
    and "app_new (A\<lparr>file_at := fs\<rparr>) (app_config (app s)) = Some (Inr ap')"
  shows "grown A (app s) ap'" and "entries (app_store ap') = entries (app_store (app s))"
    and "app_tsa ap' = None"
  using journal_kept_restart [OF assms(1,2)] assms(3) app_new_inv [OF assms(3)] by auto

text \<open>A log whose last receipt cannot be signed shows no head, and its last entry no receipt.\<close>

lemma read_head_unsigned:
  assumes "app_inv A ap" and "entries (app_store ap) = es @ [r]"
    and "receipt_of (dp A) (sg A) (app_store ap) (seq r) (log_id_of ap) (key_of ap) = Some None"
  shows "read_head A ap = Some None"
proof -
  have inv: "store_inv (dp A) (app_store ap)" using assms(1) by (simp add: app_inv_def)
  have "seq r = as_u64 (length es)" using store_inv_nth_seq [OF inv, of "length es"] assms(2) by simp
  then have "store_size (app_store ap) - 1 = seq r"
    using assms(2) by (simp add: store_size_def as_u64_def)
  then show ?thesis
    using current_head_receipt [OF inv, of "sg A" "log_id_of ap" "key_of ap"] assms(2,3)
    by (simp add: read_head_def)
qed

lemma unsigned_after_restart:
  assumes "service_inv A s" and "entries (app_store (app s)) = es @ [r]"
    and "receipt_of (dp A) (sg A) (app_store (app s)) (seq r) (log_id_of (app s)) (key_of (app s)) = Some None"
    and "journal_kept A fs torn (app s)"
    and "app_new (A\<lparr>file_at := fs\<rparr>) (app_config (app s)) = Some (Inr ap')"
  shows "entries (app_store ap') = es @ [r]"
    and "tree_head_handler A ap' = json_response A 200 (tree_head_body A ap' None)"
    and "receipt_handler A ap' (show_nat (unat (seq r)))
      = not_found A (''no receipt for seq '' @ show_nat (unat (seq r)))"
proof -
  note g = kept_restart_grown [OF assms(1,4,5)]
  have inv: "store_inv (dp A) (app_store (app s))"
    using system_inv_appD [of A s] assms(1) by (simp add: service_inv_def app_inv_def)
  have inv': "app_inv A ap'" and op: "app_operator ap' = app_operator (app s)" using g(1) by (simp_all add: grown_def)
  show e: "entries (app_store ap') = es @ [r]" using g(2) assms(2) by simp
  have "unat (seq r) < length (entries (app_store (app s)))"
    using store_inv_nth_seq [OF inv, of "length es"] store_inv_bound [OF inv] assms(2)
    by (simp add: as_u64_def unat_of_nat)
  from receipt_frozen [OF inv _ _ this, of "app_store ap'" "[]" "sg A" "log_id_of ap'" "key_of ap'"] inv' g(2) op assms(3)
  have no: "receipt_of (dp A) (sg A) (app_store ap') (seq r) (log_id_of ap') (key_of ap') = Some None"
    by (simp add: app_inv_def)
  show "tree_head_handler A ap' = json_response A 200 (tree_head_body A ap' None)"
    using read_head_unsigned [OF inv' e no] by (simp add: tree_head_handler_def)
  show "receipt_handler A ap' (show_nat (unat (seq r)))
      = not_found A (''no receipt for seq '' @ show_nat (unat (seq r)))"
    using no by (simp add: receipt_handler_def)
qed

end
