(* ===== verification/Sample.thy ===== *)
theory Sample
  imports Poisoning
begin

text \<open>
  A small concrete instance of the external functions, on which the theorems of the
  root theory are evaluated: hashes, timestamps and keys are strings, the JSON printer
  and parser know the records of one family and two request bodies, signing appends the
  key's name, and the time-stamp authority is a function.
\<close>

definition sample_leaf :: "string \<Rightarrow> string" where
  "sample_leaf c = CHR ''L'' # c"

definition sample_node :: "string \<Rightarrow> string \<Rightarrow> string" where
  "sample_node a b = CHR ''('' # a @ b @ '')''"

text \<open>The records the sample log holds: entry \<open>n\<close> commits to the text \<open>c\<close>\<open>n\<close>.\<close>

definition sample_record :: "u64 \<Rightarrow> (string, string) commit_record" where
  "sample_record n = \<lparr>seq = n, logged_at = ''noon'', subject = ''item'',
     commitment = CHR ''c'' # show_nat (unat n), salt_ref = None\<rparr>"

definition sample_forms :: "(string, string) deps" where
  "sample_forms = \<lparr>leaf_hash = sample_leaf, node_hash = sample_node, hash_hex = (\<lambda>h. h),
     hash_from_hex = Some, ts_to_string = (\<lambda>t. t), ts_parse = Some,
     json_from_str = (\<lambda>_. Inl []), json_to_string = (\<lambda>_. Inl [])\<rparr>"

definition sample_body :: json where
  "sample_body = json_object [(''subject'', JString ''item''), (''commitment'', JString ''c0'')]"

definition sample_next_body :: json where
  "sample_next_body = json_object [(''subject'', JString ''item''), (''commitment'', JString ''c1'')]"

definition sample_parse :: "string \<Rightarrow> string + json" where
  "sample_parse s =
     (if s = ''post'' then Inr sample_body
      else if s = ''next'' then Inr sample_next_body
      else (case strip_prefix ''record '' s of
              None \<Rightarrow> Inl ''expected value''
            | Some d \<Rightarrow>
                (case from_str_radix 64 10 d of
                   None \<Rightarrow> Inl ''expected number''
                 | Some n \<Rightarrow> Inr (record_to_json sample_forms (sample_record (as_u64 n))))))"

definition sample_print :: "json \<Rightarrow> string + string" where
  "sample_print v =
     (case get v ''seq'' of
        Some (JNumber (PosInt n)) \<Rightarrow> Inr (''record '' @ show_nat (unat n))
      | _ \<Rightarrow> Inr ''json'')"

definition sample_deps :: "(string, string) deps" where
  "sample_deps = sample_forms\<lparr>json_from_str := sample_parse, json_to_string := sample_print\<rparr>"

definition sample_signing :: "(string, string, unit, string, string, string) signing" where
  "sample_signing = \<lparr>
     canonical_bytes = (\<lambda>lid n t r. of_str (lid @ '' '' @ show_nat (unat n) @ '' '' @ t @ '' '' @ r)),
     sign_tree_head = (\<lambda>k bs. Some \<lparr>suite = (), key_id = k, signature_value = Some (bs @ of_str k)\<rparr>),
     verify_tree_head = (\<lambda>p bs sl. signature_value sl = Some (bs @ of_str p)),
     public_of = (\<lambda>k. k), suite_as_str = (\<lambda>_. ''ed25519''),
     suite_parse_token = (\<lambda>s. if s = ''ed25519'' then Inr () else Inl ''unknown suite''),
     key_id_as_str = (\<lambda>k. k), key_id_new = Inr\<rparr>"

definition sample_keys :: "(unit, string, string, string) key_api" where
  "sample_keys = \<lparr>ed25519 = (), seeded = (\<lambda>_ bs. Inr (to_str bs)), key_id_of = (\<lambda>k. k),
     public_bytes = of_str, public_to_string = (\<lambda>p. p)\<rparr>"

definition sample_tsa :: "(string, string) tsa_env" where
  "sample_tsa = \<lparr>hash_bytes = (\<lambda>_. replicate 32 0), ts_secs = (\<lambda>_. 0), ts_from_secs = (\<lambda>_. ''later''),
     peer = (\<lambda>_ _. refusing_peer)\<rparr>"

definition sample_file :: "string \<Rightarrow> journal_file" where
  "sample_file body = \<lparr>has_parent = True, mkdir_error = None, contents = Some body, read_error = None,
     read_line = Inr, open_error = None\<rparr>"

definition sample_env ::
  "(string, string, unit, string, string, string, string) api_env" where
  "sample_env = \<lparr>dp = sample_deps, sg = sample_signing, ky = sample_keys, ts = sample_tsa,
     parse_addr = Some, to_string_pretty = (\<lambda>_. Inr ''{}''),
     anchored_externally = (\<lambda>sth _. sth\<lparr>sth_external_anchor :=
       Some \<lparr>anchor_digest = sth_root sth, anchor_payload = []\<rparr>\<rparr>),
     file_at = sample_file, pkg_version = ''0.1.0'', build_id = None\<rparr>"

definition sample_config :: "(string, unit) config" where
  "sample_config = \<lparr>bind_addr = ''127.0.0.1:8092'',
     operator_cfg = \<lparr>oc_log_id = ''log'', oc_suite = (), oc_seed = ''seed''\<rparr>,
     append_token = None, state_file = None, external_tsa_url = Some ''http://tsa/''\<rparr>"

text \<open>A log of \<open>n\<close> sample entries, in memory or with its journal.\<close>

definition sample_entries :: "nat \<Rightarrow> (string, string) commit_record list" where
  "sample_entries n = map (\<lambda>i. sample_record (as_u64 i)) [0..<n]"

definition sample_store :: "nat \<Rightarrow> (string, string) log_store" where
  "sample_store n = \<lparr>
     tree = the (build_tree sample_leaf sample_node (map commitment (sample_entries n))),
     entries = sample_entries n,
     journal = Some (journal_text sample_deps (sample_entries n))\<rparr>"

text \<open>The service that was started on that journal, with an authority configured.\<close>

definition sample_log_config :: "nat \<Rightarrow> (string, unit) config" where
  "sample_log_config n = sample_config\<lparr>state_file := Some (journal_text sample_deps (sample_entries n))\<rparr>"

definition sample_app ::
  "nat \<Rightarrow> (string, string, unit, string, string, string) app_state" where
  "sample_app n = \<lparr>app_config = sample_log_config n,
     app_operator = \<lparr>op_config = operator_cfg sample_config, op_key = ''seed'', op_public = ''seed''\<rparr>,
     app_store = sample_store n, app_tsa = None\<rparr>"

lemma length_sample_entries [simp]: "length (sample_entries n) = n"
  by (simp add: sample_entries_def)

lemma sample_record_seq [simp]: "seq (sample_record n) = n"
  by (simp add: sample_record_def)

lemma sample_fields [simp]:
  "leaf_hash sample_deps = sample_leaf" "node_hash sample_deps = sample_node"
  "json_from_str sample_deps = sample_parse" "json_to_string sample_deps = sample_print"
  "hash_hex sample_deps h = h" "hash_from_hex sample_deps s = Some s"
  "ts_to_string sample_deps t = t" "ts_parse sample_deps s = Some s"
  by (simp_all add: sample_deps_def sample_forms_def)

lemma sample_forms_ok: "text_forms_ok sample_deps"
  by (simp add: text_forms_ok_def)

lemma sample_record_json: "record_to_json sample_forms r = record_to_json sample_deps r"
  by (simp add: record_to_json_def sample_deps_def sample_forms_def)

lemma sample_parse_record:
  "sample_parse (''record '' @ show_nat (unat n)) = Inr (record_to_json sample_deps (sample_record n))"
  using strip_prefix_append [of "''record ''" "show_nat (unat n)"]
    from_str_radix_show_nat [of "unat n" 64] unat_u64_less [of n]
  by (simp add: sample_parse_def sample_record_json as_u64_def)

lemma sample_print_record:
  "sample_print (record_to_json sample_deps (sample_record n)) = Inr (''record '' @ show_nat (unat n))"
  by (simp add: sample_print_def record_to_json_def)

lemma sample_journal_line:
  "journal_line sample_deps (sample_record n) = ''record '' @ show_nat (unat n)"
  by (simp add: journal_line_def sample_print_record)

lemma sample_line_ok: "line_ok sample_deps Inr (sample_record n)"
proof -
  have d: "newline \<notin> set (show_nat k)" "CHR 0x0D \<notin> set (show_nat k)" for k
    by (rule show_nat_not_in, simp add: newline_def)+
  have "last (show_nat (unat n)) \<noteq> CHR 0x0D" using d(2) last_in_set show_nat_not_Nil by metis
  then show ?thesis
    using sample_print_record [of n] sample_parse_record [of n] d
    by (simp add: line_ok_def sample_forms_ok) (simp add: newline_def)
qed

lemma sample_store_inv:
  assumes "n < 2 ^ 64"
  shows "store_inv sample_deps (sample_store n)"
proof -
  have "length (map commitment (sample_entries n)) < 2 ^ 64" using assms by simp
  from build_tree_inv [OF this, of sample_leaf sample_node] obtain t where
    "build_tree sample_leaf sample_node (map commitment (sample_entries n)) = Some t"
    "tree_inv sample_leaf sample_node (map commitment (sample_entries n)) t" by blast
  then show ?thesis
    by (simp add: store_inv_def sample_store_def) (simp add: sample_entries_def)
qed

lemma sample_store_fields [simp]:
  "entries (sample_store n) = sample_entries n"
  "journal (sample_store n) = Some (journal_text sample_deps (sample_entries n))"
  by (simp_all add: sample_store_def)

lemma sample_lines_ok: "\<forall>r\<in>set (entries (sample_store n)). line_ok sample_deps (read_line (sample_file b)) r"
  by (auto simp: sample_entries_def sample_line_ok sample_file_def)

lemma sample_file_plain: "plain_file (sample_file b) b"
  by (simp add: plain_file_def sample_file_def)

lemma sample_synced: "synced sample_deps (sample_store n)"
  by (simp add: synced_def)

lemma sample_app_inv: "n < 2 ^ 64 \<Longrightarrow> app_inv sample_env (sample_app n)"
  by (simp add: app_inv_def sample_env_def sample_app_def sample_store_inv)

lemma sample_roots:
  "mth sample_leaf sample_node [''a''] = ''La''"
  "mth sample_leaf sample_node [''a'', ''b''] = ''(LaLb)''"
  by code_simp+

lemma sample_torn:
  "parse_line sample_deps ''rec'' = Inl ''expected value''" "trim ''rec'' \<noteq> []"
  "newline \<notin> set ''rec''" "strip_cr ''rec'' = ''rec''" "read_line (sample_file b) ''rec'' = Inr ''rec''"
proof -
  have "sample_parse ''rec'' = Inl ''expected value''" by code_simp
  then show "parse_line sample_deps ''rec'' = Inl ''expected value''" by (simp add: parse_line_def)
  show "trim ''rec'' \<noteq> []" by code_simp
qed (simp_all add: newline_def strip_cr_def sample_file_def)

text \<open>The lines of the first two records, cut anywhere.\<close>

lemma sample_cuts: "cuts_ok sample_deps Inr (sample_record 0)" "cuts_ok sample_deps Inr (sample_record 1)"
proof -
  let ?bad = "\<lambda>l n. trim (take n l) \<noteq> [] \<and> isl (sample_parse (take n l))"
  have c: "cuts_ok sample_deps Inr r"
    if "line_ok sample_deps Inr r" "journal_line sample_deps r = l" "length l = 8" "list_all (?bad l) [1..<8]" for r l
  proof -
    have "trim (take n l) \<noteq> [] \<and> (\<exists>e. parse_line sample_deps (take n l) = Inl e)" if "0 < n" "n < 8" for n
    proof -
      have "?bad l n" using \<open>list_all (?bad l) [1..<8]\<close> that by (simp add: list_all_iff)
      then show ?thesis by (auto simp: parse_line_def isl_def)
    qed
    then show ?thesis using that unfolding cuts_ok_def by simp
  qed
  have "list_all (?bad ''record 0'') [1..<8]" "list_all (?bad ''record 1'') [1..<8]" by code_simp+
  moreover have "show_nat 0 = ''0''" "show_nat 1 = ''1''" by code_simp+
  ultimately show "cuts_ok sample_deps Inr (sample_record 0)" "cuts_ok sample_deps Inr (sample_record 1)"
    using c [OF sample_line_ok, of 0 "''record 0''"] c [OF sample_line_ok, of 1 "''record 1''"]
    by (simp_all add: sample_journal_line)
qed

lemma sample_read_line: "\<exists>l'. read_line (sample_file b) l = Inr l'"
  by (simp add: sample_file_def)

lemma sample_restart:
  "n < 2 ^ 64 \<Longrightarrow> open_store sample_deps (Some (sample_file (journal_text sample_deps (sample_entries n))))
     = Some (Inr (sample_store n))"
  using restart_identical [OF sample_store_inv sample_synced sample_lines_ok, of n] sample_file_plain by simp

lemma sample_next:
  "next_record (sample_store 1) ''item'' ''c1'' None ''noon'' = sample_record 1"
  "next_record (sample_store 2) ''item'' ''c2'' None ''noon'' = sample_record 2"
proof -
  have "show_nat 1 = ''1''" "show_nat 2 = ''2''" by code_simp+
  then show "next_record (sample_store 1) ''item'' ''c1'' None ''noon'' = sample_record 1"
    "next_record (sample_store 2) ''item'' ''c2'' None ''noon'' = sample_record 2"
    by (simp_all add: next_record_def sample_record_def store_size_def as_u64_def)
qed

lemma sample_glued:
  "parse_line sample_deps (''rec'' @ journal_line sample_deps (sample_record 1)) = Inl ''expected value''"
  "trim (''rec'' @ journal_line sample_deps (sample_record 1)) \<noteq> []"
  "read_line (sample_file b) l = Inr l"
proof -
  have "show_nat 1 = ''1''" by code_simp
  then have l: "''rec'' @ journal_line sample_deps (sample_record 1) = ''recrecord 1''"
    by (simp add: sample_journal_line)
  have "sample_parse ''recrecord 1'' = Inl ''expected value''" "trim ''recrecord 1'' \<noteq> []" by code_simp+
  then show "parse_line sample_deps (''rec'' @ journal_line sample_deps (sample_record 1)) = Inl ''expected value''"
    "trim (''rec'' @ journal_line sample_deps (sample_record 1)) \<noteq> []"
    unfolding l by (simp_all add: parse_line_def)
qed (simp add: sample_file_def)

lemma sample_print_line [simp]:
  "sample_print (record_to_json sample_deps (sample_record n)) = Inr (journal_line sample_deps (sample_record n))"
  using line_ok_print [OF sample_line_ok [of n]] by simp

lemma sample_file_read [simp]: "read_line (sample_file b) = Inr"
  by (simp add: sample_file_def)

lemma sample_signing_ok:
  "sign_tree_head sample_signing op bs = Some sig \<Longrightarrow>
     verify_tree_head sample_signing (public_of sample_signing op) bs sig"
  by (auto simp: sample_signing_def)

lemma sample_signs: "\<forall>bs. sign_tree_head sample_signing k bs \<noteq> None"
  by (simp add: sample_signing_def)

lemma sample_head:
  assumes "0 < n" and "n < 2 ^ 64"
  shows "\<exists>h. current_head sample_deps sample_signing (sample_store n) lid k = Some (Some h)"
proof -
  note inv = sample_store_inv [OF assms(2)]
  have ne: "entries (sample_store n) \<noteq> []" using assms by (auto simp: sample_entries_def)
  have "unat (store_size (sample_store n) - 1) < length (entries (sample_store n))"
    using inv assms by (intro unat_minus_1_less) simp_all
  from receipt_of_signed [OF inv this sample_signs, of lid k]
    current_head_receipt [OF inv ne, of sample_signing lid k] show ?thesis by auto
qed

lemma sample_sizes:
  "chunk_size (of_str ''0'') = Some 0" "chunk_size (of_str ''1'') = Some 1" "chunk_size (of_str ''2'') = Some 2"
proof -
  have t: "trim ''0'' = ''0''" "trim ''1'' = ''1''" "trim ''2'' = ''2''" by code_simp+
  have u: "utf8_lossy (of_str ''0'') = ''0''" "utf8_lossy (of_str ''1'') = ''1''"
    "utf8_lossy (of_str ''2'') = ''2''" by (simp_all add: utf8_lossy_of_str)
  show "chunk_size (of_str ''0'') = Some 0" "chunk_size (of_str ''1'') = Some 1"
    "chunk_size (of_str ''2'') = Some 2"
    by (simp_all add: chunk_size_def u t from_str_radix_def digits_val_def digit_val_def)
qed

lemma sample_app_fields [simp]:
  "app_store (sample_app n) = sample_store n" "app_config (sample_app n) = sample_log_config n"
  "app_tsa (sample_app n) = None" "key_of (sample_app n) = ''seed''" "log_id_of (sample_app n) = ''log''"
  "dp sample_env = sample_deps" "sg sample_env = sample_signing" "ts sample_env = sample_tsa"
  by (simp_all add: sample_app_def sample_env_def op_log_id_def sample_config_def)

lemma sample_log_config_fields [simp]:
  "external_tsa_url (sample_log_config n) = Some ''http://tsa/''" "append_token (sample_log_config n) = None"
  "operator_cfg (sample_log_config n) = operator_cfg sample_config"
  "state_file (sample_log_config n) = Some (journal_text sample_deps (sample_entries n))"
  by (simp_all add: sample_log_config_def sample_config_def)

text \<open>One request against the sample log, with an authority that refuses to connect.\<close>

lemma sample_parse_post [simp]: "sample_parse ''post'' = Inr sample_body"
  by (simp add: sample_parse_def)

lemma sample_check_open:
  assumes "append_token (app_config ap) = None" and "json_from_str (dp A) ''post'' = Inr sample_body"
    and "hash_from_hex (dp A) ''c0'' = Some ''c0''"
  shows "check_commit A ap headers ''post'' = Inr (''item'', ''c0'', None)"
proof -
  have "trim ''item'' = ''item''" "trim ''c0'' = ''c0''" by code_simp+
  then show ?thesis
    using assms by (simp add: check_commit_def require_append_def parse_body_def req_str_def
        req_commitment_def opt_u64_def sample_body_def)
qed

lemma sample_check: "check_commit sample_env (sample_app n) headers ''post'' = Inr (''item'', ''c0'', None)"
  by (rule sample_check_open) (simp_all add: sample_config_def)

lemma sample_no_tsa: "\<exists>e. await (http_post_binary sample_tsa url ct body) = Some (Inl e)"
  by (cases "parse_http_url url") (auto simp: http_post_binary_def sample_tsa_def exchange_refused)

lemma sample_submit: "\<exists>r. submit_head sample_env now url sth = Some r \<and> tr_tree_size r = sth_tree_size sth"
proof -
  let ?a = "\<lparr>anchor_digest = sth_root sth, anchor_payload = []\<rparr>"
  have "\<exists>s. degraded sample_tsa d u t = Some s" for d u t
    by (simp add: degraded_def i64_add_def retry_after_secs_def sample_tsa_def)
  then obtain r where "submit_anchor sample_tsa ?a url now = Some r"
    using sample_no_tsa [of url "''application/timestamp-query''" "[]"]
    by (fastforce simp: submit_anchor_def Let_def)
  then show ?thesis by (simp add: submit_head_def) (simp add: sample_env_def)
qed

lemma sample_answer: "\<exists>resp. commit_response sample_env (Inr j) = Some resp \<and> resp_status resp = 201"
  by (simp add: commit_response_def json_response_def build_response_def sample_env_def)

lemma sample_append_one:
  "\<exists>st'. store_append sample_deps Wrote (sample_store 1) ''item'' ''c0'' None ''noon''
      = Some (st', Inr (next_record (sample_store 1) ''item'' ''c0'' None ''noon'')) \<and>
    store_inv sample_deps st' \<and>
    entries st' = sample_entries 1 @ [next_record (sample_store 1) ''item'' ''c0'' None ''noon'']"
proof -
  have "\<exists>l. sample_print (record_to_json sample_deps (next_record (sample_store 1) ''item'' ''c0'' None ''noon'')) = Inr l"
    by (simp add: sample_print_def record_to_json_def)
  then obtain l where "json_to_string sample_deps
      (record_to_json sample_deps (next_record (sample_store 1) ''item'' ''c0'' None ''noon'')) = Inr l" by auto
  from store_append_journaled [OF sample_store_inv _ sample_store_fields(2) this]
  show ?thesis by (auto simp: has_room_def)
qed

lemma sample_commit:
  "\<exists>ap' resp sth r. commit sample_env Wrote ''noon'' ''noon'' (sample_app 1) (\<lambda>_. None) ''post'' = Some (ap', resp) \<and>
    resp_status resp = 201 \<and> app_inv sample_env ap' \<and> read_head sample_env ap' = Some (Some sth) \<and>
    app_tsa ap' = Some r \<and> tr_tree_size r = sth_tree_size sth"
proof -
  let ?r = "next_record (sample_store 1) ''item'' ''c0'' None ''noon''"
  from sample_append_one obtain st' where
    st': "store_append sample_deps Wrote (sample_store 1) ''item'' ''c0'' None ''noon'' = Some (st', Inr ?r)"
    "store_inv sample_deps st'" "entries st' = sample_entries 1 @ [?r]" by blast
  have sq: "unat (seq ?r) < length (entries st')" using st'(3) unat_store_size [OF sample_store_inv [of 1]] by (simp add: next_record_def)
  from receipt_of_signed [OF st'(2) sq sample_signs, of "''log''"] obtain rc where
    rc: "receipt_of sample_deps sample_signing st' (seq ?r) ''log'' ''seed'' = Some (Some rc)" by blast
  let ?ap1 = "(sample_app 1)\<lparr>app_store := st'\<rparr>"
  have a: "\<exists>j. commit_append sample_env Wrote ''noon'' (sample_app 1) (''item'', ''c0'', None) = Some (?ap1, Inr j)"
    using st'(1) rc by (simp add: commit_append_def)
  have "store_size st' - 1 = seq ?r"
    using st'(3) by (simp add: next_record_def store_size_def as_u64_def)
  with current_head_receipt [OF st'(2), of sample_signing "''log''" "''seed''"] rc st'(3)
  have h: "read_head sample_env ?ap1 = Some (Some (tree_head rc))"
    by (simp add: read_head_def sample_app_def op_log_id_def sample_config_def sample_env_def)
  from sample_submit obtain r where
    r: "submit_head sample_env ''noon'' ''http://tsa/'' (tree_head rc) = Some r"
    "tr_tree_size r = sth_tree_size (tree_head rc)" by blast
  let ?ap' = "?ap1\<lparr>app_tsa := Some r\<rparr>"
  have "\<exists>resp. commit sample_env Wrote ''noon'' ''noon'' (sample_app 1) (\<lambda>_. None) ''post'' = Some (?ap', resp) \<and>
      resp_status resp = 201"
  proof -
    obtain j where j: "commit_append sample_env Wrote ''noon'' (sample_app 1) (''item'', ''c0'', None) = Some (?ap1, Inr j)"
      using a by blast
    obtain resp where "commit_response sample_env (Inr j) = Some resp" "resp_status resp = 201"
      using sample_answer by blast
    with j h r(1) sample_check show ?thesis by (simp add: commit_def sample_config_def)
  qed
  moreover have "app_inv sample_env ?ap'" using st'(2) by (simp add: app_inv_def)
  moreover have "read_head sample_env ?ap' = Some (Some (tree_head rc))" using h by (simp add: read_head_def)
  ultimately show ?thesis using r(2) by auto
qed

lemma sample_operator:
  "operator_from_config sample_signing sample_keys (operator_cfg sample_config) = Inr (app_operator (sample_app n))"
  by (simp add: operator_from_config_def sample_keys_def sample_app_def sample_config_def to_str_of_str sample_signing_def)

lemma sample_new: "app_new sample_env (sample_log_config n) = Some (Inr (sample_app n))" if "n < 2 ^ 64"
proof -
  have "open_store sample_deps (Some (sample_file (journal_text sample_deps (sample_entries n))))
      = Some (Inr (sample_store n))"
    using sample_restart [OF that] by simp
  then show ?thesis
    using sample_operator [of n] by (simp add: app_new_def) (simp add: sample_env_def sample_app_def)
qed

section \<open>Runs of the sample service\<close>

lemma sample_env_ok:
  "pretty_ok sample_env" "anchors_ok sample_env" "prints_ok sample_env" "clock_ok (ts sample_env) now"
  "can_sign sample_env (sample_app n)"
  by (simp_all add: pretty_ok_def anchors_ok_def prints_ok_def clock_ok_def can_sign_def sample_signs
      del: not_None_eq)
    (simp_all add: sample_env_def sample_print_def sample_tsa_def split: option.split json.split json_number.split)

text \<open>The service with a journal and no authority, from its start through one commit.\<close>

definition sample_journaled :: "(string, unit) config" where
  "sample_journaled = sample_config\<lparr>state_file := Some [], external_tsa_url := None\<rparr>"

definition sample_start ::
  "(string, string, unit, string, string, string) app_state" where
  "sample_start = (sample_app 0)\<lparr>app_config := sample_journaled\<rparr>"

lemma sample_start_fields [simp]:
  "app_store sample_start = sample_store 0" "app_config sample_start = sample_journaled"
  "app_operator sample_start = app_operator (sample_app 0)"
  by (simp_all add: sample_start_def)

lemma sample_start_new: "app_new sample_env sample_journaled = Some (Inr sample_start)"
proof -
  have "open_store sample_deps (Some (sample_file [])) = Some (Inr (sample_store 0))"
    using sample_restart [of 0] by (simp add: sample_entries_def journal_text_def)
  then show ?thesis
    using sample_operator [of 0]
    by (simp add: app_new_def sample_journaled_def sample_start_def)
      (simp add: sample_env_def sample_app_def sample_config_def)
qed

lemma sample_append_zero:
  "\<exists>st'. store_append sample_deps Wrote (sample_store 0) ''item'' ''c0'' None ''noon'' = Some (st', Inr (sample_record 0)) \<and>
    store_inv sample_deps st' \<and> entries st' = [sample_record 0] \<and>
    journal st' = Some (journal_text sample_deps [sample_record 0])"
proof -
  have "show_nat 0 = ''0''" by code_simp
  then have n: "next_record (sample_store 0) ''item'' ''c0'' None ''noon'' = sample_record 0"
    by (simp add: next_record_def store_size_def as_u64_def sample_record_def)
  from store_append_journaled [of sample_deps "sample_store 0" _ "''item''" "''c0''" None "''noon''"
      "journal_line sample_deps (sample_record 0)", OF sample_store_inv _ sample_store_fields(2)] n
  show ?thesis by (simp add: has_room_def sample_entries_def journal_text_def)
qed

lemma sample_clean_run:
  "\<exists>s1 s resp. clean_run sample_env (idle sample_start) s1 \<and> clean_run sample_env s1 s \<and>
    tasks s1 0 = Some (Accepted (''item'', ''c0'', None)) \<and> entries (app_store (app s1)) = [] \<and>
    tasks s 0 = Some (Answered resp) \<and> resp_status resp = 201 \<and> entries (app_store (app s)) = [sample_record 0] \<and>
    journal (app_store (app s)) = Some (journal_text sample_deps [sample_record 0]) \<and> tasks s 1 = None"
proof -
  obtain st' where st': "store_append sample_deps Wrote (sample_store 0) ''item'' ''c0'' None ''noon'' = Some (st', Inr (sample_record 0))"
    "store_inv sample_deps st'" "entries st' = [sample_record 0]"
    "journal st' = Some (journal_text sample_deps [sample_record 0])" using sample_append_zero by blast
  let ?ap = "sample_start\<lparr>app_store := st'\<rparr>"
  have "unat (seq (sample_record 0)) < length (entries st')" using st'(3) by simp
  from receipt_of_signed [OF st'(2) this sample_signs, of "''log''" "''seed''"] obtain rc where
    "receipt_of sample_deps sample_signing st' (seq (sample_record 0)) ''log'' ''seed'' = Some (Some rc)" by blast
  then obtain j where j: "commit_append sample_env Wrote ''noon'' sample_start (''item'', ''c0'', None) = Some (?ap, Inr j)"
    using st'(1) by (simp add: commit_append_def)
  obtain resp where resp: "commit_response sample_env (Inr j) = Some resp" "resp_status resp = 201"
    using sample_answer by blast
  let ?s0 = "idle sample_start"
  let ?s1 = "set_task 0 (Accepted (''item'', ''c0'', None)) ?s0"
  let ?s2 = "set_task 0 (Sequenced (Inr j)) (?s1\<lparr>app := ?ap\<rparr>)"
  let ?s3 = "set_task 0 (Answered resp) ?s2"
  have "check_commit sample_env sample_start headers ''post'' = Inr (''item'', ''c0'', None)" for headers
    by (rule sample_check_open) (simp_all add: sample_journaled_def sample_config_def)
  then have a: "commit_step sample_env ?s0 ?s1" by (intro commit_step.accept) (simp_all add: idle_def)
  have b: "commit_step sample_env ?s1 ?s2"
    by (rule commit_step.sequence) (use j in \<open>simp_all add: idle_def\<close>)
  have c: "commit_step sample_env ?s2 ?s3"
    by (rule commit_step.answer_unanchored) (use resp in \<open>simp_all add: nothing_to_submit_def sample_journaled_def\<close>)
  have "\<not> failed_append ?s0 ?s1" "\<not> failed_append ?s1 ?s2" "\<not> failed_append ?s2 ?s3"
    by (simp_all add: failed_append_def idle_def)
  with a b c have k: "clean_step sample_env ?s0 ?s1" "clean_step sample_env ?s1 ?s2" "clean_step sample_env ?s2 ?s3"
    by (simp_all only: clean_step_def simp_thms)
  note run = rtranclp.rtrancl_into_rtrancl [of "clean_step sample_env"]
  have "clean_run sample_env ?s0 ?s1" "clean_run sample_env ?s1 ?s3"
    by (rule run [OF rtranclp.rtrancl_refl k(1)], rule run [OF run [OF rtranclp.rtrancl_refl k(2)] k(3)])
  moreover have "tasks ?s3 0 = Some (Answered resp)" "tasks ?s1 0 = Some (Accepted (''item'', ''c0'', None))"
    by simp_all
  moreover have "entries (app_store (app ?s1)) = []" by (simp add: idle_def sample_entries_def)
  ultimately show ?thesis using resp(2) st'(3,4)
    by - (rule exI [of _ ?s1], rule exI [of _ ?s3], rule exI [of _ resp], simp)
qed

text \<open>The same service after its first entry, ended and started again.\<close>

lemma clean_run_life: "clean_run A s s' \<Longrightarrow> clean_life A s s'"
  by (rule rtranclp_mono [THEN predicate2D]) (auto intro: clean_life_step.work)

lemma sample_start_synced: "synced (dp sample_env) (app_store (app (idle sample_start)))"
  using sample_synced [of 0] by simp

lemma sample_restarted_run:
  "\<exists>s1 s resp. clean_life sample_env (idle sample_start) s1 \<and> clean_life sample_env s1 s \<and>
    tasks s1 0 = Some (Accepted (''item'', ''c0'', None)) \<and> entries (app_store (app s1)) = [] \<and>
    tasks s 0 = Some (Answered resp) \<and> resp_status resp = 201 \<and>
    entries (app_store (app s)) = [sample_record 0] \<and> app_tsa (app s) = None \<and>
    app_config (app s) = sample_journaled \<and> tasks s 1 = None \<and> \<not> poisoned s \<and>
    journal (app_store (app s)) = Some (journal_text sample_deps [sample_record 0])"
proof -
  let ?j = "journal_text sample_deps [sample_record 0]"
  let ?fs = "\<lambda>_. sample_file ?j"
  obtain s1 s resp where s: "clean_run sample_env (idle sample_start) s1" "clean_run sample_env s1 s"
    "tasks s1 0 = Some (Accepted (''item'', ''c0'', None))" "entries (app_store (app s1)) = []"
    "tasks s 0 = Some (Answered resp)" "resp_status resp = 201" "entries (app_store (app s)) = [sample_record 0]"
    "journal (app_store (app s)) = Some ?j" "tasks s 1 = None" using sample_clean_run by blast
  note start = service_inv_start [OF sample_start_new]
  have life: "clean_life sample_env (idle sample_start) s1" "clean_life sample_env s1 s"
    by (rule clean_run_life [OF s(1)], rule clean_run_life [OF s(2)])
  then have run: "steady_life sample_env (idle sample_start) s"
    using clean_life_steady(1) [OF _ start sample_start_synced] by (meson rtranclp_trans)
  have inv: "service_inv sample_env s" by (rule life_inv(1) [OF run start])
  have c: "app_config (app s) = sample_journaled" using life_inv(2) [OF run start] by simp
  then have f: "state_file (app_config (app s)) = Some []" by (simp add: sample_journaled_def)
  have k: "journal_kept sample_env ?fs [] (app s)"
    unfolding journal_kept_def
    using s(7,8) f sample_line_ok sample_file_plain [of ?j] by (simp add: synced_def torn_ok_def)
  from journal_kept_restart [OF inv k] obtain ap' where
    ap': "app_new (sample_env\<lparr>file_at := ?fs\<rparr>) (app_config (app s)) = Some (Inr ap')"
    "entries (app_store ap') = [sample_record 0]" "journal (app_store ap') = Some ?j" using s(7) by auto
  have "clean_life_step sample_env s (restarted ap' s)"
    by (rule clean_life_step.restart [OF _ f _ _ _ ap'(1), where ct = None])
      (use s(7,8) sample_line_ok sample_file_plain [of ?j] in
        \<open>simp_all add: between_lines_def reads_back_def being_written_def left_on_disk_def plain_file_def\<close>)
  with life(2) have "clean_life sample_env s1 (restarted ap' s)" by (rule rtranclp.rtrancl_into_rtrancl)
  moreover have "app_tsa ap' = None" "app_config ap' = sample_journaled"
    using app_new_inv [OF ap'(1)] c by simp_all
  ultimately show ?thesis using life(1) s(3-6,9) ap'(2,3)
    by - (rule exI [of _ s1], rule exI [of _ "restarted ap' s"], rule exI [of _ resp], simp)
qed

lemma sample_check_next:
  assumes "app_config ap = sample_journaled"
  shows "check_commit sample_env ap headers ''next'' = Inr (''item'', ''c1'', None)"
proof -
  have "trim ''item'' = ''item''" "trim ''c1'' = ''c1''" by code_simp+
  moreover have "sample_parse ''next'' = Inr sample_next_body" by (simp add: sample_parse_def)
  moreover have "append_token (app_config ap) = None" using assms by (simp add: sample_journaled_def sample_config_def)
  ultimately show ?thesis
    by (simp add: check_commit_def require_append_def parse_body_def req_str_def
        req_commitment_def opt_u64_def sample_next_body_def)
qed

text \<open>And with a second request waiting, whose line may be in the making.\<close>

lemma sample_writing_run:
  "\<exists>s resp. clean_life sample_env (idle sample_start) s \<and> acknowledged s 0 resp \<and>
    being_written sample_env s (Some (sample_record 1, n)) \<and> entries (app_store (app s)) = [sample_record 0] \<and>
    journal (app_store (app s)) = Some (journal_text sample_deps [sample_record 0])"
proof -
  obtain s1 s0 resp where s: "clean_life sample_env (idle sample_start) s1" "clean_life sample_env s1 s0"
    "tasks s0 0 = Some (Answered resp)" "resp_status resp = 201" "entries (app_store (app s0)) = [sample_record 0]"
    "app_config (app s0) = sample_journaled" "tasks s0 1 = None" "\<not> poisoned s0"
    "journal (app_store (app s0)) = Some (journal_text sample_deps [sample_record 0])"
    using sample_restarted_run by blast
  let ?s = "set_task 1 (Accepted (''item'', ''c1'', None)) s0"
  have "commit_step sample_env s0 ?s"
    by (rule commit_step.accept [OF s(7) sample_check_next [OF s(6)]])
  then have "clean_step sample_env s0 ?s" using s(7) by (auto simp: clean_step_def failed_append_def)
  then have "clean_life sample_env (idle sample_start) ?s"
    using s(1,2) clean_life_step.work by (metis (no_types, lifting) rtranclp.rtrancl_into_rtrancl rtranclp_trans)
  moreover have z: "show_nat 1 = ''1''" by code_simp
  then have "next_record (app_store (app ?s)) ''item'' ''c1'' None ''noon'' = sample_record 1"
    using s(5) by (simp add: next_record_def store_size_def sample_record_def as_u64_def)
  then have "being_written sample_env ?s (Some (sample_record 1, n))"
    unfolding being_written_def using s(8) by (auto intro!: exI [of _ 1] exI [of _ "''noon''"])
  moreover have "acknowledged ?s 0 resp" using s(3,4) by (simp add: acknowledged_def)
  moreover have "entries (app_store (app ?s)) = [sample_record 0]"
    "journal (app_store (app ?s)) = Some (journal_text sample_deps [sample_record 0])" using s(5,9) by simp_all
  ultimately show ?thesis by blast
qed

text \<open>The sample service with an authority that never answers a connection.\<close>

definition absent_env :: "(string, string, unit, string, string, string, string) api_env" where
  "absent_env = sample_env\<lparr>ts := sample_tsa\<lparr>peer := \<lambda>_ _. absent_peer\<rparr>\<rparr>"

lemma absent_env_new: "app_new absent_env c = app_new sample_env c"
  by (simp add: absent_env_def app_new_def cong: sum.case_cong)

lemma absent_env_ok:
  "pretty_ok absent_env" "anchors_ok absent_env" "clock_ok (ts absent_env) now" "can_sign absent_env (sample_app n)"
  "authority_ok absent_env u"
proof -
  show "pretty_ok absent_env" "anchors_ok absent_env" "can_sign absent_env (sample_app n)"
    using sample_env_ok by (simp_all add: absent_env_def pretty_ok_def anchors_ok_def can_sign_def)
  show "clock_ok (ts absent_env) now" by (simp add: absent_env_def clock_ok_def sample_tsa_def)
  show "authority_ok absent_env u"
    using absent_peer_takes by (simp add: absent_env_def authority_ok_def replies_decode_def) (simp add: absent_peer_def)
qed

lemma sample_request: "request_of (sample_record 0) = (''item'', ''c0'', None)"
proof -
  have "show_nat 0 = ''0''" by code_simp
  then show ?thesis by (simp add: request_of_def sample_record_def)
qed

text \<open>One commit against the log of one entry, answered and anchored.\<close>

lemma sample_anchored_run:
  "\<exists>s sth r. commit_run sample_env (idle (sample_app 1)) s \<and> read_head sample_env (app s) = Some (Some sth) \<and>
    app_tsa (app s) = Some r \<and> tr_tree_size r = sth_tree_size sth"
proof -
  obtain ap' resp sth r where c: "commit sample_env Wrote ''noon'' ''noon'' (sample_app 1) (\<lambda>_. None) ''post'' = Some (ap', resp)"
    "read_head sample_env ap' = Some (Some sth)" "app_tsa ap' = Some r" "tr_tree_size r = sth_tree_size sth"
    using sample_commit by blast
  let ?s = "set_task 0 (Answered resp) ((idle (sample_app 1))\<lparr>app := ap'\<rparr>)"
  have "commit_run sample_env (idle (sample_app 1)) ?s"
    by (rule commit_is_run) (use c(1) in simp_all)
  with c(2-4) show ?thesis by - (rule exI [of _ ?s], rule exI [of _ sth], rule exI [of _ r], simp)
qed

text \<open>The service in memory, with a printer and a parser for the one receipt it will issue.\<close>

definition printed_config :: "(string, unit) config" where
  "printed_config = sample_config\<lparr>external_tsa_url := None\<rparr>"

definition printed_start :: "(string, string, unit, string, string, string) app_state" where
  "printed_start = \<lparr>app_config = printed_config, app_operator = app_operator (sample_app 0),
     app_store = empty_store, app_tsa = None\<rparr>"

definition printing_env :: "json \<Rightarrow> (string, string, unit, string, string, string, string) api_env" where
  "printing_env v = sample_env\<lparr>
     dp := sample_deps\<lparr>json_from_str := (\<lambda>s. if s = ''receipt'' then Inr v else sample_parse s)\<rparr>,
     to_string_pretty := (\<lambda>w. if w = v then Inr ''receipt'' else Inl ''unknown'')\<rparr>"

lemma printed_start_new: "app_new (printing_env v) printed_config = Some (Inr printed_start)"
proof -
  have c: "operator_cfg printed_config = operator_cfg sample_config" "state_file printed_config = None"
    by (simp_all add: printed_config_def sample_config_def)
  have e: "sg (printing_env v) = sample_signing" "ky (printing_env v) = sample_keys"
    by (simp_all add: printing_env_def) (simp add: sample_env_def)
  show ?thesis using sample_operator [of 0] by (simp add: app_new_def c e open_store_def printed_start_def)
qed

lemma receipt_of_parser: "receipt_of (D\<lparr>json_from_str := f\<rparr>) = receipt_of D"
proof -
  have "store_inclusion_path (D\<lparr>json_from_str := f\<rparr>) = store_inclusion_path D"
    "store_root_at_size (D\<lparr>json_from_str := f\<rparr>) = store_root_at_size D"
    by (simp_all add: fun_eq_iff store_inclusion_path_def store_root_at_size_def)
  then show ?thesis unfolding fun_eq_iff receipt_of_def by (simp cong: option.case_cong)
qed

lemma receipt_to_json_parser: "receipt_to_json (D\<lparr>json_from_str := f\<rparr>) = receipt_to_json D"
proof -
  have n: "node_json (D\<lparr>json_from_str := f\<rparr>) = node_json D" by (simp add: fun_eq_iff node_json_def)
  have p: "proof_json (D\<lparr>json_from_str := f\<rparr>) = proof_json D" by (intro ext) (simp add: proof_json_def n)
  have h: "sth_json (D\<lparr>json_from_str := f\<rparr>) = sth_json D" by (simp add: fun_eq_iff sth_json_def)
  show ?thesis by (intro ext) (simp add: receipt_to_json_def p h Let_def)
qed

lemma store_append_parser:
  "store_append (D\<lparr>json_from_str := f\<rparr>) = store_append D"
proof -
  have "apply_record (D\<lparr>json_from_str := f\<rparr>) = apply_record D" "record_to_json (D\<lparr>json_from_str := f\<rparr>) = record_to_json D"
    by (simp_all add: fun_eq_iff apply_record_def record_to_json_def)
  then show ?thesis unfolding fun_eq_iff store_append_def Let_def
    by (simp cong: option.case_cong sum.case_cong write_outcome.case_cong)
qed

lemma commit_append_printing: "commit_append (printing_env v) = commit_append (printing_env w)"
proof -
  have "commit_append (printing_env v) = commit_append sample_env" for v
    unfolding fun_eq_iff commit_append_def operator_view_def
    by (simp add: printing_env_def receipt_of_parser receipt_to_json_parser store_append_parser cong: sum.case_cong)
  then show ?thesis by simp
qed

lemma printing_fields [simp]:
  "dp (printing_env v) = sample_deps\<lparr>json_from_str := (\<lambda>s. if s = ''receipt'' then Inr v else sample_parse s)\<rparr>"
  "sg (printing_env v) = sample_signing" "key_of printed_start = ''seed''"
  "app_config printed_start = printed_config" "app_store printed_start = empty_store"
  by (simp_all add: printing_env_def printed_start_def)

lemma printed_life:
  "\<exists>v s resp. steady_life (printing_env v) (idle printed_start) s \<and> acknowledged s 0 resp \<and> resp_body resp = ''receipt''"
proof -
  have "app_inv (printing_env v) printed_start" for v
    using app_new_inv [OF printed_start_new] by blast
  moreover have "has_room (app_store printed_start)" by (simp add: has_room_def empty_store_def)
  moreover have "can_sign (printing_env v) printed_start" for v by (simp add: can_sign_def sample_signs)
  moreover have "prints_ok (printing_env v)" for v using sample_env_ok(3) by (simp add: prints_ok_def)
  ultimately obtain ap' v where
    a: "commit_append (printing_env JNull) Wrote ''noon'' printed_start (''item'', ''c0'', None) = Some (ap', Inr v)"
    using commit_append_written [of "printing_env JNull" printed_start "''noon''" "(''item'', ''c0'', None)"] by blast
  note a = a [unfolded commit_append_printing [of JNull v]]
  obtain resp where resp: "commit_response (printing_env v) (Inr v) = Some resp" "resp_status resp = 201"
    "resp_body resp = ''receipt''"
    by (simp add: commit_response_def json_response_def build_response_def printing_env_def)
  have "check_commit (printing_env v) printed_start (\<lambda>_. None) ''post'' = Inr (''item'', ''c0'', None)"
    by (rule sample_check_open) (simp_all add: printed_config_def sample_config_def)
  then have "commit (printing_env v) Wrote ''noon'' ''noon'' printed_start (\<lambda>_. None) ''post'' = Some (ap', resp)"
    using a resp(1) by (simp add: commit_def printed_config_def)
  then have "commit_run (printing_env v) (idle printed_start)
      (set_task 0 (Answered resp) ((idle printed_start)\<lparr>app := ap'\<rparr>))"
    by (intro commit_is_run) simp_all
  then have "steady_life (printing_env v) (idle printed_start)
      (set_task 0 (Answered resp) ((idle printed_start)\<lparr>app := ap'\<rparr>))" by (rule commit_run_life)
  with resp(2,3) show ?thesis
    by (intro exI conjI) (assumption, simp_all add: acknowledged_def)
qed

section \<open>A rival entry\<close>

text \<open>One more record that could be the log's second entry, and a printer that knows it too.\<close>

definition rival_record :: "(string, string) commit_record" where
  "rival_record = (sample_record 1)\<lparr>commitment := ''d1''\<rparr>"

definition rival_deps :: "(string, string) deps" where
  "rival_deps = sample_deps\<lparr>
     json_from_str := (\<lambda>s. if s = ''rival'' then Inr (record_to_json sample_deps rival_record) else sample_parse s),
     json_to_string := (\<lambda>v. if v = record_to_json sample_deps rival_record then Inr ''rival'' else sample_print v)\<rparr>"

lemma rival_fields [simp]:
  "leaf_hash rival_deps = sample_leaf" "node_hash rival_deps = sample_node"
  "json_from_str rival_deps s = (if s = ''rival'' then Inr (record_to_json sample_deps rival_record) else sample_parse s)"
  "json_to_string rival_deps v = (if v = record_to_json sample_deps rival_record then Inr ''rival'' else sample_print v)"
  "record_to_json rival_deps = record_to_json sample_deps" "text_forms_ok rival_deps"
  by (simp_all add: rival_deps_def fun_eq_iff record_to_json_def text_forms_ok_def)

lemma rival_differs: "record_to_json sample_deps (sample_record n) \<noteq> record_to_json sample_deps rival_record"
proof
  assume "record_to_json sample_deps (sample_record n) = record_to_json sample_deps rival_record"
  then have "get (record_to_json sample_deps (sample_record n)) ''commitment''
      = get (record_to_json sample_deps rival_record) ''commitment''" by simp
  then show False by (simp add: record_to_json_def rival_record_def sample_record_def)
qed

lemma rival_record_line: "journal_line rival_deps (sample_record n) = journal_line sample_deps (sample_record n)"
  by (simp add: journal_line_def rival_differs sample_print_record del: sample_print_line)

lemma rival_text: "journal_text rival_deps (sample_entries n) = journal_text sample_deps (sample_entries n)"
  by (simp add: journal_text_def sample_entries_def rival_record_line comp_def)

lemma rival_lines_ok: "line_ok rival_deps Inr (sample_record n)" "line_ok rival_deps Inr rival_record"
proof -
  have "''record '' @ show_nat (unat n) \<noteq> ''rival''" by simp
  then show "line_ok rival_deps Inr (sample_record n)"
    using sample_line_ok [of n] rival_differs [of n] by (simp add: line_ok_def sample_journal_line)
  show "line_ok rival_deps Inr rival_record" by (simp add: line_ok_def newline_def)
qed

lemma rival_store_inv: "n < 2 ^ 64 \<Longrightarrow> store_inv rival_deps (sample_store n)"
  using sample_store_inv [of n] by (simp add: store_inv_def)

lemma rival_parse: "s \<noteq> ''rival'' \<Longrightarrow> parse_line rival_deps s = parse_line sample_deps s"
proof -
  have "record_from_json rival_deps = record_from_json sample_deps"
    by (simp add: record_from_json_def [abs_def]) (simp add: rival_deps_def)
  then show "s \<noteq> ''rival'' \<Longrightarrow> parse_line rival_deps s = parse_line sample_deps s" by (simp add: parse_line_def)
qed

lemma rival_torn:
  "parse_line rival_deps ''rec'' = Inl ''expected value''"
  "parse_line rival_deps (''rec'' @ journal_line rival_deps (sample_record 1)) = Inl ''expected value''"
  "trim (''rec'' @ journal_line rival_deps (sample_record 1)) \<noteq> []"
proof -
  have "show_nat 1 = ''1''" by code_simp
  then have l: "''rec'' @ journal_line sample_deps (sample_record 1) = ''recrecord 1''"
    by (simp add: sample_journal_line)
  show "parse_line rival_deps ''rec'' = Inl ''expected value''" using sample_torn(1) by (simp add: rival_parse)
  show "parse_line rival_deps (''rec'' @ journal_line rival_deps (sample_record 1)) = Inl ''expected value''"
    "trim (''rec'' @ journal_line rival_deps (sample_record 1)) \<noteq> []"
    using sample_glued(1,2) unfolding rival_record_line l by (simp_all add: rival_parse)
qed
section \<open>A log whose key does not sign\<close>

definition unsigned_env ::
  "(string, string, unit, string, string, string, string) api_env" where
  "unsigned_env = sample_env\<lparr>sg := sample_signing\<lparr>sign_tree_head := \<lambda>_ _. None\<rparr>\<rparr>"

lemma unsigned_fields [simp]:
  "dp unsigned_env = sample_deps" "file_at unsigned_env = file_at sample_env" "ky unsigned_env = ky sample_env"
  "sign_tree_head (sg unsigned_env) k bs = None"
  by (simp_all add: unsigned_env_def)

lemma unsigned_start_new: "app_new unsigned_env sample_journaled = Some (Inr sample_start)"
proof -
  have p: "public_of (sg unsigned_env) = public_of sample_signing" by (simp add: unsigned_env_def)
  have "operator_from_config (sg unsigned_env) K c = operator_from_config sample_signing K c" for K c
    by (simp add: operator_from_config_def p)
  then show ?thesis using sample_start_new by (simp add: app_new_def cong: sum.case_cong)
qed

end
