(* ===== verification/Spec2Isabelle.thy ===== *)
theory Spec2Isabelle
  imports Sample
begin

text \<open>
  unidpp-log is a transparency log: it sequences commitments, keeps an RFC 6962 Merkle
  tree over them, journals them in a JSONL file, and hands out signed inclusion receipts,
  signed tree heads and consistency proofs over HTTP. Each head can also be submitted to
  an RFC 3161 time-stamp authority. This development models the crate's six modules under
  \<open>src/src\<close> and proves what they promise.

  Parts, and where they are modelled.

  \<^item> \<open>tree.rs\<close> is theory Tree: \<open>MerkleTree\<close> is the record \<open>merkle_tree\<close>, and
    \<open>append\<close>, \<open>root_at_size\<close>, \<open>inclusion_path\<close>, \<open>consistency_path\<close> and their helpers are
    one definition each, on 64-bit sizes. Theory Merkle_Spec holds what they compute, by
    RFC 6962: the Merkle tree hash, audit paths, consistency proofs, the two verifiers, and
    the soundness of the verifiers up to explicit hash collisions.
  \<^item> \<open>model.rs\<close> is theory Commit_Record (the record, its JSON, hex) and theory Receipt
    (receipts and heads as derived state, their JSON, and the way back).
  \<^item> \<open>store.rs\<close> is theory Store: \<open>LogStore\<close> is the record \<open>log_store\<close>, with the contents
    of the journal file in the place of the file handle; \<open>open\<close>, \<open>replay\<close> (its loop with
    the look-ahead), \<open>apply\<close>, \<open>append\<close> and the reads are one definition each. The file
    system's answers are arguments: \<open>journal_file\<close> for opening, \<open>write_outcome\<close> for a write
    that may stop after any number of bytes.
  \<^item> \<open>tsa.rs\<close> is theories Der, Tcp, Http, Base64 and Tsa. Tcp has the conversation of
    \<open>http_post_binary\<close> with its time-outs, over the outcome and the duration of each socket
    call; everything before and after it is modelled byte by byte.
  \<^item> \<open>keyring.rs\<close> is theory Keyring. \<open>api.rs\<close> is theories Api (configuration, state,
    response helpers, body parsing), Handlers (the handlers as functions), Interleaving
    (concurrent commits as a step relation, one step per section under a lock, with the
    poisoning of the store's lock by a panic) and Server
    (the route table, \<open>run\<close>, \<open>TestServer::spawn\<close>, \<open>TestServer::stop\<close>, and \<open>main\<close> of
    \<open>main.rs\<close>; what a loaded configuration satisfies; pinned heads; what the read
    endpoints disclose).
  \<^item> Five theories compose them. Durability follows a run to the end of the process and
    the start of the next one on the journal it left, with a torn last line or without.
    Log_Spec is the specification, an append-only list whose clients are told the position
    of their entry, and Service_Refinement shows that every life of the service (processes
    one after the other, each running concurrent commits) is a run of it. Progress shows
    that requests are answered, alone and among others, and builds the schedule in which
    two submissions overtake each other. Poisoning shows what a poisoned lock does to the
    running service and to the next one, and that no request waits for ever.

  Below them, theory Log_Prelude has machine arithmetic, indexing and the collections of
  simplification rules, Rust_Text has strings, lines, trimming and number parsing, and
  Json has JSON values. Theory Sample is a concrete instance of the external functions,
  on which the witnesses of the theorems below are evaluated.

  Interfaces are locales, each interpreted on the model: \<open>append_only_log\<close> (what the store
  may use of the tree) in Tree, \<open>line_codec\<close> (journal lines) and \<open>sequenced_log\<close> (what
  receipts and handlers read of the store) in Store, \<open>forward_simulation\<close> (between a step
  relation and its specification) in Log_Spec, interpreted in Service_Refinement.

  Conventions. \<open>'a checked\<close> is an option whose \<open>None\<close> is a panic: an index out of range,
  an unsigned underflow or overflow, a failed \<open>expect\<close> or \<open>debug_assert\<close> (the semantics of
  a build with debug assertions and overflow checks). Errors are the left values of a sum.
  A string is the list of its UTF-8 bytes. There is no fuel: every loop is a recursive
  function with a termination proof, bounded by the range length (\<open>range_hash\<close>,
  \<open>path_into\<close>, \<open>sub_proof\<close>), by the lines or bytes left (replay, the chunk loop, the digest
  scan) or by the 64 bit positions (\<open>fold_peaks\<close>).

  External functions. The records \<open>deps\<close>, \<open>signing\<close>, \<open>key_api\<close>, \<open>tsa_env\<close> and
  \<open>api_env\<close> collect what other crates provide: hashes and their hex form, timestamps, the
  JSON parser and printer, signing and key derivation, the network, the clock. Theorems
  assume of them only what they name: \<open>text_forms_ok\<close> and \<open>sign_text_ok\<close> (printing and
  parsing are inverse), \<open>line_ok\<close> (a record prints as one non-empty line that parses
  back), \<open>can_sign\<close> (signing does not fail; what happens when it does is a theorem of its
  own). No theorem assumes that hashes are injective.

  The lemmas. Tree and Store carry representation invariants (\<open>tree_inv\<close>, \<open>store_inv\<close>)
  that every operation keeps and that determine the state from the list of entries. On
  them rest the correctness of every query at every historical size, the frozen receipts,
  and the restart theorems. Der, Http and Base64 carry exact characterisations and round
  trips. Interleaving carries \<open>system_inv\<close>, kept by every step of every schedule: a
  receipt held for a client is served, a submission's record covers the head of its size.
  Durability adds that a run without failed appends keeps the journal exact (\<open>synced\<close>),
  Service_Refinement that every step and every restart is matched by the specification
  (\<open>refines\<close>), whose positions are taken once and kept (\<open>spec_inv\<close>, \<open>extends\<close>), Progress
  that every task reaches its answer by its own steps (\<open>completes\<close>) as long as the key
  signs, and so no section panics under the lock (\<open>life_unpoisoned\<close>), Poisoning that a
  poisoned system is frozen (\<open>poisoned_run\<close>) and that without any such assumption every
  task reaches an end (\<open>task_ends\<close>). The heads that the log answers with (\<open>issues_head\<close>)
  are determined by their size and stay the same in every later state. A restart is covered
  when the journal was in step with the log (no failed write since it was opened, no torn
  line before): what happens otherwise is stated in the section on the journal's edges.

  Not modelled: the module declarations of \<open>lib.rs\<close>; axum's matching of paths and
  extraction of request parts, and tokio's listening, serving and shutting down (the
  shutdown channel and the task handle of \<open>TestServer\<close> are values); messages on stderr and
  the \<open>Debug\<close> form of the store; what a panic inside \<open>append\<close> leaves behind (it takes a log
  of \<open>2 ^ 64\<close> entries); the loss of written bytes in a power failure (the code flushes, it
  does not sync); the TSA's signature, which the sources do not check either.
\<close>


section \<open>The log and its promises\<close>

text \<open>
  C1. Appending any list of fewer than 2^64 entries one by one to a new tree never
  panics, and the tree answers root_at_size at every size up to its own with the Merkle
  tree hash of RFC 6962 over that prefix (none for the empty one): the cached levels
  refine the recursive definition.
\<close>

theorem tree_roots_are_rfc6962:
  assumes "length es < 2 ^ 64" and "unat n \<le> length es"
  shows "\<exists>t. build_tree lh nh es = Some t \<and> tsize t = as_u64 (length es) \<and>
    root_at_size nh t n = Some (mth_root lh nh (take (unat n) es))"
proof -
  from build_tree_inv [OF assms(1)] obtain t where t: "build_tree lh nh es = Some t" "tree_inv lh nh es t"
    by blast
  then show ?thesis
    using root_at_size_correct [OF t(2) assms(2)] tree_inv_size [OF t(2)] assms(1)
    by (auto simp: u64_eq_iff)
qed

theorem tree_roots_are_rfc6962_witness:
  "\<exists>t. build_tree sample_leaf sample_node [''a'', ''b'', ''c''] = Some t \<and>
    root_at_size sample_node t 2 = Some (Some ''(LaLb)'')"
  using tree_roots_are_rfc6962 [of "[''a'', ''b'', ''c'']" 2 sample_leaf sample_node]
  by (auto simp: mth_root_def sample_roots)

text \<open>
  C2. For every leaf and every prefix of the log that contains it, inclusion_path
  returns without a panic exactly the RFC 6962 audit path, and the path, leaf and prefix
  root pass the verifier.
\<close>

theorem inclusion_proofs_verify:
  assumes "length es < 2 ^ 64" and "build_tree lh nh es = Some t"
    and "unat m < unat n" and "unat n \<le> length es"
  shows "\<exists>path r. inclusion_path nh t m n = Some path \<and> root_at_size nh t n = Some (Some r) \<and>
    path = audit_path lh nh (unat m) (take (unat n) es) \<and>
    accepts_inclusion lh nh (es ! unat m) (unat m) (unat n) path r"
proof -
  note inv = build_tree_Some [OF assms(2,1)]
  show ?thesis
    using merkle.incl_accepted [OF inv assms(3,4)] merkle.incl_rep [OF inv assms(3,4)] by auto
qed

theorem inclusion_proofs_verify_witness:
  "\<exists>t path r. build_tree sample_leaf sample_node [''a'', ''b'', ''c''] = Some t \<and>
    inclusion_path sample_node t 1 3 = Some path \<and>
    accepts_inclusion sample_leaf sample_node ''b'' 1 3 path r"
proof -
  obtain t where t: "build_tree sample_leaf sample_node [''a'', ''b'', ''c''] = Some t"
    using build_tree_inv [of "[''a'', ''b'', ''c'']" sample_leaf sample_node] by auto
  from inclusion_proofs_verify [OF _ t, of 1 3] t show ?thesis by auto
qed

text \<open>
  C3. For every non-empty prefix, consistency_path returns without a panic exactly the
  RFC 6962 consistency proof, and it ties the prefix root to the current root.
\<close>

theorem consistency_proofs_verify:
  assumes "length es < 2 ^ 64" and "build_tree lh nh es = Some t"
    and "0 < unat n" and "unat n \<le> length es"
  shows "\<exists>path old new. consistency_path nh t n = Some path \<and> root_at_size nh t n = Some (Some old) \<and>
    root nh t = Some (Some new) \<and> path = consistency_proof lh nh (unat n) es \<and>
    accepts_consistency nh (unat n) old (length es) new path"
proof -
  note inv = build_tree_Some [OF assms(2,1)]
  have "tsize t = as_u64 (length es)" using tree_inv_size [OF inv] assms(1) by (simp add: u64_eq_iff)
  then show ?thesis
    using merkle.cons_accepted [OF inv assms(3,4)] merkle.cons_rep [OF inv assms(4)]
    by (auto simp: root_def)
qed

theorem consistency_proofs_verify_witness:
  "\<exists>t path old new. build_tree sample_leaf sample_node [''a'', ''b'', ''c''] = Some t \<and>
    consistency_path sample_node t 2 = Some path \<and>
    accepts_consistency sample_node 2 old 3 new path"
proof -
  obtain t where t: "build_tree sample_leaf sample_node [''a'', ''b'', ''c''] = Some t"
    using build_tree_inv [of "[''a'', ''b'', ''c'']" sample_leaf sample_node] by auto
  from consistency_proofs_verify [OF _ t, of 2] t show ?thesis by (auto simp: numeral_3_eq_3)
qed

text \<open>
  C4. Whatever the journal write does, an append to a well-formed store with room
  returns, keeps the invariant (tree and entries agree, sequence numbers are 0, 1, 2,
  ...), and either sequences exactly the submitted entry under the next number or leaves
  entries and tree untouched.
\<close>

theorem append_sequences_next:
  assumes "store_inv D st" and "has_room st"
  shows "\<exists>st' res. store_append D w st sub com salt at = Some (st', res) \<and> store_inv D st' \<and>
    (case res of
       Inl e \<Rightarrow> entries st' = entries st \<and> tree st' = tree st
     | Inr r \<Rightarrow> unat (seq r) = length (entries st) \<and> commitment r = com \<and> subject r = sub \<and>
         logged_at r = at \<and> salt_ref r = salt \<and> entries st' = entries st @ [r])"
proof -
  from store_append_inv [OF assms, of w sub com salt at] obtain st' res where
    st': "store_append D w st sub com salt at = Some (st', res)" "store_inv D st'"
    and res: "case res of Inl e \<Rightarrow> entries st' = entries st \<and> tree st' = tree st
       | Inr r \<Rightarrow> r = \<lparr>seq = store_size st, logged_at = at, subject = sub, commitment = com,
                        salt_ref = salt\<rparr> \<and> entries st' = entries st @ [r]" by blast
  show ?thesis using st' res assms(1) by (cases res) auto
qed

theorem append_sequences_next_witness:
  "\<exists>st' res. store_append sample_deps Wrote (sample_store 2) ''item'' ''c2'' None ''noon'' = Some (st', res) \<and>
    store_inv sample_deps st'"
  using append_sequences_next [OF sample_store_inv [of 2], of Wrote "''item''" "''c2''" None "''noon''"]
  by (auto simp: has_room_def)

text \<open>
  C5. As long as each restart finds the journal in step with the log, the service
  refines an append-only log. In step: the file holds exactly the lines of the log's
  entries, each with its line feed (so no write has failed half way and no earlier stop
  has torn a line), then at most what the stop itself has cut from the line being
  written, and the lines read back. Under this condition, which C22 shows to be needed,
  every life of the service (processes in sequence, each running concurrent commits,
  with refused requests, failed writes, any answers of the authority, dropped handlers,
  panics under the lock of the store, and stops at any point, even in the middle of a
  write) matches a run of the specification in which each accepted request is appended
  at most once, as a whole, at the end of the log as it is then, and its client is told
  the position it holds, or an error, or nothing. In the specification every entry after
  the first ones belongs to exactly one client.
\<close>

theorem service_refines_spec:
  assumes "app_new A c = Some (Inr ap)" and "steady_life A (idle ap) s"
  shows "\<exists>a. spec_run (spec_start (map request_of (entries (app_store ap)))) a \<and> refines A s a \<and>
    spec_inv (length (entries (app_store ap))) a"
proof -
  let ?a = "spec_start (map request_of (entries (app_store ap)))"
  from svc.run_simulated [OF assms(2) service_inv_start [OF assms(1)] refines_start] obtain a where
    a: "spec_run ?a a" "refines A s a" by blast
  moreover have "spec_inv (length (entries (app_store ap))) a"
    using spec_run_inv [OF a(1) spec_inv_start] by (simp add: spec_start_def)
  ultimately show ?thesis by blast
qed

theorem service_refines_spec_witness:
  "\<exists>s resp a. steady_life sample_env (idle sample_start) s \<and> acknowledged s 0 resp \<and>
    spec_run (spec_start []) a \<and> refines sample_env s a \<and> log a = [(''item'', ''c0'', None)]"
proof -
  obtain s1 s resp where s: "clean_life sample_env (idle sample_start) s1" "clean_life sample_env s1 s"
    "tasks s 0 = Some (Answered resp)" "resp_status resp = 201" "entries (app_store (app s)) = [sample_record 0]"
    using sample_restarted_run by blast
  then have run: "steady_life sample_env (idle sample_start) s"
    using clean_life_steady(1) [OF _ service_inv_start [OF sample_start_new] sample_start_synced]
    by (meson rtranclp_trans)
  from service_refines_spec [OF sample_start_new this] obtain a where
    "spec_run (spec_start []) a" "refines sample_env s a" by (auto simp: sample_entries_def)
  moreover have "log a = [(''item'', ''c0'', None)]"
    using calculation(2) s(5) sample_request by (simp add: refines_def)
  ultimately show ?thesis using run s(3,4) unfolding acknowledged_def by blast
qed

text \<open>
  C6. Through any interleaving, and across restarts that find the journal in step with
  the log (as in C5; C22 shows that the condition is needed), each acknowledged client
  has a position of its own: no two share one, a client acknowledged by some moment lies
  before the log's end at that moment, one whose request is still waiting then gets a
  position past that end (so acknowledgements respect real time), the entry there is
  exactly its subject, commitment and salt reference, and GET /receipt for it answers
  200 with the body the client was sent.
\<close>

theorem each_client_gets_its_own_entry:
  assumes "app_new A c = Some (Inr ap)" and "steady_life A (idle ap) s1" and "steady_life A s1 s2"
  shows "\<exists>pos :: nat \<Rightarrow> nat.
    inj_on pos {i. \<exists>resp. acknowledged s2 i resp} \<and>
    (\<forall>i resp. acknowledged s1 i resp \<longrightarrow> pos i < length (entries (app_store (app s1)))) \<and>
    (\<forall>i rq resp. tasks s1 i = Some (Accepted rq) \<and> acknowledged s2 i resp \<longrightarrow>
       length (entries (app_store (app s1))) \<le> pos i \<and>
       request_of (entries (app_store (app s2)) ! pos i) = rq) \<and>
    (\<forall>i resp. acknowledged s2 i resp \<longrightarrow> pos i < length (entries (app_store (app s2))) \<and>
       (\<exists>resp'. receipt_handler A (app s2) (show_nat (pos i)) = Some resp' \<and>
         resp_status resp' = 200 \<and> resp_body resp' = resp_body resp))"
proof -
  let ?b = "length (entries (app_store ap))"
  from life_positions [OF service_inv_start [OF assms(1)] assms(2) refines_start, of ?b]
  obtain a1 where a1: "refines A s1 a1" "spec_inv ?b a1" "service_inv A s1" "?b \<le> length (log a1)"
    using spec_inv_start [of "map request_of (entries (app_store ap))"] extends_log
    by (metis length_map log_spec.select_convs(1) order_refl spec_start_def)
  from life_positions [OF a1(3) assms(3) a1(1,2,4)] obtain a2 where
    a2: "extends a1 a2" "refines A s2 a2" "spec_inv ?b a2" "service_inv A s2" .
  have l1: "length (log a1) = length (entries (app_store (app s1)))" using a1(1) by (simp add: refines_def)
  have inv: "app_inv A (app s2)" using a2(4) by (rule service_inv_app)
  have "inj_on (position_of a2) {i. \<exists>resp. acknowledged s2 i resp}"
  proof (rule inj_onI, clarify)
    fix i j resp resp'
    assume i: "acknowledged s2 i resp" and j: "acknowledged s2 j resp'" and "position_of a2 i = position_of a2 j"
    then show "i = j"
      using acknowledged_position [OF a2(2) i] acknowledged_position [OF a2(2) j] position_unique [OF a2(3)] by metis
  qed
  moreover have "request_of (entries (app_store (app s2)) ! position_of a2 i) = rq"
    if "tasks s1 i = Some (Accepted rq)" "acknowledged s2 i resp" for i rq resp
    using spec_inv_position [OF a2(3) pending_then_acknowledged(1) [OF a1(1) a2(2,1) that]] a2(2)
    by (auto simp: refines_def)
  moreover have "position_of a2 i < length (entries (app_store (app s2))) \<and>
       (\<exists>resp'. receipt_handler A (app s2) (show_nat (position_of a2 i)) = Some resp' \<and>
         resp_status resp' = 200 \<and> resp_body resp' = resp_body resp)" if ak: "acknowledged s2 i resp" for i resp
    using acknowledged_position [OF a2(2) ak] receipt_at_served [OF inv] unfolding receipt_at_def by metis
  ultimately show ?thesis
    using acknowledged_before [OF a1(1) a2(1)] pending_then_acknowledged(2) [OF a1(1) a2(2,1)] l1
    by (intro exI [of _ "position_of a2"]) auto
qed

theorem each_client_gets_its_own_entry_witness:
  "\<exists>s1 s2 resp. steady_life sample_env (idle sample_start) s1 \<and> steady_life sample_env s1 s2 \<and>
    tasks s1 0 = Some (Accepted (''item'', ''c0'', None)) \<and> acknowledged s2 0 resp \<and>
    (\<exists>n resp'. request_of (entries (app_store (app s2)) ! n) = (''item'', ''c0'', None) \<and>
      receipt_handler sample_env (app s2) (show_nat n) = Some resp' \<and> resp_body resp' = resp_body resp)"
proof -
  obtain s1 s2 resp where s: "clean_life sample_env (idle sample_start) s1" "clean_life sample_env s1 s2"
    "tasks s1 0 = Some (Accepted (''item'', ''c0'', None))" "tasks s2 0 = Some (Answered resp)" "resp_status resp = 201"
    using sample_restarted_run by blast
  note start = service_inv_start [OF sample_start_new]
  note k = clean_life_steady [OF s(1) start sample_start_synced]
  have l: "steady_life sample_env (idle sample_start) s1" "steady_life sample_env s1 s2"
    using k(1) clean_life_steady(1) [OF s(2) life_inv(1) [OF k(1) start] k(2)] by simp_all
  have a: "acknowledged s2 0 resp" using s(4,5) by (simp add: acknowledged_def)
  from each_client_gets_its_own_entry [OF sample_start_new l] l s(3) a show ?thesis by meson
qed

text \<open>
  C7. Durability, under three conditions: the service was first started on a journal of
  whole lines only, no append has failed, and no earlier stop was inside a line or
  between a line and its line feed. Then, however often it was started again, it can
  stop once more between any two sections of any concurrent commits or after any number
  of bytes of the line being written. A new process on that journal starts with the
  entries the old one had, and with one more exactly when the whole line of the record
  being written (with or without its line feed) is there, and serves every receipt
  acknowledged with 201 with the same body. The one exception is a cut inside a line
  that leaves bytes the file cannot be read with (inside a multi-byte character): then
  the start is refused with the read error.
\<close>

theorem acknowledged_receipts_survive_crash:
  assumes "app_new A c = Some (Inr ap)" and "state_file c = Some p" and "synced (dp A) (app_store ap)"
    and "clean_life A (idle ap) s" and "being_written A s ct" and "has_room (app_store (app s))"
    and "reads_back (dp A) (fs p) ct (entries (app_store (app s)))"
    and "journal (app_store (app s)) = Some body" and "plain_file (fs p) (body @ cut_text (dp A) ct)"
  shows "(\<exists>ap'. app_new (A\<lparr>file_at := fs\<rparr>) c = Some (Inr ap') \<and>
      entries (app_store ap') = survivors (dp A) ct (entries (app_store (app s))) \<and>
      (\<forall>i resp. acknowledged s i resp \<longrightarrow> (\<exists>n < length (entries (app_store (app s))). \<exists>resp'.
        receipt_handler (A\<lparr>file_at := fs\<rparr>) ap' (show_nat n) = Some resp' \<and>
        resp_status resp' = 200 \<and> resp_body resp' = resp_body resp))) \<or>
    cut_inside (dp A) ct \<and> (\<exists>e. read_line (fs p) (cut_text (dp A) ct) = Inl e \<and>
      app_new (A\<lparr>file_at := fs\<rparr>) c = Some (Inl (Journal (''journal read error: '' @ e))))"
proof -
  note start = service_inv_start [OF assms(1)]
  have k: "steady_life A (idle ap) s" "synced (dp A) (app_store (app s))"
    using clean_life_steady [OF assms(4) start] assms(3) by simp_all
  note s = life_inv(1) [OF k(1) start]
  have c: "app_config (app s) = c" using life_inv(2) [OF k(1) start] app_new_inv [OF assms(1)] by simp
  have p: "state_file (app_config (app s)) = Some p" using assms(2) c by simp
  have sq: "\<forall>r n. ct = Some (r, n) \<longrightarrow> seq r = store_size (app_store (app s))"
    using assms(5) by (auto simp: being_written_def next_record_def)
  have "operator_from_config (sg A) (ky A) (operator_cfg (app_config (app s))) = Inr (app_operator (app s))"
    using s by (simp add: service_inv_def)
  note after = app_after_cut [where fs = fs and p = p and ct = ct, OF service_inv_app [OF s] this p assms(6) k(2) assms(7) sq assms(8,9), unfolded c]
  have "in_step A fs ct s" using k(2) p assms(7) by (auto simp: in_step_def)
  moreover have "left_on_disk A fs ct (app s)" using p assms(8,9) by (auto simp: left_on_disk_def plain_file_def)
  moreover obtain a where a: "refines A s a" using svc.run_simulated [OF k(1) start refines_start] by blast
  have "\<exists>n < length (entries (app_store (app s))). \<exists>resp'.
      receipt_handler (A\<lparr>file_at := fs\<rparr>) ap' (show_nat n) = Some resp' \<and>
      resp_status resp' = 200 \<and> resp_body resp' = resp_body resp"
    if g: "grown A (app s) ap'" and i: "acknowledged s i resp" for ap' i resp
  proof -
    from acknowledged_position [OF a i] obtain n j where n: "receipt_at A (app s) n j" "json_response A 201 j = Some resp" by blast
    have "app_inv A ap'" using g by (simp add: grown_def)
    from receipt_at_served [OF this receipt_at_grown [OF service_inv_app [OF s] g n(1)] n(2)] n(1) show ?thesis
      by (auto simp: receipt_at_def)
  qed
  ultimately show ?thesis using after restart_in_step(2) [OF s] c by blast
qed

theorem acknowledged_receipts_survive_crash_witness:
  "\<exists>s resp ap' fs. clean_life sample_env (idle sample_start) s \<and> acknowledged s 0 resp \<and>
    being_written sample_env s (Some (sample_record 1, 3)) \<and>
    app_new (sample_env\<lparr>file_at := fs\<rparr>) sample_journaled = Some (Inr ap') \<and>
    entries (app_store ap') = [sample_record 0] \<and>
    (\<exists>n resp'. receipt_handler (sample_env\<lparr>file_at := fs\<rparr>) ap' (show_nat n) = Some resp' \<and>
      resp_body resp' = resp_body resp)"
proof -
  let ?ct = "Some (sample_record 1, 3 :: nat)" and ?j = "journal_text sample_deps [sample_record 0]"
  let ?fs = "\<lambda>_. sample_file (?j @ cut_text sample_deps ?ct)"
  obtain s resp where s: "clean_life sample_env (idle sample_start) s" "acknowledged s 0 resp"
    "being_written sample_env s ?ct" "entries (app_store (app s)) = [sample_record 0]"
    "journal (app_store (app s)) = Some ?j" using sample_writing_run by blast
  have f: "state_file sample_journaled = Some []" by (simp add: sample_journaled_def)
  have room: "has_room (app_store (app s))" using s(4) by (simp add: has_room_def)
  have rd: "reads_back (dp sample_env) (?fs []) ?ct (entries (app_store (app s)))"
    using s(4) sample_line_ok sample_cuts(2) by (simp add: reads_back_def)
  have pl: "plain_file (?fs []) (?j @ cut_text (dp sample_env) ?ct)" using sample_file_plain by simp
  have nr: "read_line (?fs []) l \<noteq> Inl e" for l e by simp
  have start: "synced (dp sample_env) (app_store sample_start)" using sample_start_synced by simp
  have len: "survivors (dp sample_env) ?ct [sample_record 0] = [sample_record 0]" by (simp add: sample_journal_line)
  from acknowledged_receipts_survive_crash [where fs = ?fs, OF sample_start_new f start s(1,3) room rd s(5) pl] nr
  obtain ap' where "app_new (sample_env\<lparr>file_at := ?fs\<rparr>) sample_journaled = Some (Inr ap')"
    "entries (app_store ap') = survivors (dp sample_env) ?ct (entries (app_store (app s)))"
    "\<And>i resp. acknowledged s i resp \<Longrightarrow> \<exists>n resp'. receipt_handler (sample_env\<lparr>file_at := ?fs\<rparr>) ap' (show_nat n) = Some resp' \<and>
      resp_body resp' = resp_body resp" by blast
  with s(1-4) len show ?thesis by metis
qed

text \<open>
  C8. A receipt issued for an entry carries that entry, a head of the prefix that ends
  with it whose signature verifies under the operator's public key, and an inclusion
  proof that the verifier accepts against the root in that head.
\<close>

theorem receipts_verify:
  assumes "store_inv D st" and "unat sq < length (entries st)"
    and "receipt_of D S st sq lid op = Some (Some rc)"
    and "\<And>bs sig. sign_tree_head S op bs = Some sig \<Longrightarrow> verify_tree_head S (public_of S op) bs sig"
  shows "receipt_record rc = entries st ! unat sq \<and>
    leaf_index (inclusion rc) = sq \<and> unat (proof_tree_size (inclusion rc)) = Suc (unat sq) \<and>
    sth_tree_size (tree_head rc) = proof_tree_size (inclusion rc) \<and>
    verify_tree_head S (public_of S op)
      (canonical_bytes S (sth_log_id (tree_head rc)) (sth_tree_size (tree_head rc))
        (sth_timestamp (tree_head rc)) (sth_root (tree_head rc))) (sth_signature (tree_head rc)) \<and>
    accepts_inclusion (leaf_hash D) (node_hash D) (commitment (receipt_record rc))
      (unat (leaf_index (inclusion rc))) (unat (sth_tree_size (tree_head rc))) (path (inclusion rc))
      (sth_root (tree_head rc))"
  using receipt_of_verifies [OF assms(1-3)] assms(4) by blast

theorem receipts_verify_witness:
  "\<exists>rc. receipt_of sample_deps sample_signing (sample_store 3) 1 ''log'' ''key'' = Some (Some rc) \<and>
    accepts_inclusion sample_leaf sample_node (commitment (receipt_record rc)) (unat (leaf_index (inclusion rc)))
      (unat (sth_tree_size (tree_head rc))) (path (inclusion rc)) (sth_root (tree_head rc))"
proof -
  have sq: "unat (1 :: u64) < length (entries (sample_store 3))" by simp
  have "\<forall>bs. sign_tree_head sample_signing ''key'' bs \<noteq> None" by (simp add: sample_signing_def)
  from receipt_of_signed [OF sample_store_inv sq this, of "''log''"] obtain rc where
    rc: "receipt_of sample_deps sample_signing (sample_store 3) 1 ''log'' ''key'' = Some (Some rc)" by auto
  from receipts_verify [OF sample_store_inv sq rc sample_signing_ok] rc show ?thesis by auto
qed

text \<open>
  C9. End to end: the body of any 201 that a client has ever been sent, in any life of
  the service, whatever journals it was started again on, is all it needs. Parsed again,
  it yields a signed head whose signature verifies under the operator's public key, a
  record, and an inclusion proof that the verifier accepts for the record, at its
  sequence number, against that head's root. As long as each restart found the journal
  in step with the log (as in C5), the record is also the log's entry at the position
  proved; after other restarts it need not be (C22).
\<close>

theorem acknowledged_body_verifies:
  assumes "app_new A c = Some (Inr ap)" and "life A (idle ap) s" and "acknowledged s i resp"
    and "text_forms_ok (dp A)" and "sign_text_ok (sg A)"
    and "\<forall>v. to_string_pretty A v = Inr (resp_body resp) \<longrightarrow> json_from_str (dp A) (resp_body resp) = Inr v"
    and "\<forall>bs sig. sign_tree_head (sg A) (key_of ap) bs = Some sig \<longrightarrow>
       verify_tree_head (sg A) (public_of (sg A) (key_of ap)) bs sig \<and> signature_value sig \<noteq> None"
  shows "\<exists>v h p sth pf r. json_from_str (dp A) (resp_body resp) = Inr v \<and>
    get v ''tree_head'' = Some h \<and> get v ''inclusion'' = Some p \<and>
    sth_from_json (dp A) (sg A) h = Some (Inr sth) \<and> proof_from_json (dp A) p = Inr pf \<and>
    record_from_json (dp A) v = Inr r \<and>
    verify_tree_head (sg A) (public_of (sg A) (key_of ap))
      (canonical_bytes (sg A) (sth_log_id sth) (sth_tree_size sth) (sth_timestamp sth) (sth_root sth))
      (sth_signature sth) \<and>
    accepts_inclusion (leaf_hash (dp A)) (node_hash (dp A)) (commitment r) (unat (leaf_index pf))
      (unat (sth_tree_size sth)) (path pf) (sth_root sth) \<and> seq r = leaf_index pf \<and>
    (steady_life A (idle ap) s \<longrightarrow> unat (leaf_index pf) < length (entries (app_store (app s))) \<and>
      entries (app_store (app s)) ! unat (leaf_index pf) = r)"
proof -
  note start = service_inv_start [OF assms(1)]
  have key: "key_of (app s) = key_of ap" using life_inv(3) [OF assms(2) start] by simp
  show ?thesis
  proof (cases "steady_life A (idle ap) s")
    case True
    from svc.run_simulated [OF True start refines_start] obtain a where "refines A s a" by blast
    from acknowledged_body [OF svc.run_keeps [OF True start] this assms(3)] obtain sq rc where
      sq: "unat sq < length (entries (app_store (app s)))"
      and rc: "receipt_of (dp A) (sg A) (app_store (app s)) sq (log_id_of (app s)) (key_of ap) = Some (Some rc)"
      and v: "to_string_pretty A (receipt_to_json (dp A) (sg A) rc (operator_view A (app s))) = Inr (resp_body resp)"
      unfolding key .
    have "store_inv (dp A) (app_store (app s))"
      using service_inv_app [OF life_inv(1) [OF assms(2) start]] by (simp add: app_inv_def)
    from receipt_json_verifies [OF this sq rc assms(4,5,7)] assms(6) [rule_format, OF v] show ?thesis by metis
  next
    case False
    from acknowledged_issued [OF assms(1-3)] obtain st sq rc where
      st: "store_inv (dp A) st" "unat sq < length (entries st)"
        "receipt_of (dp A) (sg A) st sq (log_id_of ap) (key_of ap) = Some (Some rc)"
      and v: "to_string_pretty A (receipt_to_json (dp A) (sg A) rc (operator_view A ap)) = Inr (resp_body resp)" .
    from receipt_json_verifies [OF st assms(4,5,7)] assms(6) [rule_format, OF v] False show ?thesis by metis
  qed
qed

theorem acknowledged_body_verifies_witness:
  "\<exists>v s resp h p r pf sth. steady_life (printing_env v) (idle printed_start) s \<and> acknowledged s 0 resp \<and>
    get v ''tree_head'' = Some h \<and> get v ''inclusion'' = Some p \<and>
    sth_from_json (dp (printing_env v)) sample_signing h = Some (Inr sth) \<and>
    proof_from_json (dp (printing_env v)) p = Inr pf \<and> record_from_json (dp (printing_env v)) v = Inr r \<and>
    accepts_inclusion sample_leaf sample_node (commitment r) (unat (leaf_index pf)) (unat (sth_tree_size sth))
      (path pf) (sth_root sth) \<and> entries (app_store (app s)) ! unat (leaf_index pf) = r"
proof -
  obtain v s resp where s: "steady_life (printing_env v) (idle printed_start) s" "acknowledged s 0 resp"
    "resp_body resp = ''receipt''" using printed_life by blast
  have f: "text_forms_ok (dp (printing_env v))" "sign_text_ok (sg (printing_env v))"
    using sample_forms_ok by (simp_all add: text_forms_ok_def sign_text_ok_def sample_signing_def)
  have parse: "\<forall>w. to_string_pretty (printing_env v) w = Inr (resp_body resp) \<longrightarrow>
      json_from_str (dp (printing_env v)) (resp_body resp) = Inr w"
    using s(3) by (simp add: printing_env_def)
  have sign: "\<forall>bs sig. sign_tree_head (sg (printing_env v)) (key_of printed_start) bs = Some sig \<longrightarrow>
      verify_tree_head (sg (printing_env v)) (public_of (sg (printing_env v)) (key_of printed_start)) bs sig \<and>
      signature_value sig \<noteq> None" by (auto simp: sample_signing_def)
  from acknowledged_body_verifies [OF printed_start_new steady_life_life [OF s(1)] s(2) f parse sign] s(1)
  obtain v' h p sth pf r where
    "json_from_str (dp (printing_env v)) (resp_body resp) = Inr v'"
    and w: "get v' ''tree_head'' = Some h" "get v' ''inclusion'' = Some p"
      "sth_from_json (dp (printing_env v)) (sg (printing_env v)) h = Some (Inr sth)"
      "proof_from_json (dp (printing_env v)) p = Inr pf" "record_from_json (dp (printing_env v)) v' = Inr r"
      "accepts_inclusion (leaf_hash (dp (printing_env v))) (node_hash (dp (printing_env v)))
        (commitment r) (unat (leaf_index pf)) (unat (sth_tree_size sth)) (path pf) (sth_root sth)"
      "entries (app_store (app s)) ! unat (leaf_index pf) = r" by blast
  then have "v' = v" using s(3) by simp
  with w s(1,2) show ?thesis
    by - (rule exI [of _ v], rule exI [of _ s], rule exI [of _ resp], rule exI [of _ h], rule exI [of _ p],
      rule exI [of _ r], rule exI [of _ pf], rule exI [of _ sth], simp)
qed

text \<open>
  C10. No split view between restarts on a journal that is out of step: take any head
  that the log answers with at some moment of any life of the service, current or in a
  receipt, and any head it answers with at that or a later moment, whatever commits lie
  between, and restarts that find the journal in step with the log (as in C5; without
  that, C22 exhibits a split view). The earlier one is still being served, two heads of
  one size are the same head to the signature and the time, and of two sizes the smaller
  is consistent with the larger by a path that the verifier accepts.
\<close>

theorem log_never_equivocates:
  assumes "app_new A c = Some (Inr ap)" and "life A (idle ap) s" and "steady_life A s s'"
    and "issues_head A (app s) h" and "issues_head A (app s') h'"
  shows "issues_head A (app s') h \<and> (sth_tree_size h = sth_tree_size h' \<longrightarrow> h = h') \<and>
    (\<exists>pth. if sth_tree_size h \<le> sth_tree_size h'
      then accepts_consistency (node_hash (dp A)) (unat (sth_tree_size h)) (sth_root h)
        (unat (sth_tree_size h')) (sth_root h') pth
      else accepts_consistency (node_hash (dp A)) (unat (sth_tree_size h')) (sth_root h')
        (unat (sth_tree_size h)) (sth_root h) pth)"
proof -
  have s: "service_inv A s" by (rule life_inv(1) [OF assms(2) service_inv_start [OF assms(1)]])
  note inv = service_inv_app [OF s]
  note g = life_grown [OF assms(3) s]
  then have inv': "app_inv A (app s')" by (simp add: grown_def)
  have h: "issues_head A (app s') h" by (rule issued_head_grown [OF inv g assms(4)])
  have "sth_tree_size h' \<le> sth_tree_size h" if "\<not> sth_tree_size h \<le> sth_tree_size h'" using that by simp
  with h issued_heads_unique [OF inv' h assms(5)] issued_heads_consistent [OF inv' h assms(5)]
    issued_heads_consistent [OF inv' assms(5) h] show ?thesis by auto
qed

theorem log_never_equivocates_witness:
  "\<exists>s' old new pth. steady_life sample_env (idle (sample_app 1)) s' \<and>
    read_head sample_env (sample_app 1) = Some (Some old) \<and> read_head sample_env (app s') = Some (Some new) \<and>
    issues_head sample_env (app s') old \<and>
    accepts_consistency sample_node (unat (sth_tree_size old)) (sth_root old)
      (unat (sth_tree_size new)) (sth_root new) pth"
proof -
  obtain s' new where s': "commit_run sample_env (idle (sample_app 1)) s'"
    "read_head sample_env (app s') = Some (Some new)" using sample_anchored_run by blast
  have l: "steady_life sample_env (idle (sample_app 1)) s'" by (rule commit_run_life [OF s'(1)])
  obtain old where old: "read_head sample_env (sample_app 1) = Some (Some old)"
    using sample_head [of 1 "''log''" "''seed''"] by (auto simp: read_head_def)
  have i: "issues_head sample_env (app (idle (sample_app 1))) old" "issues_head sample_env (app s') new"
    using old s'(2) by (simp_all add: issues_head_def)
  note c = log_never_equivocates [OF sample_new rtranclp.rtrancl_refl l i]
  have inv: "app_inv sample_env (app s')"
    using life_grown [OF l service_inv_start [OF sample_new]] by (simp add: grown_def)
  have "sth_tree_size old \<le> sth_tree_size new"
    using issued_head_fields(2) [OF inv] c read_head_root(2) [OF inv s'(2)] by (simp add: word_le_nat_alt)
  with c s'(2) l old show ?thesis
    by - (rule exI [of _ s'], rule exI [of _ old], rule exI [of _ new], simp)
qed

text \<open>
  C11. A head pinned at any moment of any life of the service: at every later moment
  that is reached by commits, concurrent ones too, and by restarts that find the journal
  in step with the log (as in C5), the current head is at least as large, and GET
  /tree/consistency with the pinned size answers 200 with the pinned root, the later
  head's root, and a path that the verifier accepts between them.
\<close>

theorem pinned_head_stays_verifiable:
  assumes "app_new A c = Some (Inr ap)" and "life A (idle ap) s" and "steady_life A s s'"
    and "read_head A (app s) = Some (Some old)" and "read_head A (app s') = Some (Some new)"
    and "params ''from'' = Some (show_nat (unat (sth_tree_size old)))"
  shows "sth_tree_size old \<le> sth_tree_size new \<and>
    (\<exists>pth. tree_consistency A (app s') params = json_response A 200
        (consistency_body A (app s') (sth_tree_size old) (Some (sth_root old)) (Some (sth_root new)) pth) \<and>
      accepts_consistency (node_hash (dp A)) (unat (sth_tree_size old)) (sth_root old)
        (unat (sth_tree_size new)) (sth_root new) pth)"
proof -
  have s: "service_inv A s" by (rule life_inv(1) [OF assms(2) service_inv_start [OF assms(1)]])
  from pinned_head [where params = params, OF service_inv_app [OF s] life_grown [OF assms(3) s] assms(4-6)]
  show ?thesis by blast
qed

theorem pinned_head_stays_verifiable_witness:
  "\<exists>s' old new pth. steady_life sample_env (idle (sample_app 1)) s' \<and>
    read_head sample_env (sample_app 1) = Some (Some old) \<and> read_head sample_env (app s') = Some (Some new) \<and>
    accepts_consistency sample_node (unat (sth_tree_size old)) (sth_root old)
      (unat (sth_tree_size new)) (sth_root new) pth"
proof -
  obtain s' new where s': "commit_run sample_env (idle (sample_app 1)) s'"
    "read_head sample_env (app s') = Some (Some new)" using sample_anchored_run by blast
  have l: "steady_life sample_env (idle (sample_app 1)) s'" by (rule commit_run_life [OF s'(1)])
  obtain old where old: "read_head sample_env (sample_app 1) = Some (Some old)"
    using sample_head [of 1 "''log''" "''seed''"] by (auto simp: read_head_def)
  then have "read_head sample_env (app (idle (sample_app 1))) = Some (Some old)" by simp
  from pinned_head_stays_verifiable [OF sample_new rtranclp.rtrancl_refl l this s'(2),
      of "\<lambda>_. Some (show_nat (unat (sth_tree_size old)))"]
  have "\<exists>pth. accepts_consistency sample_node (unat (sth_tree_size old)) (sth_root old)
      (unat (sth_tree_size new)) (sth_root new) pth" by auto
  with s'(2) l old show ?thesis by blast
qed

text \<open>
  C12. After a run of appends on a fresh journal, in which each write wrote its line or
  failed without writing anything, and one more append whose write may also stop after
  any number of bytes, the journal is opened again. If the last write succeeded, this
  gives the very same store: tree, entries, and journal contents. If it stopped inside
  the line, it gives the same store with the torn line in its journal (or the read error
  of the file, should the cut leave bytes that do not read). If it stopped with the
  whole line written but not the line feed, the store has, besides, the record whose
  append was reported as failed.
\<close>

theorem restart_reproduces_state:
  assumes "Suc (length xs) < 2 ^ 64"
    and "run_appends D (empty_store\<lparr>journal := Some []\<rparr>) xs = Some st0"
    and "\<forall>x\<in>set xs. leaves_nothing (fst x)"
    and "store_append D w st0 sub com salt at = Some (st, res)"
    and "r = next_record st0 sub com salt at"
    and "\<forall>r\<in>set (entries st0). line_ok D (read_line f) r" and "cuts_ok D (read_line f) r"
    and "journal st = Some body" and "plain_file f body"
  shows "case w of
      Wrote \<Rightarrow> open_store D (Some f) = Some (Inr st)
    | Write_Failed n e \<Rightarrow>
        if length (journal_line D r) \<le> n
        then \<exists>st'. open_store D (Some f) = Some (Inr st') \<and> entries st' = entries st @ [r] \<and> journal st' = Some body
        else open_store D (Some f) = Some (Inr st) \<or>
          (\<exists>e'. read_line f (take n (journal_line D r)) = Inl e' \<and>
            open_store D (Some f) = Some (Inl (Journal (''journal read error: '' @ e'))))"
  by (rule restart_after_run [OF assms])

theorem restart_reproduces_state_witness:
  "\<exists>st f. store_append sample_deps (Write_Failed 3 ''disk full'') (empty_store\<lparr>journal := Some []\<rparr>) ''item'' ''c0'' None ''noon''
      = Some (st, Inl (Journal ''journal write failed: disk full'')) \<and>
    journal st = Some ''rec'' \<and> open_store sample_deps (Some f) = Some (Inr st)"
proof -
  let ?e = "empty_store\<lparr>journal := Some []\<rparr> :: (string, string) log_store"
  let ?st = "empty_store\<lparr>journal := Some ''rec''\<rparr> :: (string, string) log_store"
  have z: "show_nat 0 = ''0''" by code_simp
  have n: "sample_record 0 = next_record ?e ''item'' ''c0'' None ''noon''"
    by (simp add: next_record_def store_size_def as_u64_def sample_record_def z)
  have l: "journal_line sample_deps (sample_record 0) = ''record 0''" using z by (simp add: sample_journal_line)
  have "sample_print (record_to_json sample_deps (next_record ?e ''item'' ''c0'' None ''noon'')) = Inr ''record 0''"
    unfolding n [symmetric] using l by simp
  then have a: "store_append sample_deps (Write_Failed 3 ''disk full'') ?e ''item'' ''c0'' None ''noon''
      = Some (?st, Inl (Journal ''journal write failed: disk full''))"
    by (simp add: store_append_def next_record_def store_size_def Let_def)
  have run: "run_appends sample_deps ?e [] = Some ?e" by simp
  have "open_store sample_deps (Some (sample_file ''rec'')) = Some (Inr ?st)"
    using restart_reproduces_state [OF _ run _ a n, of "sample_file ''rec''" "''rec''"] sample_cuts(1)
      sample_file_plain l by simp
  with a show ?thesis by - (rule exI [of _ ?st], rule exI [of _ "sample_file ''rec''"], simp)
qed

text \<open>
  C13. A journal opens to a store if and only if the files answer without errors and its
  lines account for the entries of the store one by one and in order, numbered 0, 1, 2,
  ...; the only line that may be missing from the entries is a last one that does not
  parse and is not blank. The store is then the one its entries determine, and keeps the
  file as its journal.
\<close>

theorem accepted_journal_is_the_log:
  assumes "contents f = Some body"
  shows "open_store D (Some f) = Some (Inr st) \<longleftrightarrow>
    plain_file f body \<and> store_inv D st \<and> journal st = Some body \<and>
    (\<exists>ls. map (read_line f) (raw_lines body) = map Inr ls \<and>
      (map (parse_line D) ls = map Inr (entries st) \<or>
       ls \<noteq> [] \<and> map (parse_line D) (butlast ls) = map Inr (entries st) \<and>
         (\<exists>e. parse_line D (last ls) = Inl e) \<and> trim (last ls) \<noteq> []))"
  using open_store_iff [OF assms] by (simp only: accounted_def)

theorem accepted_journal_is_the_log_witness:
  "open_store sample_deps (Some (sample_file (journal_text sample_deps (sample_entries 2)))) = Some (Inr (sample_store 2)) \<and>
   plain_file (sample_file (journal_text sample_deps (sample_entries 2))) (journal_text sample_deps (sample_entries 2)) \<and>
   store_inv sample_deps (sample_store 2)"
proof -
  have "contents (sample_file (journal_text sample_deps (sample_entries 2)))
      = Some (journal_text sample_deps (sample_entries 2))" by (simp add: sample_file_def)
  from accepted_journal_is_the_log [OF this, of sample_deps "sample_store 2"] sample_restart [of 2]
  show ?thesis by simp
qed

text \<open>
  C14. GET /tree/head reads the head and the submission record under two locks, so any
  commits of the same process may happen in between (a restart cannot: it ends the
  request). After any life of the service, whatever record is found then with the head's
  size carries the digest of the anchor of that very head, and says anchored only with a
  stored response that passed the check for that digest, or else says unreachable with
  no response and a time to try again.
\<close>

theorem anchor_claims_are_about_this_head:
  assumes "app_new A c = Some (Inr ap)" and "life A (idle ap) s" and "commit_run A s s'"
    and "read_head A (app s) = Some (Some sth)" and "app_tsa (app s') = Some r"
    and "tr_tree_size r = sth_tree_size sth"
  shows "\<exists>url a. external_tsa_url (app_config (app s')) = Some url \<and>
    sth_external_anchor (anchored_externally A sth url) = Some a \<and> tr_digest r = anchor_digest a \<and>
    (tr_status r = ''anchored'' \<and> (\<exists>resp. tr_response r = Some resp \<and>
        verify_timestamp_response resp (hash_bytes (ts A) (tr_digest r)) = Some (Inr ())) \<or>
     tr_status r = ''unreachable'' \<and> tr_response r = None \<and> tr_retry_at r \<noteq> None)"
proof -
  have s: "service_inv A s" by (rule life_inv(1) [OF assms(2) service_inv_start [OF assms(1)]])
  note inv = service_inv_app [OF s]
  note k = commit_run_inv [OF assms(3) s [unfolded service_inv_def, THEN conjunct1]]
  then have "covers_head A (app s') r" using assms(5) by (simp add: system_inv_def)
  moreover have h: "held_head A (app s') sth"
    by (rule held_head_grown [OF inv k [THEN conjunct2] read_head_held [OF inv assms(4)]])
  moreover have "sth' = sth" if "held_head A (app s') sth'" "sth_tree_size sth' = tr_tree_size r" for sth'
    using that h assms(6) by (simp add: held_head_def)
  ultimately show ?thesis unfolding covers_head_def by blast
qed

theorem anchor_claims_are_about_this_head_witness:
  "\<exists>s sth r. commit_run sample_env (idle (sample_app 1)) s \<and> read_head sample_env (app s) = Some (Some sth) \<and>
    app_tsa (app s) = Some r \<and> tr_digest r = sth_root sth \<and> tr_status r \<in> {''anchored'', ''unreachable''}"
proof -
  obtain s sth r where s: "commit_run sample_env (idle (sample_app 1)) s"
    "read_head sample_env (app s) = Some (Some sth)" "app_tsa (app s) = Some r" "tr_tree_size r = sth_tree_size sth"
    using sample_anchored_run by blast
  from anchor_claims_are_about_this_head [OF sample_new commit_run_life [OF s(1)] rtranclp.rtrancl_refl s(2-4)] s(1-3)
  show ?thesis by (fastforce simp: sample_env_def)
qed

text \<open>
  C15. In every state of every life of the service, whatever journals it was started
  again on, every request to every endpoint is answered, without a panic, whatever its
  headers, query, path and body and whatever the journal write does: POST /commitments
  with 201, 400, 401 or 500, the reads with 200, 400 or 404. Exactly a 201 has sequenced
  one entry, every other answer left the entries alone. This relies on room in 64 bits,
  on signing and printing, and on the submission to the authority returning.
\<close>

theorem every_request_is_answered:
  assumes "app_new A c = Some (Inr ap)" and "life A (idle ap) s" and "can_sign A ap" and "pretty_ok A"
    and "has_room (app_store (app s))"
    and "\<forall>url sth. external_tsa_url c = Some url \<longrightarrow> submit_head A now' url sth \<noteq> None"
  shows "\<exists>ap' resp. serve_in A w now now' s ep rq = Some (ap', resp) \<and> grown A (app s) ap' \<and>
    resp_status resp \<in> (if ep = Commit then {201, 400, 401, 500} else {200, 400, 404}) \<and>
    (if resp_status resp = 201
     then \<exists>r. entries (app_store ap') = entries (app_store (app s)) @ [r]
     else entries (app_store ap') = entries (app_store (app s)))"
proof -
  note start = service_inv_start [OF assms(1)]
  have inv: "app_inv A (app s)" by (rule service_inv_app [OF life_inv(1) [OF assms(2) start]])
  have g: "app_config (app s) = c" "can_sign A (app s)"
    using life_inv(2,3) [OF assms(2) start] app_new_inv [OF assms(1)] assms(3)
    by (simp_all add: can_sign_def)
  have "\<not> poisoned s" using life_unpoisoned [OF assms(2) start] assms(3) by simp
  then have serve: "serve_in A w now now' s ep rq = serve A w now now' (app s) ep rq" by (simp add: serve_in_def)
  show ?thesis
  proof (cases "ep = Commit")
    case True
    with commit_total [OF inv assms(5) g(2) assms(4), of now' w now "rq_headers rq" "rq_body rq"] assms(6) g(1) serve
    show ?thesis by (simp add: serve_def)
  next
    case False
    from read_total [OF inv assms(4) this, of w now now' rq] serve obtain resp where
      "serve_in A w now now' s ep rq = Some (app s, resp)" "resp_status resp \<in> {200, 400, 404}" by auto
    then show ?thesis using False inv by (intro exI [of _ "app s"] exI [of _ resp]) (auto simp: grown_refl)
  qed
qed

theorem every_request_is_answered_witness:
  "\<exists>ap' resp. serve_in sample_env (Write_Failed 3 ''disk full'') ''noon'' ''noon'' (idle (sample_app 1)) Commit
      \<lparr>rq_headers = \<lambda>_. None, rq_query = \<lambda>_. None, rq_seq = [], rq_body = ''post''\<rparr> = Some (ap', resp) \<and>
    grown sample_env (sample_app 1) ap' \<and> resp_status resp \<in> {201, 400, 401, 500}"
proof -
  have "\<forall>url sth. external_tsa_url (sample_log_config 1) = Some url \<longrightarrow>
      submit_head sample_env ''noon'' url sth \<noteq> None"
    using sample_submit [of "''noon''"] by (metis option.distinct(1))
  from every_request_is_answered [OF sample_new rtranclp.rtrancl_refl sample_env_ok(5,1) _ this, where ep = Commit
      and w = "Write_Failed 3 ''disk full''" and now = "''noon''"
      and rq = "\<lparr>rq_headers = \<lambda>_. None, rq_query = \<lambda>_. None, rq_seq = [], rq_body = ''post''\<rparr>"]
  show ?thesis by (auto simp: has_room_def)
qed

text \<open>
  C16. In every state of every life of the service, a request in flight that gets five
  turns, in any schedule, with any steps of other requests between them and any outcome
  of its journal write, has been answered with 201 or 500. Its submission goes to the
  authority that is configured; the connect may never succeed and no response may ever
  come, the time-outs see to that. What is relied on: the authority takes the request
  (without that, C33 shows a commit that never ends) and sends nothing whose decoding
  panics (as in C32), the client stays connected, the key signs, responses print, the
  clock is in range, and the log has room.
\<close>

theorem five_turns_bring_the_answer:
  assumes "app_new A c = Some (Inr ap)" and "life A (idle ap) s" and "tasks s i = Some t" and "in_flight t"
    and "scheduled A i s 5 s'" and "has_room (app_store (app s'))"
    and "can_sign A ap" and "pretty_ok A" and "anchors_ok A" and "authority_ok A (external_tsa_url c)"
  shows "commit_run A s s' \<and> (\<exists>resp. tasks s' i = Some (Answered resp) \<and> resp_status resp \<in> {201, 500})"
proof
  note start = service_inv_start [OF assms(1)]
  have "submits_configured (idle ap)" by (simp add: submits_configured_def)
  then have conf: "submits_configured s" by (rule life_configured [OF assms(2)])
  have sign: "can_sign A (app s)" using life_inv(3) [OF assms(2) start] assms(7) by (simp add: can_sign_def)
  have auth: "authority_ok A (external_tsa_url (app_config (app s)))"
    using life_inv(2) [OF assms(2) start] app_new_inv [OF assms(1)] assms(10) by simp
  have "\<not> poisoned s" using life_unpoisoned [OF assms(2) start] assms(7) by simp
  from scheduled_gets_on [OF assms(5) life_inv(1) [OF assms(2) start] assms(6,8,9) auth sign conf this assms(3,4)]
  obtain t' where "tasks s' i = Some t'" "in_flight t'" "rank t' = 0" using rank_le [of t] by auto
  then show "\<exists>resp. tasks s' i = Some (Answered resp) \<and> resp_status resp \<in> {201, 500}"
    using rank_0 [of t'] by (auto simp: in_flight_def)
qed (rule scheduled_run [OF assms(5)])

theorem five_turns_bring_the_answer_witness:
  "\<exists>s s' resp. tasks s 4 = Some (Accepted (''item'', ''c0'', None)) \<and> scheduled absent_env 4 s 5 s' \<and>
    tasks s' 4 = Some (Answered resp)"
proof -
  let ?s = "set_task 4 (Accepted (''item'', ''c0'', None)) (idle (sample_app 1))"
  have "check_commit absent_env (sample_app 1) (\<lambda>_. None) ''post'' = Inr (''item'', ''c0'', None)"
    by (rule sample_check_open) (simp_all add: absent_env_def sample_config_def)
  then have run: "life absent_env (idle (sample_app 1)) ?s"
    by (intro r_into_rtranclp life_step.work commit_step.accept) simp_all
  have t: "tasks ?s 4 = Some (Accepted (''item'', ''c0'', None))" by simp
  let ?go = "advance absent_env Wrote ''noon'' 4"
  have new: "app_new absent_env (sample_log_config 1) = Some (Inr (sample_app 1))"
    using sample_new [of 1] by (simp add: absent_env_new)
  have sch: "scheduled absent_env 4 ?s 5 ((?go ^^ 5) ?s)" by (rule scheduled_alone [OF absent_env_ok(3)])
  have "service_inv absent_env ?s" by (rule life_inv(1) [OF run service_inv_start [OF new]])
  from advance_alone_length [OF this, where w = Wrote and now = "''noon''" and i = 4 and n = 5]
  have room: "has_room (app_store (app ((?go ^^ 5) ?s)))" by (simp add: has_room_def)
  from five_turns_bring_the_answer [OF new run t _ sch room absent_env_ok(4,1,2,5)] t sch show ?thesis
    by - (rule exI [of _ ?s], auto)
qed

section \<open>Tamper evidence, and how the tree and the head are kept\<close>

text \<open>
  C17. Tamper evidence: whoever gets an entry accepted at a position of the log's tree
  under the log's root either presents the entry that is there or exhibits two different
  inputs of the hash functions with equal output, among inputs computed from the log and
  the proof.
\<close>

theorem forged_inclusion_needs_collision:
  assumes "length es < 2 ^ 64" and "build_tree lh nh es = Some t" and "root nh t = Some (Some r)"
    and "accepts_inclusion lh nh c m (length es) pth r"
  shows "c = es ! m \<or> collides lh nh (mth_inputs lh nh es @ inclusion_inputs lh nh c pth)"
proof -
  note inv = build_tree_Some [OF assms(2,1)]
  have "r = mth lh nh es"
    using root_correct [OF inv] assms(3) by (auto simp: mth_root_def split: if_splits)
  with assms(4) show ?thesis
    by (intro inclusion_sound) (simp_all add: accepts_inclusion_def)
qed

theorem forged_inclusion_needs_collision_witness:
  "accepts_inclusion sample_leaf sample_node ''b'' 1 2 [\<lparr>sibling = ''La'', side = Left\<rparr>] ''(LaLb)'' \<and>
   (''b'' = [''a'', ''b''] ! 1 \<or> collides sample_leaf sample_node
      (mth_inputs sample_leaf sample_node [''a'', ''b'']
        @ inclusion_inputs sample_leaf sample_node ''b'' [\<lparr>sibling = ''La'', side = Left\<rparr>]))"
proof -
  let ?es = "[''a'', ''b'']" and ?p = "[\<lparr>sibling = ''La'', side = Left\<rparr>]"
  obtain t where t: "build_tree sample_leaf sample_node ?es = Some t" "tree_inv sample_leaf sample_node ?es t"
    using build_tree_inv [of ?es sample_leaf sample_node] by auto
  have r: "root sample_node t = Some (Some ''(LaLb)'')"
    using root_correct [OF t(2)]
    by (simp add: mth_root_def sample_roots)
  have a: "accepts_inclusion sample_leaf sample_node ''b'' 1 (length ?es) ?p ''(LaLb)''"
    by code_simp
  show ?thesis using forged_inclusion_needs_collision [OF _ t(1) r a] a by (simp add: numeral_2_eq_2)
qed

text \<open>
  C18. Tamper evidence of consistency: if any path is accepted between the roots of two
  logs, the older log is a prefix of the newer one, or the inputs computed from the logs
  and the path contain a collision.
\<close>

theorem forked_history_needs_collision:
  assumes "length ds < 2 ^ 64" and "build_tree lh nh ds = Some t" and "root nh t = Some (Some old)"
    and "length es < 2 ^ 64" and "build_tree lh nh es = Some u" and "root nh u = Some (Some new)"
    and "ds \<noteq> []" and "accepts_consistency nh (length ds) old (length es) new pth"
  shows "ds = take (length ds) es \<or>
    collides lh nh (mth_inputs lh nh ds @ mth_inputs lh nh es
      @ proof_inputs nh (length ds) (length es) True old pth)"
proof -
  have "old = mth lh nh ds"
    using root_correct [OF build_tree_Some [OF assms(2,1)]] assms(3) by (auto simp: mth_root_def split: if_splits)
  moreover have "new = mth lh nh es"
    using root_correct [OF build_tree_Some [OF assms(5,4)]] assms(6) by (auto simp: mth_root_def split: if_splits)
  ultimately show ?thesis using consistency_sound [OF assms(7), of nh lh es pth] assms(8) by simp
qed

theorem forked_history_needs_collision_witness:
  "accepts_consistency sample_node 1 ''La'' 2 ''(LaLb)'' [''Lb''] \<and>
   ([''a''] = take 1 [''a'', ''b''] \<or>
    collides sample_leaf sample_node (mth_inputs sample_leaf sample_node [''a'']
      @ mth_inputs sample_leaf sample_node [''a'', ''b'']
      @ proof_inputs sample_node 1 2 True ''La'' [''Lb'']))"
proof -
  obtain t where t: "build_tree sample_leaf sample_node [''a''] = Some t"
    "tree_inv sample_leaf sample_node [''a''] t"
    using build_tree_inv [of "[''a'']" sample_leaf sample_node] by auto
  obtain u where u: "build_tree sample_leaf sample_node [''a'', ''b''] = Some u"
    "tree_inv sample_leaf sample_node [''a'', ''b''] u"
    using build_tree_inv [of "[''a'', ''b'']" sample_leaf sample_node] by auto
  have r: "root sample_node t = Some (Some ''La'')" "root sample_node u = Some (Some ''(LaLb)'')"
    using root_correct [OF t(2)] root_correct [OF u(2)]
    by (simp_all add: mth_root_def sample_roots) (simp add: sample_leaf_def)
  have a: "accepts_consistency sample_node 1 ''La'' 2 ''(LaLb)'' [''Lb'']" by code_simp
  show ?thesis
    using forked_history_needs_collision [OF _ t(1) r(1) _ u(1) r(2), of "[''Lb'']"] a by (simp add: numeral_2_eq_2)
qed

text \<open>
  C19. After any run of appends, level k holds exactly size div 2^k hashes, the j-th one
  being the Merkle tree hash of the entries from j * 2^k up to (j + 1) * 2^k, as the
  module's documentation states.
\<close>

theorem tree_levels_complete:
  assumes "length es < 2 ^ 64" and "build_tree lh nh es = Some t" and "2 ^ k \<le> length es"
  shows "k < length (levels t) \<and> length (levels t ! k) = length es div 2 ^ k \<and>
    (\<forall>j < length es div 2 ^ k. levels t ! k ! j = mth lh nh (take (2 ^ k) (drop (j * 2 ^ k) es)))"
proof -
  note inv = build_tree_Some [OF assms(2,1)]
  show ?thesis
    using tree_inv_level_exists [OF inv assms(3)] tree_inv_nth_level [OF inv]
    by (simp add: nth_complete_level)
qed

theorem tree_levels_complete_witness:
  "\<exists>t. build_tree sample_leaf sample_node [''a'', ''b'', ''c''] = Some t \<and>
    length (levels t ! 1) = 1 \<and> levels t ! 1 ! 0 = ''(LaLb)''"
proof -
  obtain t where t: "build_tree sample_leaf sample_node [''a'', ''b'', ''c''] = Some t"
    using build_tree_inv [of "[''a'', ''b'', ''c'']" sample_leaf sample_node] by auto
  from tree_levels_complete [OF _ t, of 1] t show ?thesis
    by (auto simp: sample_roots)
qed

section \<open>What requests may see and do\<close>

text \<open>
  C20. Two logs with the same operator, submission record, commitments and times are
  indistinguishable through every read endpoint, whatever subjects and salt references
  they hold; only GET /receipt for one number depends, besides, on the one entry with
  that number.
\<close>

theorem reads_disclose_no_subjects:
  assumes "app_inv A a" and "app_inv A b" and "public_part a = public_part b" and "ep \<noteq> Commit"
    and "\<And>n. ep = Receipt_Of_Seq \<Longrightarrow> parse_u64 (trim (rq_seq rq)) = Some n \<Longrightarrow>
      store_record (app_store a) n = store_record (app_store b) n"
  shows "map_option snd (serve A w now now' a ep rq) = map_option snd (serve A w now now' b ep rq)"
  by (rule reads_disclose [OF assms, symmetric])

theorem reads_disclose_no_subjects_witness:
  "\<exists>b. map subject (entries (app_store b)) \<noteq> map subject (entries (app_store (sample_app 1))) \<and>
    (\<forall>rq. map_option snd (serve sample_env Wrote ''noon'' ''noon'' (sample_app 1) Tree_Head rq)
      = map_option snd (serve sample_env Wrote ''noon'' ''noon'' b Tree_Head rq))"
proof -
  let ?r = "(sample_record 0)\<lparr>subject := ''other''\<rparr>"
  let ?b = "(sample_app 1)\<lparr>app_store := (sample_store 1)\<lparr>entries := [?r]\<rparr>\<rparr>"
  have e: "sample_entries 1 = [sample_record 0]" by (simp add: sample_entries_def as_u64_def)
  have i: "app_inv sample_env (sample_app 1)" by (simp add: sample_app_inv)
  then have b: "app_inv sample_env ?b" using e by (simp add: app_inv_def store_inv_def)
  have p: "public_part (sample_app 1) = public_part ?b"
    using e by (simp add: public_part_def sample_app_def)
  have "map_option snd (serve sample_env Wrote ''noon'' ''noon'' (sample_app 1) Tree_Head rq)
      = map_option snd (serve sample_env Wrote ''noon'' ''noon'' ?b Tree_Head rq)" for rq
    by (rule reads_disclose_no_subjects [OF i b p]) simp_all
  moreover have "subject ?r \<noteq> subject (sample_record 0)" by (simp add: sample_record_def)
  ultimately show ?thesis using e by (intro exI [of _ ?b]) simp
qed

text \<open>
  C21. With an append token configured, a commit whose authorization header is not
  Bearer and the token is answered with 401 and changes nothing, whatever its body.
\<close>

theorem append_needs_the_token:
  assumes "append_token (app_config ap) = Some token"
    and "headers ''authorization'' \<noteq> Some (''Bearer '' @ token)"
  shows "commit A w now now' ap headers body = map_option (\<lambda>resp. (ap, resp)) (unauthorized A)"
  using check_commit_denied [OF assms(1), of headers A body] assms(2)
  by (cases "unauthorized A") (simp_all add: commit_def)

theorem append_needs_the_token_witness:
  "\<exists>ap resp. append_token (app_config ap) = Some ''s3cret'' \<and>
    commit sample_env Wrote ''noon'' ''noon'' ap (\<lambda>_. Some ''Bearer wrong'') ''post'' = Some (ap, resp) \<and>
    resp_status resp = 401"
proof -
  let ?ap = "(sample_app 1)\<lparr>app_config := sample_config\<lparr>append_token := Some ''s3cret''\<rparr>\<rparr>"
  have "commit sample_env Wrote ''noon'' ''noon'' ?ap (\<lambda>_. Some ''Bearer wrong'') ''post''
      = map_option (\<lambda>resp. (?ap, resp)) (unauthorized sample_env)"
    by (rule append_needs_the_token [where token = "''s3cret''"]) simp_all
  then show ?thesis
    by (intro exI [of _ ?ap]) (simp add: unauthorized_def error_response_def json_response_def
        build_response_def sample_env_def)
qed

section \<open>The journal's edges\<close>

text \<open>
  C22. A journal that ends in a torn line opens, but the tail is not cut off: the next
  append is acknowledged with a receipt and its line is glued to the torn one. Opening
  that journal again succeeds without the entry, its receipt is gone, and the next
  append with another commitment takes its number: the operator has then signed two
  valid heads of the same tree size, with different roots unless their trees exhibit a
  hash collision.
\<close>

theorem append_after_torn_tail_forks_the_log:
  assumes "store_inv D st" and "has_room st" and "\<forall>r\<in>set (entries st). line_ok D (read_line f) r"
    and "plain_file f (journal_text D (entries st) @ torn)"
    and "newline \<notin> set torn" and "trim torn \<noteq> []" and "read_line f torn = Inr torn"
    and "parse_line D torn = Inl e"
    and "r = next_record st sub com salt at" and "line_ok D (read_line f) r"
    and "read_line f (torn @ journal_line D r) = Inr (torn @ journal_line D r)"
    and "parse_line D (torn @ journal_line D r) = Inl e'" and "trim (torn @ journal_line D r) \<noteq> []"
    and "r' = next_record st sub' com' salt' at'" and "line_ok D (read_line f) r'" and "com' \<noteq> com"
    and "\<forall>bs. sign_tree_head S op bs \<noteq> None"
    and "\<forall>bs sig. sign_tree_head S op bs = Some sig \<longrightarrow> verify_tree_head S (public_of S op) bs sig"
  shows "\<exists>st1 st2 st3 st4 body rc rc'.
    open_store D (Some f) = Some (Inr st1) \<and>
    store_append D Wrote st1 sub com salt at = Some (st2, Inr r) \<and>
    receipt_of D S st2 (seq r) lid op = Some (Some rc) \<and> journal st2 = Some body \<and>
    open_store D (Some (f\<lparr>contents := Some body\<rparr>)) = Some (Inr st3) \<and>
    receipt_of D S st3 (seq r) lid op = Some None \<and>
    store_append D Wrote st3 sub' com' salt' at' = Some (st4, Inr r') \<and>
    receipt_of D S st4 (seq r') lid op = Some (Some rc') \<and>
    head_verifies S (public_of S op) (tree_head rc) \<and> head_verifies S (public_of S op) (tree_head rc') \<and>
    sth_tree_size (tree_head rc) = sth_tree_size (tree_head rc') \<and>
    (sth_root (tree_head rc) \<noteq> sth_root (tree_head rc') \<or> collides (leaf_hash D) (node_hash D)
      (mth_inputs (leaf_hash D) (node_hash D) (map commitment (entries st2))
        @ mth_inputs (leaf_hash D) (node_hash D) (map commitment (entries st4))))"
proof -
  obtain st1 st2 body where a: "open_store D (Some f) = Some (Inr st1)"
      "store_append D Wrote st1 sub com salt at = Some (st2, Inr r)" "journal st2 = Some body"
    and b: "open_store D (Some (f\<lparr>contents := Some body\<rparr>)) = Some (Inr (st\<lparr>journal := Some body\<rparr>))"
    and e: "store_inv D st2" "entries st2 = entries st @ [r]"
    using glued_append_lost [OF assms(1-13)] by blast
  let ?st3 = "st\<lparr>journal := Some body\<rparr>"
  have "next_record ?st3 sub' com' salt' at' = r'" using assms(14) by (simp add: next_record_def store_size_def)
  with store_append_journaled [of D ?st3 body sub' com' salt' at'] line_ok_print [OF assms(15)] assms(1,2)
  obtain st4 where st4: "store_append D Wrote ?st3 sub' com' salt' at' = Some (st4, Inr r')" "store_inv D st4"
    "entries st4 = entries st @ [r']" by (auto simp: has_room_def)
  have sq: "seq r = store_size st" "seq r' = store_size st" using assms(9,14) by (simp_all add: next_record_def)
  then have lt: "unat (seq r) < length (entries st2)" "unat (seq r') < length (entries st4)"
    using assms(1) e st4 by simp_all
  obtain rc rc' where rc: "receipt_of D S st2 (seq r) lid op = Some (Some rc)"
    "receipt_of D S st4 (seq r') lid op = Some (Some rc')"
    using receipt_of_signed [OF e(1) lt(1) assms(17), of lid] receipt_of_signed [OF st4(2) lt(2) assms(17), of lid] by blast
  have "receipt_of D S ?st3 (seq r) lid op = Some None"
    by (rule receipt_of_missing) (use assms(1) sq in simp_all)
  moreover have "head_verifies S (public_of S op) (tree_head rc)" "head_verifies S (public_of S op) (tree_head rc')"
    using receipt_head_verifies [OF e(1) lt(1) rc(1)] receipt_head_verifies [OF st4(2) lt(2) rc(2)] assms(18) by blast+
  moreover have "commitment r \<noteq> commitment r'" using assms(9,14,16) by (simp add: next_record_def)
  note f = forked_receipts [OF e(1) st4(2) e(2) st4(3) this rc]
  ultimately show ?thesis using a b st4(1) rc f
    by - (rule exI [of _ st1], rule exI [of _ st2], rule exI [of _ ?st3], rule exI [of _ st4], rule exI [of _ body],
      rule exI [of _ rc], rule exI [of _ rc'], simp)
qed

theorem append_after_torn_tail_forks_the_log_witness:
  "\<exists>st2 st4 rc rc'.
    receipt_of rival_deps sample_signing st2 1 ''log'' ''seed'' = Some (Some rc) \<and>
    receipt_of rival_deps sample_signing st4 1 ''log'' ''seed'' = Some (Some rc') \<and>
    head_verifies sample_signing ''seed'' (tree_head rc) \<and> head_verifies sample_signing ''seed'' (tree_head rc') \<and>
    sth_tree_size (tree_head rc) = sth_tree_size (tree_head rc')"
proof -
  let ?f = "sample_file (journal_text sample_deps (sample_entries 1) @ ''rec'')"
  have room: "has_room (sample_store 1)" by (simp add: has_room_def)
  have lines: "\<forall>r\<in>set (entries (sample_store 1)). line_ok rival_deps (read_line ?f) r"
    using rival_lines_ok(1) by (auto simp: sample_entries_def)
  have plain: "plain_file ?f (journal_text rival_deps (entries (sample_store 1)) @ ''rec'')"
    using sample_file_plain by (simp add: rival_text)
  have next1: "next_record (sample_store 1) ''item'' ''d1'' None ''noon'' = rival_record"
    unfolding rival_record_def sample_next(1) [symmetric] by (simp add: next_record_def)
  have ok: "line_ok rival_deps (read_line ?f) (sample_record 1)" "line_ok rival_deps (read_line ?f) rival_record"
    using rival_lines_ok by simp_all
  have v: "\<forall>bs sig. sign_tree_head sample_signing ''seed'' bs = Some sig \<longrightarrow>
      verify_tree_head sample_signing (public_of sample_signing ''seed'') bs sig"
    using sample_signing_ok by blast
  have seqs: "seq (sample_record 1) = 1" "seq rival_record = 1" by (simp_all add: rival_record_def)
  have pub: "public_of sample_signing k = k" for k by (simp add: sample_signing_def)
  show ?thesis
    using append_after_torn_tail_forks_the_log [OF rival_store_inv [of 1] room lines plain sample_torn(3,2,5)
        rival_torn(1) sample_next(1) [symmetric] ok(1) _ rival_torn(2,3) next1 [symmetric] ok(2) _ sample_signs v,
        of "''log''"] seqs pub by auto
qed

text \<open>
  C23. With a torn tail in place, two successful appends leave a journal that the
  service refuses to open, with the parse error of the glued line.
\<close>

theorem second_append_after_torn_tail_blocks_restart:
  assumes "store_inv D st" and "Suc (Suc (length (entries st))) < 2 ^ 64"
    and "journal st = Some (journal_text D (entries st) @ torn)"
    and "\<forall>r\<in>set (entries st). line_ok D rd r" and "newline \<notin> set torn"
    and "store_append D Wrote st sub com salt at = Some (st1, Inr r)" and "line_ok D rd r"
    and "store_append D Wrote st1 sub' com' salt' at' = Some (st2, Inr r')" and "line_ok D rd r'"
    and "rd (torn @ journal_line D r) = Inr (torn @ journal_line D r)"
    and "parse_line D (torn @ journal_line D r) = Inl e"
    and "plain_file f (the (journal st2))" and "read_line f = rd"
  shows "open_store D (Some f)
    = Some (Inl (Journal (''line '' @ show_nat (1 + length (entries st)) @ '': '' @ e)))"
proof -
  have sp: "journal s' = Some (b @ journal_line D x @ [newline]) \<and> store_inv D s' \<and> entries s' = entries s @ [x]"
    if s: "store_inv D s" "has_room s" "journal s = Some b" "line_ok D rd x"
      and a: "store_append D Wrote s u c k m = Some (s', Inr x)" for s b x u c k m s'
  proof -
    have "x = next_record s u c k m"
      using store_append_inv [OF s(1,2), of Wrote u c k m] a by (auto simp: next_record_def)
    with store_append_journaled [OF s(1-3), of u c k m "journal_line D x"] a line_ok_print [OF s(4)]
    show ?thesis by auto
  qed
  from sp [OF assms(1) _ assms(3,7,6)] assms(2) have st1:
    "journal st1 = Some ((journal_text D (entries st) @ torn) @ journal_line D r @ [newline])"
    "store_inv D st1" "entries st1 = entries st @ [r]" by (simp_all add: has_room_def)
  from sp [OF st1(2) _ st1(1) assms(9,8)] assms(2) st1(3) have st2: "the (journal st2)
      = journal_text D (entries st) @ torn @ journal_line D r @ [newline] @ journal_line D r' @ [newline]"
    by (simp add: has_room_def)
  show ?thesis
    by (rule glued_line_refused [OF assms(1), of f r r' torn])
      (use assms(4,5,7,9,10,11,12,13) st2 in simp_all)
qed

theorem second_append_after_torn_tail_blocks_restart_witness:
  "\<exists>st1 st2. store_append sample_deps Wrote
        ((sample_store 1)\<lparr>journal := Some (journal_text sample_deps (sample_entries 1) @ ''rec'')\<rparr>)
        ''item'' ''c1'' None ''noon'' = Some (st1, Inr (sample_record 1)) \<and>
    store_append sample_deps Wrote st1 ''item'' ''c2'' None ''noon'' = Some (st2, Inr (sample_record 2)) \<and>
    open_store sample_deps (Some (sample_file (the (journal st2))))
      = Some (Inl (Journal (''line '' @ show_nat 2 @ '': expected value'')))"
proof -
  let ?j = "journal_text sample_deps (sample_entries 1) @ ''rec''"
  let ?st = "(sample_store 1)\<lparr>journal := Some ?j\<rparr>"
  have inv: "store_inv sample_deps ?st" using sample_store_inv [of 1] by simp
  have n1: "next_record ?st ''item'' ''c1'' None ''noon'' = sample_record 1"
    using sample_next(1) by (simp add: next_record_def store_size_def)
  from store_append_journaled [OF inv, of ?j "''item''" "''c1''" None "''noon''"
      "journal_line sample_deps (sample_record 1)"] n1 sample_line_ok [of 1]
  obtain st1 where st1: "store_append sample_deps Wrote ?st ''item'' ''c1'' None ''noon'' = Some (st1, Inr (sample_record 1))"
    "store_inv sample_deps st1" "entries st1 = sample_entries 1 @ [sample_record 1]" "\<exists>j. journal st1 = Some j"
    by (auto simp: has_room_def dest: line_ok_print)
  then obtain j where j: "journal st1 = Some j" by blast
  have n2: "next_record st1 ''item'' ''c2'' None ''noon'' = sample_record 2"
    using sample_next(2) st1(3) by (simp add: next_record_def store_size_def numeral_2_eq_2)
  from store_append_journaled [OF st1(2), of j "''item''" "''c2''" None "''noon''"
      "journal_line sample_deps (sample_record 2)"] n2 sample_line_ok [of 2] st1(3) j
  obtain st2 where st2: "store_append sample_deps Wrote st1 ''item'' ''c2'' None ''noon'' = Some (st2, Inr (sample_record 2))"
    by (auto simp: has_room_def dest: line_ok_print)
  have "open_store sample_deps (Some (sample_file (the (journal st2))))
      = Some (Inl (Journal (''line '' @ show_nat (1 + length (entries ?st)) @ '': '' @ ''expected value'')))"
    by (rule second_append_after_torn_tail_blocks_restart [OF inv _ _ _ sample_torn(3) st1(1) _ st2(1) _ _
          sample_glued(1) sample_file_plain, where rd = Inr])
      (use sample_lines_ok [of 1 "[]"] sample_line_ok in \<open>simp_all add: sample_file_def\<close>)
  with st1 st2 show ?thesis by (auto simp: numeral_2_eq_2)
qed

text \<open>
  C24. A line after the entries that the replay does not accept refuses the whole
  journal, wherever it stands and whatever follows: one that does not parse and is not
  the last (or is blank) with its number and the parse error, a record with a number
  other than the next one with the number found and the number expected.
\<close>

theorem bad_lines_are_refused:
  assumes "store_inv D st" and "\<forall>r\<in>set (entries st). line_ok D (read_line f) r"
    and "plain_file f (journal_text D (entries st) @ bad @ newline # rest)"
    and "newline \<notin> set bad" and "strip_cr bad = bad" and "\<forall>l. \<exists>l'. read_line f l = Inr l'"
    and "read_line f bad = Inr bad"
  shows "(\<forall>e. parse_line D bad = Inl e \<longrightarrow> rest \<noteq> [] \<or> trim bad = [] \<longrightarrow>
      open_store D (Some f) = Some (Inl (Journal
        (''line '' @ show_nat (1 + length (entries st)) @ '': '' @ e)))) \<and>
    (\<forall>r. parse_line D bad = Inr r \<longrightarrow> seq r \<noteq> store_size st \<longrightarrow>
      open_store D (Some f) = Some (Inl (Journal
        (''line '' @ show_nat (1 + length (entries st)) @ '': seq '' @ show_nat (unat (seq r))
          @ '' is out of sequence (expected '' @ show_nat (length (entries st)) @ '')''))))"
proof -
  note refused = bad_line_refused [OF assms]
  show ?thesis
    by (intro conjI allI impI; rule refused) (auto simp: replay_line_def store_size_def)
qed

theorem bad_lines_are_refused_witness:
  "open_store sample_deps (Some (sample_file (journal_text sample_deps (sample_entries 2) @ ''rec'' @ newline # ''x'')))
    = Some (Inl (Journal (''line '' @ show_nat 3 @ '': expected value''))) \<and>
   open_store sample_deps (Some (sample_file (journal_text sample_deps (sample_entries 1)
      @ journal_line sample_deps (sample_record 5) @ newline # [])))
    = Some (Inl (Journal (''line '' @ show_nat 2 @ '': seq '' @ show_nat 5 @ '' is out of sequence (expected ''
        @ show_nat 1 @ '')'')))"
proof
  have rd: "\<forall>l. \<exists>l'. read_line (sample_file b) l = Inr l'" for b using sample_read_line by blast
  show "open_store sample_deps (Some (sample_file (journal_text sample_deps (sample_entries 2) @ ''rec'' @ newline # ''x'')))
      = Some (Inl (Journal (''line '' @ show_nat 3 @ '': expected value'')))"
    using bad_lines_are_refused [OF sample_store_inv [of 2] sample_lines_ok, of _ "''rec''" "''x''",
        OF _ sample_file_plain [of "journal_text sample_deps (entries (sample_store 2)) @ ''rec'' @ newline # ''x''"]
          sample_torn(3,4) rd sample_torn(5)] sample_torn(1)
    by (simp add: numeral_3_eq_3)
  have ok: "line_ok sample_deps Inr (sample_record 5)" by (rule sample_line_ok)
  from ok have "newline \<notin> set (journal_line sample_deps (sample_record 5))"
    "strip_cr (journal_line sample_deps (sample_record 5)) = journal_line sample_deps (sample_record 5)"
    by (rule jl.enc_no_newline, rule jl.strip_cr_enc [where acc = "[]", simplified])
  from bad_lines_are_refused [OF sample_store_inv [of 1] sample_lines_ok sample_file_plain this rd, of "[]"]
    line_ok_parse [OF ok]
  show "open_store sample_deps (Some (sample_file (journal_text sample_deps (sample_entries 1)
      @ journal_line sample_deps (sample_record 5) @ newline # [])))
    = Some (Inl (Journal (''line '' @ show_nat 2 @ '': seq '' @ show_nat 5 @ '' is out of sequence (expected ''
        @ show_nat 1 @ '')'')))"
    by (simp add: store_size_def as_u64_def del: One_nat_def)
qed

text \<open>
  C25. Opening a store always returns: with a store or with an error, for every file
  contents and every file system answer, provided the file has fewer than 2^64 lines.
\<close>

theorem opening_never_panics:
  assumes "\<And>f body. jf = Some f \<Longrightarrow> contents f = Some body \<Longrightarrow> length (raw_lines body) < 2 ^ 64"
  shows "\<exists>res. open_store D jf = Some res"
proof -
  have "open_store D jf \<noteq> None" by (rule open_store_total) (rule assms)
  then show ?thesis by auto
qed

theorem opening_never_panics_witness:
  "\<exists>res. open_store sample_deps (Some (sample_file ''junk'')) = Some res"
proof (rule opening_never_panics)
  fix f body assume "Some (sample_file ''junk'') = Some f" and "contents f = Some body"
  then have "body = ''junk''" by (auto simp: sample_file_def)
  then show "length (raw_lines body) < 2 ^ 64" by (simp add: raw_lines_last newline_def)
qed

section \<open>Where the service falls short\<close>

text \<open>
  C26. When the receipt of an appended entry cannot be signed, the commit panics under
  the lock of the store. The entry is in the log and its client hears nothing; the lock
  is poisoned, so in every later state of the process no further request is acknowledged
  and every request that needs the store panics. A new process on the journal has the
  entry, answers that there is no receipt for it, and reports at /tree/head a log of
  size 0.
\<close>

theorem unsigned_receipt_takes_the_log_down:
  assumes "app_new A c = Some (Inr ap)" and "life A (idle ap) s" and "\<not> poisoned s"
    and "tasks s i = Some (Accepted (sub, com, salt))"
    and "store_append (dp A) w (app_store (app s)) sub com salt now = Some (st, Inr r)"
    and "receipt_of (dp A) (sg A) st (seq r) (log_id_of (app s)) (key_of (app s)) = Some None"
  shows "\<exists>s'. commit_step A s s' \<and> tasks s' i = Some Dropped \<and> app_store (app s') = st \<and>
    entries st = entries (app_store (app s)) @ [r] \<and>
    (\<forall>s''. commit_run A s' s'' \<longrightarrow> app_store (app s'') = st \<and>
      (\<forall>k resp. tasks s' k = None \<longrightarrow> \<not> acknowledged s'' k resp) \<and>
      (\<forall>ep rq w' t t'. asks_store_lock A (app s'') ep rq \<longrightarrow> serve_in A w' t t' s'' ep rq = None)) \<and>
    (\<forall>fs torn ap'. journal_kept A fs torn (app s') \<longrightarrow>
      app_new (A\<lparr>file_at := fs\<rparr>) (app_config (app s')) = Some (Inr ap') \<longrightarrow>
      entries (app_store ap') = entries st \<and>
      (\<exists>j. tree_head_handler A ap' = json_response A 200 j \<and> get j ''tree_size'' = Some (json_u64 0)) \<and>
      receipt_handler A ap' (show_nat (unat (seq r)))
        = not_found A (''no receipt for seq '' @ show_nat (unat (seq r))))"
proof -
  note start = service_inv_start [OF assms(1)]
  have s: "service_inv A s" by (rule life_inv(1) [OF assms(2) start])
  let ?ap = "(app s)\<lparr>app_store := st\<rparr>"
  let ?s' = "set_task i Dropped (s\<lparr>app := ?ap, poisoned := True\<rparr>)"
  have inv: "store_inv (dp A) (app_store (app s))"
    using system_inv_appD [of A s] s by (simp add: service_inv_def app_inv_def)
  have e: "entries st = entries (app_store (app s)) @ [r]"
    using store_append_Some_inv [OF inv assms(5)] by simp
  have "commit_append_panic A w now (app s) (sub, com, salt) = Some ?ap"
    using assms(5,6) by (simp add: commit_append_panic_def)
  note step = commit_step.panic [OF assms(3,4) this]
  have s': "service_inv A ?s'" using life_step_inv [OF life_step.work [where P = "\<lambda>_ _ _. True", OF step] s] by simp
  have "app_store (app s'') = st \<and> (\<forall>k resp. tasks ?s' k = None \<longrightarrow> \<not> acknowledged s'' k resp) \<and>
      (\<forall>ep rq w' t t'. asks_store_lock A (app s'') ep rq \<longrightarrow> serve_in A w' t t' s'' ep rq = None)"
    if run: "commit_run A ?s' s''" for s''
    using poisoned_run [OF run] unsequenced_not_acknowledged [of s''] by (simp add: serve_in_def)
  moreover have "entries (app_store ap') = entries st \<and>
      (\<exists>j. tree_head_handler A ap' = json_response A 200 j \<and> get j ''tree_size'' = Some (json_u64 0)) \<and>
      receipt_handler A ap' (show_nat (unat (seq r)))
        = not_found A (''no receipt for seq '' @ show_nat (unat (seq r)))"
    if "journal_kept A fs torn (app ?s')" "app_new (A\<lparr>file_at := fs\<rparr>) (app_config (app ?s')) = Some (Inr ap')"
    for fs torn ap'
    using unsigned_after_restart [OF s' _ _ that, of "entries (app_store (app s))" r] assms(6) e
    by (intro conjI exI [of _ "tree_head_body A ap' None"]) (simp_all, simp add: tree_head_body_def)
  ultimately show ?thesis using step e
    by - (rule exI [of _ ?s'], simp)
qed

theorem unsigned_receipt_takes_the_log_down_witness:
  "\<exists>s s' rq. life unsigned_env (idle sample_start) s \<and> tasks s 0 = Some (Accepted (''item'', ''c0'', None)) \<and>
    commit_step unsigned_env s s' \<and> entries (app_store (app s')) = [sample_record 0] \<and>
    serve_in unsigned_env Wrote ''noon'' ''noon'' s' Tree_Head rq = None"
proof -
  obtain st' where st': "store_append sample_deps Wrote (sample_store 0) ''item'' ''c0'' None ''noon'' = Some (st', Inr (sample_record 0))"
    "store_inv sample_deps st'" "entries st' = [sample_record 0]" using sample_append_zero by blast
  let ?s = "set_task 0 (Accepted (''item'', ''c0'', None)) (idle sample_start)"
  have "check_commit unsigned_env sample_start headers ''post'' = Inr (''item'', ''c0'', None)" for headers
    by (rule sample_check_open) (simp_all add: sample_journaled_def sample_config_def)
  then have "commit_step unsigned_env (idle sample_start) ?s" by (intro commit_step.accept) simp_all
  then have life: "life unsigned_env (idle sample_start) ?s" by (intro r_into_rtranclp life_step.work)
  have t: "tasks ?s 0 = Some (Accepted (''item'', ''c0'', None))" "\<not> poisoned ?s" by simp_all
  have a: "store_append (dp unsigned_env) Wrote (app_store (app ?s)) ''item'' ''c0'' None ''noon''
      = Some (st', Inr (sample_record 0))" using st'(1) by simp
  have "unat (seq (sample_record 0)) < length (entries st')" using st'(3) by simp
  from receipt_of_entry [OF st'(2) this, of "sg unsigned_env" "log_id_of (app ?s)" "key_of (app ?s)"]
  have "receipt_of (dp unsigned_env) (sg unsigned_env) st' (seq (sample_record 0)) (log_id_of (app ?s)) (key_of (app ?s))
      = Some None" by auto
  from unsigned_receipt_takes_the_log_down [OF unsigned_start_new life t(2,1) a this] obtain s' where
    s': "commit_step unsigned_env ?s s'" "app_store (app s') = st'"
    "\<And>ep rq w' t t'. asks_store_lock unsigned_env (app s') ep rq \<Longrightarrow> serve_in unsigned_env w' t t' s' ep rq = None"
    by blast
  have "serve_in unsigned_env Wrote ''noon'' ''noon'' s' Tree_Head rq = None" for rq
    by (rule s'(3)) (simp add: asks_store_lock_def)
  with life t(1) s'(1,2) st'(3) show ?thesis
    by - (rule exI [of _ ?s], rule exI [of _ s'], simp)
qed



text \<open>
  C28. A restart on the journal serves the same head, but the submission record is not
  kept: the head's external anchor is then reported as not configured, although an
  authority is.
\<close>

theorem restart_forgets_the_anchor:
  assumes "app_inv A ap" and "synced (dp A) (app_store ap)"
    and "operator_from_config (sg A) (ky A) (operator_cfg (app_config ap)) = Inr (app_operator ap)"
    and "state_file (app_config ap) = Some p"
    and "plain_file (file_at A p) (journal_text (dp A) (entries (app_store ap)))"
    and "\<forall>r\<in>set (entries (app_store ap)). line_ok (dp A) (read_line (file_at A p)) r"
    and "read_head A ap = Some (Some sth)"
  shows "\<exists>ap'. app_new A (app_config ap) = Some (Inr ap') \<and> app_store ap' = app_store ap \<and>
    read_head A ap' = Some (Some sth) \<and>
    external_anchor_view A ap' sth = json_object [(''status'', JString ''not-configured'')]"
proof -
  have "open_store (dp A) (Some (file_at A p)) = Some (Inr (app_store ap))"
    using assms(1) restart_identical [OF _ assms(2,6,5)] by (simp add: app_inv_def)
  then have "app_new A (app_config ap) = Some (Inr \<lparr>app_config = app_config ap,
      app_operator = app_operator ap, app_store = app_store ap, app_tsa = None\<rparr>)"
    using assms(3,4) by (simp add: app_new_def)
  then show ?thesis using assms(7) by (simp add: read_head_def external_anchor_view_def)
qed

theorem restart_forgets_the_anchor_witness:
  "\<exists>ap' sth. app_new sample_env (sample_config\<lparr>state_file := Some (journal_text sample_deps (sample_entries 2))\<rparr>)
      = Some (Inr ap') \<and> read_head sample_env ap' = Some (Some sth) \<and>
    external_anchor_view sample_env ap' sth = json_object [(''status'', JString ''not-configured'')]"
proof -
  let ?c = "sample_config\<lparr>state_file := Some (journal_text sample_deps (sample_entries 2))\<rparr>"
  let ?ap = "(sample_app 2)\<lparr>app_config := ?c\<rparr>"
  obtain sth where "current_head sample_deps sample_signing (sample_store 2) ''log'' ''seed'' = Some (Some sth)"
    using sample_head [of 2 "''log''" "''seed''"] by auto
  then have h: "read_head sample_env ?ap = Some (Some sth)" by (simp add: read_head_def sample_app_def op_log_id_def sample_config_def sample_env_def)
  have "\<exists>ap'. app_new sample_env (app_config ?ap) = Some (Inr ap') \<and> app_store ap' = app_store ?ap \<and>
    read_head sample_env ap' = Some (Some sth) \<and>
    external_anchor_view sample_env ap' sth = json_object [(''status'', JString ''not-configured'')]"
    by (rule restart_forgets_the_anchor [OF _ _ _ _ _ _ h, where p = "journal_text sample_deps (sample_entries 2)"])
      (use sample_app_inv [of 2] sample_synced [of 2] sample_lines_ok [of 2] sample_file_plain in
        \<open>simp_all add: app_inv_def sample_operator sample_env_def\<close>)
  then show ?thesis by auto
qed

text \<open>
  C29. Without any token, GET /receipt for the numbers from 0 up to the tree size
  answers 200 with the subject, the commitment and the salt reference of every entry in
  the log.
\<close>

theorem receipts_enumerate_the_log:
  fixes n :: u64
  assumes "app_inv A ap" and "can_sign A ap" and "unat n < length (entries (app_store ap))"
  shows "\<exists>j. receipt_handler A ap (show_nat (unat n)) = json_response A 200 j \<and>
    get j ''subject'' = Some (JString (subject (entries (app_store ap) ! unat n))) \<and>
    get j ''commitment'' = Some (JString (hash_hex (dp A) (commitment (entries (app_store ap) ! unat n)))) \<and>
    get j ''salt_ref'' = Some (json_opt_u64 (salt_ref (entries (app_store ap) ! unat n)))"
  by (rule receipt_shows_entry [OF assms])

theorem receipts_enumerate_the_log_witness:
  "\<exists>j. receipt_handler sample_env (sample_app 2) (show_nat 1) = json_response sample_env 200 j \<and>
    get j ''subject'' = Some (JString (subject (sample_entries 2 ! 1)))"
  using receipts_enumerate_the_log [OF sample_app_inv [of 2] sample_env_ok(5), of 1] by auto

section \<open>External anchoring\<close>

text \<open>
  C30. The check of a time-stamp response always returns, and accepts exactly the byte
  strings that start with two nested SEQUENCE headers and contain, at any offset, a
  32-byte octet string with the digest.
\<close>

theorem timestamp_check_characterised:
  "(\<exists>res. verify_timestamp_response der dg = Some res) \<and>
   (verify_timestamp_response der dg = Some (Inr ()) \<longleftrightarrow>
     (\<exists>t u. der_tlv der = Some (Some t) \<and> tag t = 0x30 \<and> der_tlv (tlv_value t) = Some (Some u) \<and>
        tag u = 0x30 \<and> (\<exists>i. digest_at der dg i)))"
  using verify_timestamp_response_total [of der dg] verify_timestamp_response_iff [of der dg] by blast

text \<open>
  C31. A response whose PKIStatusInfo says rejection (status 2) and that has no token at
  all is accepted when the digest follows the DER value: the bytes after it are scanned
  too.
\<close>

theorem failed_response_is_accepted:
  assumes "length dg = 32"
  shows "verify_timestamp_response ([0x30, 0x05, 0x30, 0x03, 0x02, 0x01, 0x02, 0x04, 0x20] @ dg) dg
    = Some (Inr ())"
proof -
  let ?der = "[0x30, 0x05, 0x30, 0x03, 0x02, 0x01, 0x02, 0x04, 0x20] @ dg :: bytes"
  have "der_tlv ?der = Some (Some \<lparr>tag = 0x30, tlv_value = [0x30, 0x03, 0x02, 0x01, 0x02], raw_len = 7\<rparr>)"
    by (simp add: der_tlv_def der_lengths_def usize_add_def slice_def)
  moreover have "der_tlv [0x30, 0x03, 0x02, 0x01, 0x02 :: u8]
      = Some (Some \<lparr>tag = 0x30, tlv_value = [0x02, 0x01, 0x02], raw_len = 5\<rparr>)"
    by (simp add: der_tlv_def der_lengths_def usize_add_def slice_def)
  moreover have "digest_at ?der dg 7" using assms by (simp add: digest_at_def)
  ultimately show ?thesis by (auto simp: verify_timestamp_response_iff)
qed

theorem failed_response_is_accepted_witness:
  "verify_timestamp_response ([0x30, 0x05, 0x30, 0x03, 0x02, 0x01, 0x02, 0x04, 0x20] @ replicate 32 7)
     (replicate 32 7) = Some (Inr ())"
  by (rule failed_response_is_accepted) simp

text \<open>
  C32. An authority that answers with a chunk size of 2^64 - 1 makes the whole commit
  panic, after its entry was sequenced: the addition of the chunk's offset overflows in
  the submission, the entry is in the log, and the client gets no answer.
\<close>

theorem oversized_chunk_panics_submission:
  assumes "app_inv A ap" and "has_room (app_store ap)" and "can_sign A ap" and "prints_ok A" and "anchors_ok A"
    and "external_tsa_url (app_config ap) = Some url" and "parse_http_url url = Inr (host, port, pth)"
    and "\<And>req sent. exchange (peer (ts A) host port) req sent = Ready t (Inr (oversized_reply rest))"
    and "check_commit A ap headers body = Inr rq"
  shows "commit A Wrote now now' ap headers body = None \<and>
    (\<exists>ap' j r. commit_append A Wrote now ap rq = Some (ap', Inr j) \<and>
       entries (app_store ap') = entries (app_store ap) @ [r] \<and> request_of r = rq)"
  by (rule commit_unanswered [OF assms(1-4,6) _ assms(9)]) (rule submit_oversized [OF assms(5,7,8)])

theorem oversized_chunk_panics_submission_witness:
  "\<exists>A ap' j r. commit (A :: (string, string, unit, string, string, string, string) api_env) Wrote ''noon'' ''noon''
      (sample_app 1) (\<lambda>_. None) ''post'' = None \<and>
    commit_append A Wrote ''noon'' (sample_app 1) (''item'', ''c0'', None) = Some (ap', Inr j) \<and>
    entries (app_store ap') = sample_entries 1 @ [r] \<and> request_of r = (''item'', ''c0'', None)"
proof -
  let ?A = "sample_env\<lparr>ts := sample_tsa\<lparr>peer := \<lambda>_ _. answering_peer (oversized_reply [])\<rparr>\<rparr>"
  have u: "parse_http_url ''http://tsa/'' = Inr (''tsa'', 80, ''/'')" by code_simp
  have c: "check_commit ?A (sample_app 1) (\<lambda>_. None) ''post'' = Inr (''item'', ''c0'', None)"
    by (rule sample_check_open) (simp_all add: sample_config_def)
  have "app_inv ?A (sample_app 1)" "has_room (app_store (sample_app 1))" "can_sign ?A (sample_app 1)"
    "prints_ok ?A" "anchors_ok ?A"
    using sample_app_inv [of 1] sample_env_ok by (simp_all add: app_inv_def can_sign_def prints_ok_def anchors_ok_def has_room_def)
  from oversized_chunk_panics_submission [OF this _ u _ c, of 0 "[]" "''noon''" "''noon''"]
  show ?thesis by (simp add: sample_config_def exchange_answered) blast
qed

text \<open>
  C33. The submission's time-out of 3 seconds covers the connect and the read, each on
  its own, and not the writes: a submission ends within twice the time-out plus the time
  of the writes and the half-close, and to an authority that accepts the connection but
  never takes the request it does not end at all: the commit then appends its entry and
  never answers.
\<close>

theorem timeouts_do_not_bound_the_submission:
  assumes "app_inv A ap" and "has_room (app_store ap)" and "can_sign A ap" and "prints_ok A" and "anchors_ok A"
    and "external_tsa_url (app_config ap) = Some url" and "parse_http_url url = Inr (host, port, pth)"
    and "check_commit A ap headers body = Inr rq" and "peer (ts A) host port = P"
  shows "(\<forall>w b s. (\<forall>req sent. ends_by (tcp_write P req) w \<and> ends_by (tcp_write_body P req sent) b \<and>
        ends_by (tcp_shutdown P req sent) s) \<longrightarrow>
      ends_by (http_post_binary (ts A) url content_type sent) (2 * submit_timeout + w + b + s)) \<and>
    (\<forall>t. tcp_connect P = Ready t (Inr ()) \<longrightarrow> t \<le> submit_timeout \<longrightarrow> (\<forall>req. tcp_write P req = Never) \<longrightarrow>
      http_post_binary (ts A) url content_type sent = Never \<and>
      commit A Wrote now now' ap headers body = None \<and>
      (\<exists>ap' j r. commit_append A Wrote now ap rq = Some (ap', Inr j) \<and>
         entries (app_store ap') = entries (app_store ap) @ [r] \<and> request_of r = rq))"
proof (intro conjI allI impI)
  fix w b s
  assume "\<forall>req sent. ends_by (tcp_write P req) w \<and> ends_by (tcp_write_body P req sent) b \<and>
    ends_by (tcp_shutdown P req sent) s"
  then show "ends_by (http_post_binary (ts A) url content_type sent) (2 * submit_timeout + w + b + s)"
    using exchange_ends [of P _ w sent b s] assms(7,9) by (simp add: http_post_binary_def)
next
  fix t
  assume c: "tcp_connect P = Ready t (Inr ())" "t \<le> submit_timeout" "\<forall>req. tcp_write P req = Never"
  then have n: "exchange (peer (ts A) host port) req msg = Never" for req msg
    unfolding assms(9) by (intro exchange_stalled [of P t]) simp_all
  then show "http_post_binary (ts A) url content_type sent = Never" using assms(7) by (simp add: http_post_binary_def)
  note u = commit_unanswered [OF assms(1-4,6) submit_stalled [OF assms(5,7) n] assms(8)]
  show "commit A Wrote now now' ap headers body = None" using u by blast
  show "\<exists>ap' j r. commit_append A Wrote now ap rq = Some (ap', Inr j) \<and>
      entries (app_store ap') = entries (app_store ap) @ [r] \<and> request_of r = rq" using u by blast
qed

theorem timeouts_do_not_bound_the_submission_witness:
  "\<exists>A ap' j r. commit (A :: (string, string, unit, string, string, string, string) api_env) Wrote ''noon'' ''noon''
      (sample_app 1) (\<lambda>_. None) ''post'' = None \<and>
    commit_append A Wrote ''noon'' (sample_app 1) (''item'', ''c0'', None) = Some (ap', Inr j) \<and>
    http_post_binary (ts A) ''http://tsa/'' ''text/plain'' [] = Never"
proof -
  let ?A = "sample_env\<lparr>ts := sample_tsa\<lparr>peer := \<lambda>_ _. silent_peer\<rparr>\<rparr>"
  have u: "parse_http_url ''http://tsa/'' = Inr (''tsa'', 80, ''/'')" by code_simp
  have c: "check_commit ?A (sample_app 1) (\<lambda>_. None) ''post'' = Inr (''item'', ''c0'', None)"
    by (rule sample_check_open) (simp_all add: sample_config_def)
  have a: "app_inv ?A (sample_app 1)" "has_room (app_store (sample_app 1))" "can_sign ?A (sample_app 1)"
    "prints_ok ?A" "anchors_ok ?A"
    using sample_app_inv [of 1] sample_env_ok by (simp_all add: app_inv_def can_sign_def prints_ok_def anchors_ok_def has_room_def)
  have url: "external_tsa_url (app_config (sample_app 1)) = Some ''http://tsa/''" by simp
  have p: "peer (ts ?A) ''tsa'' 80 = silent_peer" by simp
  note c2 = timeouts_do_not_bound_the_submission [OF a url u c p, of "''text/plain''" "[]" "''noon''" "''noon''",
      THEN conjunct2, rule_format, of 0]
  have s: "tcp_connect silent_peer = Ready 0 (Inr ())" "tcp_write silent_peer req = Never" for req
    by (simp_all add: silent_peer_def)
  from c2 [OF s(1) _ s(2)] show ?thesis by (intro exI [of _ ?A]) auto
qed

text \<open>
  C34. A 200 response with ASCII header lines decodes to the body that was framed: with
  chunked transfer announced, to the concatenation of well-formed chunks, whatever
  trailer follows the final zero chunk; otherwise, with a Content-Length line, to that
  many bytes of the body (or all of a shorter one), and without one to the whole body.
\<close>

theorem response_bodies_decode:
  assumes "\<forall>x\<in>set (l # ls). header_line x"
    and "Option.bind (nth_word 1 l) (from_str_radix 16 10) = Some 200"
    and "hs = of_str (join_lines (l # ls)) @ crlf @ crlf"
    and "chunked = contains ''transfer-encoding: chunked'' (map ascii_lower (join_lines (l # ls)))"
  shows "(chunked \<and> (\<forall>c\<in>set cs. chunk_ok c) \<and> 0x0D \<notin> set z \<and> chunk_size z = Some 0 \<and>
       length (concat (map chunk_frame cs)) < 2 ^ 64 \<longrightarrow>
       decode_http_response (hs @ concat (map chunk_frame cs) @ z @ crlf @ trailer)
         = Some (Inr (concat (map snd cs)))) \<and>
    (\<not> chunked \<and> l # ls = us @ (''Content-Length: '' @ show_nat n) # vs \<and>
       (\<forall>x\<in>set us. \<not> length_line x) \<and> n < 2 ^ 64 \<longrightarrow>
       decode_http_response (hs @ body) = Some (Inr (take n body))) \<and>
    (\<not> chunked \<and> (\<forall>x\<in>set (l # ls). \<not> length_line x) \<longrightarrow>
       decode_http_response (hs @ body) = Some (Inr body))"
proof (intro conjI impI; elim conjE)
  assume chunked
  then have "contains ''transfer-encoding: chunked'' (map ascii_lower (join_lines (l # ls)))"
    using assms(4) by simp
  note c = decode_http_response_chunked [OF assms(1,2) this]
  assume "\<forall>c\<in>set cs. chunk_ok c" and "0x0D \<notin> set z" and "chunk_size z = Some 0"
    and "length (concat (map chunk_frame cs)) < 2 ^ 64"
  from decode_chunks_frames [OF this]
  show "decode_http_response (hs @ concat (map chunk_frame cs) @ z @ crlf @ trailer)
    = Some (Inr (concat (map snd cs)))" unfolding assms(3) append_assoc c by simp
next
  assume "\<not> chunked"
  then have "\<not> contains ''transfer-encoding: chunked'' (map ascii_lower (join_lines (l # ls)))"
    using assms(4) by simp
  note p = decode_http_response_plain [OF assms(1,2) this, of body]
  assume lines: "l # ls = us @ (''Content-Length: '' @ show_nat n) # vs" and "\<forall>x\<in>set us. \<not> length_line x" "n < 2 ^ 64"
  then have "content_length (join_lines (l # ls)) = Some n"
    using content_length_line [of us n vs] assms(1) by simp
  then show "decode_http_response (hs @ body) = Some (Inr (take n body))"
    unfolding assms(3) append_assoc p by simp
next
  assume "\<not> chunked"
  then have "\<not> contains ''transfer-encoding: chunked'' (map ascii_lower (join_lines (l # ls)))"
    using assms(4) by simp
  note p = decode_http_response_plain [OF assms(1,2) this, of body]
  assume "\<forall>x\<in>set (l # ls). \<not> length_line x"
  with assms(1) have "content_length (join_lines (l # ls)) = None" by (intro content_length_absent) blast
  then show "decode_http_response (hs @ body) = Some (Inr body)" unfolding assms(3) append_assoc p by simp
qed

theorem response_bodies_decode_witness:
  "decode_http_response (of_str (join_lines [''HTTP/1.1 200 OK'', ''Transfer-Encoding: chunked'']) @ crlf @ crlf
      @ of_str ''2'' @ crlf @ [1, 2] @ crlf @ of_str ''1'' @ crlf @ [3] @ crlf @ of_str ''0'' @ crlf)
    = Some (Inr [1, 2, 3]) \<and>
   decode_http_response (of_str (join_lines [''HTTP/1.1 200 OK'', ''Content-Length: 2'']) @ crlf @ crlf @ [1, 2, 3])
    = Some (Inr [1, 2])"
proof
  let ?cs = "[(of_str ''2'', [1, 2]), (of_str ''1'', [3 :: u8])]"
  have o: "of_str ''0'' = [0x30]" "of_str ''1'' = [0x31]" "of_str ''2'' = [0x32]" by (simp_all add: of_str_def)
  have "contains ''transfer-encoding: chunked''
       (map ascii_lower (join_lines [''HTTP/1.1 200 OK'', ''Transfer-Encoding: chunked'']))" by code_simp
  moreover have "\<forall>c\<in>set ?cs. chunk_ok c" "0x0D \<notin> set (of_str ''0'')" "chunk_size (of_str ''0'') = Some 0"
    "length (concat (map chunk_frame ?cs)) < 2 ^ 64"
    using sample_sizes by (simp_all add: chunk_ok_def chunk_frame_def crlf_def o)
  ultimately show "decode_http_response (of_str (join_lines [''HTTP/1.1 200 OK'', ''Transfer-Encoding: chunked'']) @ crlf @ crlf
      @ of_str ''2'' @ crlf @ [1, 2] @ crlf @ of_str ''1'' @ crlf @ [3] @ crlf @ of_str ''0'' @ crlf) = Some (Inr [1, 2, 3])"
    using response_bodies_decode [OF _ status_200_line refl refl, of "[''Transfer-Encoding: chunked'']" ?cs "of_str ''0''" "[]"]
    by (simp add: header_line_def chunk_frame_def del: join_lines.simps)
next
  have "show_nat 2 = ''2''" by code_simp
  moreover have "\<not> contains ''transfer-encoding: chunked''
       (map ascii_lower (join_lines [''HTTP/1.1 200 OK'', ''Content-Length: 2'']))" by code_simp
  moreover have "\<not> length_line ''HTTP/1.1 200 OK''" by code_simp
  ultimately show "decode_http_response (of_str (join_lines [''HTTP/1.1 200 OK'', ''Content-Length: 2'']) @ crlf @ crlf @ [1, 2, 3])
    = Some (Inr [1, 2])"
    using response_bodies_decode [OF _ status_200_line refl refl, of "[''Content-Length: 2'']" "[]" "[]" "[]"
        "[''HTTP/1.1 200 OK'']" 2 "[]" "[1, 2, 3]"]
    by (simp add: header_line_def del: join_lines.simps)
qed

text \<open>
  C35. The DER reader inverts the encoder: a value of fewer than 2^32 bytes, encoded
  with its tag and the shortest length form and followed by anything, is read back with
  its tag, exactly its bytes and the length of the encoding (big-endian lengths of one
  to four bytes), and every proper prefix of the encoding is refused without a panic.
\<close>

theorem der_values_are_read_back:
  assumes "length v < 2 ^ 32"
  shows "der_tlv (der_encode tg v @ rest)
      = Some (Some \<lparr>tag = tg, tlv_value = v, raw_len = length (der_encode tg v)\<rparr>) \<and>
    (\<forall>k < length (der_encode tg v). der_tlv (take k (der_encode tg v)) = Some None)"
  using der_tlv_encoded [OF assms] der_tlv_cut [OF assms] by blast

theorem der_values_are_read_back_witness:
  "der_tlv ([0x30, 0x81, 0xC8] @ replicate 200 7 @ [1, 2])
      = Some (Some \<lparr>tag = 0x30, tlv_value = replicate 200 7, raw_len = 203\<rparr>) \<and>
   der_tlv (take 202 ([0x30, 0x81, 0xC8] @ replicate 200 7)) = Some None"
proof -
  have e: "der_encode 0x30 (replicate 200 7) = [0x30, 0x81, 0xC8] @ replicate 200 7"
    by (simp add: der_encode_def der_length_def be_bytes_numeral)
  then have "202 < length (der_encode 0x30 (replicate 200 7))" by simp
  then have "der_tlv (der_encode 0x30 (replicate 200 7) @ [1, 2])
      = Some (Some \<lparr>tag = 0x30, tlv_value = replicate 200 7, raw_len = length (der_encode 0x30 (replicate 200 7))\<rparr>)"
    "der_tlv (take 202 (der_encode 0x30 (replicate 200 7))) = Some None"
    using der_values_are_read_back [of "replicate 200 7" "0x30" "[1, 2]"] by simp_all
  then show ?thesis unfolding e by simp
qed

text \<open>
  C36. A composed plain-http URL is taken apart into exactly its host, port and path;
  without port and path it defaults to port 80 and the root path.
\<close>

theorem tsa_url_parts_recovered:
  assumes "host \<noteq> []" and "CHR ''/'' \<notin> set host" and "port < 2 ^ 16"
  shows "parse_http_url (''http://'' @ host @ '':'' @ show_nat port @ ''/'' @ p) = Inr (host, port, ''/'' @ p) \<and>
    (CHR '':'' \<notin> set host \<longrightarrow> parse_http_url (''http://'' @ host) = Inr (host, 80, ''/''))"
  using parse_http_url_port [OF assms] parse_http_url_default [OF assms(1,2)] by blast

theorem tsa_url_parts_recovered_witness:
  "parse_http_url (''http://'' @ ''tsa.example'' @ '':'' @ show_nat 8080 @ ''/'' @ ''tsr'')
     = Inr (''tsa.example'', 8080, ''/tsr'') \<and>
   parse_http_url (''http://'' @ ''tsa.example'') = Inr (''tsa.example'', 80, ''/'')"
  using tsa_url_parts_recovered [of "''tsa.example''" 8080 "''tsr''"] by simp

section \<open>Encodings\<close>

text \<open>
  C37. The wire form of a receipt is sufficient for a verifier: the signed head, the
  inclusion proof and the commit record itself are rebuilt from it exactly.
\<close>

theorem wire_rebuilds_what_is_verified:
  assumes "text_forms_ok D" and "sign_text_ok S"
    and "signature_value (sth_signature (tree_head rc)) = Some bs"
    and "sth_external_anchor (tree_head rc) = None"
  shows "\<exists>h i. get (receipt_to_json D S rc info) ''tree_head'' = Some h \<and>
    get (receipt_to_json D S rc info) ''inclusion'' = Some i \<and>
    sth_from_json D S h = Some (Inr (tree_head rc)) \<and> proof_from_json D i = Inr (inclusion rc) \<and>
    record_from_json D (receipt_to_json D S rc info) = Inr (receipt_record rc)"
  by (rule receipt_wire [OF assms(1,2,4,3)])

theorem wire_rebuilds_what_is_verified_witness:
  "\<exists>rc h. receipt_of sample_deps sample_signing (sample_store 1) 0 ''log'' ''key'' = Some (Some rc) \<and>
    get (receipt_to_json sample_deps sample_signing rc JNull) ''tree_head'' = Some h \<and>
    sth_from_json sample_deps sample_signing h = Some (Inr (tree_head rc))"
proof -
  have sq: "unat (0 :: u64) < length (entries (sample_store 1))" by simp
  from receipt_of_entry [OF sample_store_inv sq, of sample_signing "''log''" "''key''"] obtain rc bs where
    rc: "receipt_of sample_deps sample_signing (sample_store 1) 0 ''log'' ''key'' = Some (Some rc)"
    "signature_value (sth_signature (tree_head rc)) = Some bs" "sth_external_anchor (tree_head rc) = None"
    by (auto simp: sample_signing_def)
  have ok: "sign_text_ok sample_signing" by (simp add: sign_text_ok_def sample_signing_def)
  from wire_rebuilds_what_is_verified [OF sample_forms_ok ok rc(2,3), of JNull] rc(1) show ?thesis by blast
qed

text \<open>
  C38. Hex decoding is not strict: after any valid pairs, a plus sign and a hex digit
  decode to a byte, and text of even length in which a multi-byte character spans a
  pair's end is a panic.
\<close>

theorem hex_decode_is_not_strict:
  assumes "d < 16" and "(of_char x :: nat) < 128" and "128 \<le> (of_char z :: nat)" and "(of_char z :: nat) < 192"
    and "odd (length rest)"
  shows "hex_decode (hex_encode bs @ [CHR ''+'', digit_char d]) = Some (Some (bs @ [of_nat d])) \<and>
    hex_decode (hex_encode bs @ x # y # z # rest) = None"
proof
  let ?p = "[CHR ''+'', digit_char d]"
  have "starts_char ?p" by (simp add: starts_char_def)
  moreover have "str_slice (hex_encode bs @ ?p) (2 * length bs) (2 * length bs + 2) = Some ?p"
    using hex_boundary [OF calculation, of "2 * length bs" bs]
    by (simp add: str_slice_def is_boundary_def)
  moreover have "from_str_radix 8 16 ?p = Some d"
    using assms(1) by (simp add: from_str_radix_def digits_val_def digit_val_char)
  ultimately show "hex_decode (hex_encode bs @ ?p) = Some (Some (bs @ [of_nat d]))"
    using hex_decode_prefix [of ?p bs] by simp
next
  let ?t = "x # y # z # rest"
  have t: "starts_char ?t" "even (length ?t)" using assms(2,5) by (simp_all add: starts_char_def)
  have "\<not> is_boundary (hex_encode bs @ ?t) (2 * length bs + 2)"
    using assms(3,4) by (simp add: is_boundary_def nth_append)
  then have "str_slice (hex_encode bs @ ?t) (2 * length bs) (2 * length bs + 2) = None"
    by (simp add: str_slice_def)
  moreover have "[length bs..<length bs + length ?t div 2] = length bs # [Suc (length bs)..<length bs + length ?t div 2]"
    by (rule upt_conv_Cons) simp
  ultimately show "hex_decode (hex_encode bs @ ?t) = None"
    unfolding hex_decode_prefix [OF t] by (simp del: upt_Suc)
qed

theorem hex_decode_is_not_strict_witness:
  "hex_decode ''00+f'' = Some (Some [0, 15]) \<and> hex_decode (map char_of [0x61, 0xC3, 0xA9, 0x62 :: nat]) = None"
proof -
  have "char_of (48 :: nat) = CHR ''0''" "char_of (102 :: nat) = CHR ''f''" by code_simp+
  then show ?thesis
    using hex_decode_is_not_strict [of 15 "char_of (0x61 :: nat)" "char_of (0xA9 :: nat)" "[char_of (0x62 :: nat)]" "[0]"
        "char_of (0xC3 :: nat)"]
      hex_decode_is_not_strict [of 15 "char_of (0x61 :: nat)" "char_of (0xA9 :: nat)" "[char_of (0x62 :: nat)]" "[]"
        "char_of (0xC3 :: nat)"]
    by (simp add: hex_encode_def hex_byte_def digit_char_def)
qed

text \<open>
  C39. The base64 of a byte string decodes, by RFC 4648, to the byte string, and has
  four symbols per started group of three bytes.
\<close>

theorem base64_decodes_back: "unbase64 (base64 bs) = bs \<and> length (base64 bs) = 4 * ((length bs + 2) div 3)"
  by (simp add: base64_round_trip length_base64)

section \<open>Configuration and operator\<close>

text \<open>
  C40. A configuration that loads has a log id of at most 64 printable ASCII characters
  that is not blank and a non-empty seed; an empty token or state file counts as unset,
  the authority's URL is trimmed and a blank one counts as unset, and an unparsable bind
  address falls back to the default.
\<close>

theorem loaded_configuration_is_valid:
  assumes "config_from_env A env = Some (Inr c)"
  shows "length (oc_log_id (operator_cfg c)) \<le> 64 \<and> trim (oc_log_id (operator_cfg c)) \<noteq> [] \<and>
    (\<forall>b\<in>set (oc_log_id (operator_cfg c)). is_ascii_graphic b \<or> b = CHR '' '') \<and>
    oc_seed (operator_cfg c) \<noteq> [] \<and>
    append_token c = (case env ''UNIDPP_LOG_APPEND_TOKEN'' of
        Some t \<Rightarrow> if t \<noteq> [] then Some t else None | None \<Rightarrow> None) \<and>
    state_file c = (case env ''UNIDPP_LOG_STATE_FILE'' of
        Some p \<Rightarrow> if p \<noteq> [] then Some p else None | None \<Rightarrow> None) \<and>
    external_tsa_url c = (case env ''UNIDPP_LOG_EXTERNAL_TSA_URL'' of
        Some u \<Rightarrow> if trim u \<noteq> [] then Some (trim u) else None | None \<Rightarrow> None) \<and>
    Some (bind_addr c) = (case Option.bind (env ''UNIDPP_LOG_BIND'') (parse_addr A) of
        Some a \<Rightarrow> Some a | None \<Rightarrow> parse_addr A ''127.0.0.1:8092'')"
  using operator_from_env_Inr [OF config_from_env_Inr(1) [OF assms]] config_from_env_Inr(2-5) [OF assms]
  by (intro conjI)

theorem loaded_configuration_is_valid_witness:
  "\<exists>c. config_from_env sample_env
      (\<lambda>k. if k = ''UNIDPP_LOG_EXTERNAL_TSA_URL'' then Some '' http://tsa/ '' else None) = Some (Inr c) \<and>
    external_tsa_url c = Some ''http://tsa/'' \<and> append_token c = None \<and> oc_seed (operator_cfg c) \<noteq> []"
proof -
  let ?env = "\<lambda>k. if k = ''UNIDPP_LOG_EXTERNAL_TSA_URL'' then Some '' http://tsa/ '' else None"
  have d: "length default_log_id \<le> 64 \<and> list_all (\<lambda>b. is_ascii_graphic b \<or> b = CHR '' '') default_log_id"
    by code_simp
  then obtain oc where "operator_from_env sample_signing sample_keys ?env = Inr oc"
    by (simp add: operator_from_env_def env_or_def id_env_def suite_env_def seed_env_def)
  then obtain c where c: "config_from_env sample_env ?env = Some (Inr c)"
    by (simp add: config_from_env_def default_config_def Let_def)
      (simp add: sample_env_def Let_def)
  have "trim '' http://tsa/ '' = ''http://tsa/''" by code_simp
  with loaded_configuration_is_valid [OF c] c show ?thesis by (intro exI [of _ c]) simp
qed

end
